(* ===== verification/C_Base.thy ===== *)
theory C_Base
  imports Main "HOL-Library.Word" "HOL-Library.Signed_Division"
begin

text \<open>
  The vocabulary shared by the models of the coursework programs: what C leaves undefined
  (as values of a sum type, so that an out-of-range access or a signed overflow is a branch
  of the model and not an unspecified HOL value), the ranges of \<open>int\<close> and \<open>long\<close> on the
  LP64 target the Makefiles build for, NUL-terminated strings in fixed buffers, and the
  generic list lemmas that several components use.
\<close>

section \<open>Collections of facts\<close>

named_theorems c_simps \<open>unfolding rules for the C vocabulary\<close>
named_theorems inv_intros \<open>every operation of a component keeps its invariant\<close>

section \<open>Faults\<close>

text \<open>
  \<open>Signed_Overflow\<close>, \<open>Oob_Read\<close>, \<open>Oob_Write\<close>, \<open>Null_Deref\<close> and \<open>Uninit_Read\<close> are the
  undefined behaviours the sources can run into; \<open>Self_Deadlock\<close> is a default
  (non-recursive) pthread mutex locked again by a program none of whose threads can
  release it.
\<close>

datatype fault =
    Signed_Overflow
  | Oob_Read
  | Oob_Write
  | Null_Deref
  | Uninit_Read
  | Self_Deadlock

type_synonym 'a cres = "fault + 'a"

definition cbind :: "'a cres \<Rightarrow> ('a \<Rightarrow> 'b cres) \<Rightarrow> 'b cres" where
  "cbind m k = (case m of Inl e \<Rightarrow> Inl e | Inr x \<Rightarrow> k x)"

lemma cbind_Inl [simp, c_simps]: "cbind (Inl e) k = Inl e"
  by (simp add: cbind_def)

lemma cbind_Inr [simp, c_simps]: "cbind (Inr x) k = k x"
  by (simp add: cbind_def)

lemma cbind_eq_Inr: "cbind m k = Inr y \<longleftrightarrow> (\<exists>x. m = Inr x \<and> k x = Inr y)"
  by (cases m) simp_all

lemma cbind_eq_Inl: "cbind m k = Inl e \<longleftrightarrow> m = Inl e \<or> (\<exists>x. m = Inr x \<and> k x = Inl e)"
  by (cases m) simp_all

lemma cbind_assoc: "cbind (cbind m f) g = cbind m (\<lambda>x. cbind (f x) g)"
  by (cases m) simp_all

section \<open>Signed integers\<close>

definition int_min :: int where "int_min = - (2 ^ 31)"
definition int_max :: int where "int_max = 2 ^ 31 - 1"
definition long_min :: int where "long_min = - (2 ^ 63)"
definition long_max :: int where "long_max = 2 ^ 63 - 1"

definition in_int :: "int \<Rightarrow> bool" where
  "in_int x \<longleftrightarrow> int_min \<le> x \<and> x \<le> int_max"

definition in_long :: "int \<Rightarrow> bool" where
  "in_long x \<longleftrightarrow> long_min \<le> x \<and> x \<le> long_max"

text \<open>The value of a signed expression whose mathematical value is \<open>x\<close>.\<close>

definition c_int :: "int \<Rightarrow> int cres" where
  "c_int x = (if in_int x then Inr x else Inl Signed_Overflow)"

definition c_long :: "int \<Rightarrow> int cres" where
  "c_long x = (if in_long x then Inr x else Inl Signed_Overflow)"

lemmas int_range_defs = in_int_def in_long_def int_min_def int_max_def long_min_def long_max_def

lemma c_int_Inr [simp]: "c_int x = Inr y \<longleftrightarrow> in_int x \<and> y = x"
  by (auto simp: c_int_def)

lemma c_int_in [simp]: "in_int x \<Longrightarrow> c_int x = Inr x"
  by (simp add: c_int_def)

lemma c_int_out [simp]: "\<not> in_int x \<Longrightarrow> c_int x = Inl Signed_Overflow"
  by (simp add: c_int_def)

lemma c_long_in [simp]: "in_long x \<Longrightarrow> c_long x = Inr x"
  by (simp add: c_long_def)

lemma c_long_out [simp]: "\<not> in_long x \<Longrightarrow> c_long x = Inl Signed_Overflow"
  by (simp add: c_long_def)

text \<open>C's \<open>/\<close> and \<open>%\<close> truncate towards zero: \<open>sdiv\<close> and \<open>smod\<close> of Signed_Division.\<close>

lemma sdiv_nonneg: "0 \<le> a \<Longrightarrow> 0 < b \<Longrightarrow> (a::int) sdiv b = a div b"
  by (cases "a = 0") (simp_all add: signed_divide_int_def)

lemma smod_nonneg: "0 \<le> a \<Longrightarrow> 0 < b \<Longrightarrow> (a::int) smod b = a mod b"
  by (cases "a = 0") (simp_all add: signed_modulo_int_def)

lemma smod_2_eq_0: "((a::int) smod 2 = 0) = even a"
  by (auto simp: signed_modulo_int_def sgn_if even_iff_mod_2_eq_zero)

lemma sdiv_2_even: "even (a::int) \<Longrightarrow> a sdiv 2 = a div 2"
proof (cases "0 \<le> a")
  case False
  assume "even a"
  with False show ?thesis
    by (auto simp: signed_divide_int_def elim!: evenE)
qed (simp add: sdiv_nonneg)

section \<open>Strings in fixed buffers\<close>

text \<open>
  A \<open>char\<close> array is the list of its bytes. \<open>cstr b\<close> is the string a \<open>char *\<close> to the start
  of \<open>b\<close> denotes: the bytes before the first NUL. It is only meaningful when \<open>b\<close> holds a
  NUL (\<open>terminated\<close>); the functions below fault where the C library would read past the
  buffer instead.
\<close>

abbreviation NUL :: char where "NUL \<equiv> CHR 0x00"

definition cstr :: "char list \<Rightarrow> char list" where
  "cstr b = takeWhile (\<lambda>c. c \<noteq> NUL) b"

definition terminated :: "char list \<Rightarrow> bool" where
  "terminated b \<longleftrightarrow> NUL \<in> set b"

text \<open>\<open>memcpy(dst, src, n)\<close> as the \<open>n\<close> bytes it copies.\<close>

definition memcpy_bytes :: "char list \<Rightarrow> nat \<Rightarrow> (char list) cres" where
  "memcpy_bytes src n = (if n \<le> length src then Inr (take n src) else Inl Oob_Read)"

definition strlen :: "char list \<Rightarrow> nat cres" where
  "strlen b = (if terminated b then Inr (length (cstr b)) else Inl Oob_Read)"

text \<open>
  \<open>strncmp(a, b, n) == 0\<close>: bytes are compared up to the first difference, the first NUL or
  \<open>n\<close> bytes. Running off either buffer before that is an out-of-range read.
\<close>

fun strncmp_eq :: "char list \<Rightarrow> char list \<Rightarrow> nat \<Rightarrow> bool cres" where
  "strncmp_eq a b 0 = Inr True"
| "strncmp_eq [] b (Suc n) = Inl Oob_Read"
| "strncmp_eq (x # a) [] (Suc n) = Inl Oob_Read"
| "strncmp_eq (x # a) (y # b) (Suc n) =
     (if x \<noteq> y then Inr False else if x = NUL then Inr True else strncmp_eq a b n)"

lemma cstr_Nil [simp]: "cstr [] = []"
  by (simp add: cstr_def)

lemma cstr_Cons [simp]: "cstr (x # b) = (if x = NUL then [] else x # cstr b)"
  by (simp add: cstr_def)

lemma NUL_notin_cstr: "NUL \<notin> set (cstr b)"
  by (auto simp: cstr_def dest: set_takeWhileD)

lemma cstr_append: "NUL \<notin> set s \<Longrightarrow> cstr (s @ NUL # r) = s"
  by (induction s) auto

lemma cstr_id: "NUL \<notin> set s \<Longrightarrow> cstr s = s"
  by (induction s) auto

lemma cstr_padded [simp]: "NUL \<notin> set s \<Longrightarrow> cstr (s @ replicate k NUL) = s"
  by (cases k) (simp_all add: cstr_append cstr_id)

lemma terminated_length: "terminated b \<Longrightarrow> length (cstr b) < length b"
  by (induction b) (auto simp: terminated_def)

lemma terminated_split: "terminated b \<Longrightarrow> \<exists>r. b = cstr b @ NUL # r"
  by (induction b) (auto simp: terminated_def)

text \<open>
  A buffer a comparison of at most \<open>n\<close> bytes can read: \<open>n\<close> bytes long, or terminated. On
  two such buffers the comparison is that of the strings, cut to \<open>n\<close> bytes.
\<close>

definition readable :: "nat \<Rightarrow> char list \<Rightarrow> bool" where
  "readable n b \<longleftrightarrow> n \<le> length b \<or> terminated b"

lemma readable_simps [simp]:
  "readable (Suc n) (x # b) \<longleftrightarrow> x = NUL \<or> readable n b"
  "\<not> readable (Suc n) []"
  by (auto simp: readable_def terminated_def)

lemma readable_length: "n \<le> length b \<Longrightarrow> readable n b"
  by (simp add: readable_def)

lemma readable_terminated: "terminated b \<Longrightarrow> readable n b"
  by (simp add: readable_def)

lemma strncmp_eq_readable:
  "readable n a \<Longrightarrow> readable n b \<Longrightarrow>
   strncmp_eq a b n = Inr (take n (cstr a) = take n (cstr b))"
  by (induction a b n rule: strncmp_eq.induct) auto

text \<open>A string literal or a \<open>strtok\<close> token in memory: its characters and the final NUL.\<close>

definition c_lit :: "char list \<Rightarrow> char list" where
  "c_lit s = s @ [NUL]"

lemma terminated_c_lit [simp]: "terminated (c_lit s)"
  by (simp add: terminated_def c_lit_def)

lemma length_c_lit [simp]: "length (c_lit s) = Suc (length s)"
  by (simp add: c_lit_def)

lemma cstr_c_lit [simp]: "NUL \<notin> set s \<Longrightarrow> cstr (c_lit s) = s"
  by (simp add: c_lit_def cstr_append)

section \<open>Lines of input\<close>

text \<open>
  \<open>fgets(buf, n, stdin)\<close>: the line read and the rest of the input, nothing at end of file.
\<close>

fun read_line :: "nat \<Rightarrow> char list \<Rightarrow> char list \<times> char list" where
  "read_line 0 inp = ([], inp)"
| "read_line (Suc n) [] = ([], [])"
| "read_line (Suc n) (c # inp) =
     (if c = CHR 0x0A then ([c], inp) else case read_line n inp of (l, rest) \<Rightarrow> (c # l, rest))"

definition fgets :: "nat \<Rightarrow> char list \<Rightarrow> char list \<Rightarrow> (char list \<times> char list) option" where
  "fgets n buf inp =
     (if inp = [] then None
      else case read_line (n - 1) inp of (l, rest) \<Rightarrow> Some (l @ NUL # drop (length l + 1) buf, rest))"

lemma read_line_newline:
  "CHR 0x0A \<notin> set l \<Longrightarrow> length l < n \<Longrightarrow> read_line n (l @ CHR 0x0A # rest) = (l @ [CHR 0x0A], rest)"
  by (induction l arbitrary: n) (case_tac n; force)+

section \<open>Arguments of a program\<close>

text \<open>
  \<open>strtol(s, &end, 10)\<close>: the value, whether \<open>errno\<close> became \<open>ERANGE\<close>, and the string
  \<open>end\<close> points to. Without a digit the value is 0 and \<open>end\<close> is \<open>s\<close> itself.
\<close>

definition is_space :: "char \<Rightarrow> bool" where
  "is_space c \<longleftrightarrow> c \<in> {CHR '' '', CHR 0x09, CHR 0x0A, CHR 0x0B, CHR 0x0C, CHR 0x0D}"

definition is_digit :: "char \<Rightarrow> bool" where
  "is_digit c \<longleftrightarrow> 48 \<le> (of_char c :: nat) \<and> (of_char c :: nat) \<le> 57"

definition digits_value :: "string \<Rightarrow> int" where
  "digits_value ds = foldl (\<lambda>a c. 10 * a + (of_char c - 48)) 0 ds"

definition split_sign :: "string \<Rightarrow> bool \<times> string" where
  "split_sign s = (case s of [] \<Rightarrow> (False, s)
     | c # t \<Rightarrow> if c = CHR ''-'' then (True, t) else if c = CHR ''+'' then (False, t) else (False, s))"

definition strtol10 :: "string \<Rightarrow> int \<times> bool \<times> string" where
  "strtol10 s =
     (let (neg, t) = split_sign (dropWhile is_space s); ds = takeWhile is_digit t;
          v = (if neg then - digits_value ds else digits_value ds)
      in if ds = [] then (0, False, s)
         else (max long_min (min long_max v), \<not> in_long v, dropWhile is_digit t))"

lemma strtol10_in_long: "in_long (fst (strtol10 s))"
  by (auto simp: strtol10_def int_range_defs Let_def split: prod.splits)

text \<open>A \<open>long\<close> converted to \<open>int\<close> keeps its low 32 bits; \<open>atoi\<close> is \<open>strtol\<close> converted so.\<close>

definition long_to_int :: "int \<Rightarrow> int" where
  "long_to_int x = sint (word_of_int x :: 32 word)"

definition atoi :: "string \<Rightarrow> int" where
  "atoi s = long_to_int (fst (strtol10 s))"

lemma long_to_int_in_int [simp]: "in_int (long_to_int x)"
  using sint_greater_eq [of "word_of_int x :: 32 word"] sint_lt [of "word_of_int x :: 32 word"]
  by (simp add: long_to_int_def int_range_defs)

lemma long_to_int_id: "in_int x \<Longrightarrow> long_to_int x = x"
  by (simp add: long_to_int_def sint_sbintrunc' signed_take_bit_int_eq_self int_range_defs)

text \<open>The exit status of \<open>main\<close>.\<close>

datatype exit_code = EXIT_SUCCESS | EXIT_FAILURE

section \<open>Printed numbers\<close>

fun decimal :: "nat \<Rightarrow> string" where
  "decimal n = (if n < 10 then [char_of (48 + n)] else decimal (n div 10) @ [char_of (48 + n mod 10)])"

declare decimal.simps [simp del]

text \<open>What \<open>%d\<close> and \<open>%ld\<close> print.\<close>

definition format_d :: "int \<Rightarrow> string" where
  "format_d x = (if x < 0 then CHR ''-'' # decimal (nat (- x)) else decimal (nat x))"

lemma decimal_value: "foldl (\<lambda>a c. 10 * a + (of_char c - 48)) 0 (decimal n) = n"
proof (induction n rule: decimal.induct)
  case (1 n)
  have digit: "of_char (char_of (48 + d) :: char) = 48 + d" if "d < 10" for d :: nat
    using that by (simp add: of_char_of)
  show ?case
  proof (cases "n < 10")
    case True
    then show ?thesis by (simp add: decimal.simps [of n] digit)
  next
    case False
    then show ?thesis using 1 digit [of "n mod 10"] by (simp add: decimal.simps [of n])
  qed
qed

lemma decimal_inject: "decimal m = decimal n \<Longrightarrow> m = n"
  by (metis decimal_value)

lemma decimal_digits: "c \<in> set (decimal n) \<Longrightarrow> 48 \<le> (of_char c :: nat) \<and> (of_char c :: nat) < 58"
proof (induction n rule: decimal.induct)
  case (1 n)
  have digit: "48 \<le> (of_char (char_of (48 + d) :: char) :: nat) \<and> (of_char (char_of (48 + d) :: char) :: nat) < 58"
    if "d < 10" for d :: nat
    using that by (simp add: of_char_of)
  show ?case
  proof (cases "n < 10")
    case True
    then show ?thesis using digit [of n] 1(2) by (simp add: decimal.simps [of n])
  next
    case False
    then show ?thesis using 1 digit [of "n mod 10"] by (auto simp: decimal.simps [of n])
  qed
qed

lemma decimal_no_NUL: "NUL \<notin> set (decimal n)"
  using decimal_digits [of NUL n] by auto

lemma decimal_no_minus: "CHR ''-'' \<notin> set (decimal n)"
  using decimal_digits [of "CHR ''-''" n] by auto

lemma decimal_length: "n < 10 ^ Suc m \<Longrightarrow> length (decimal n) \<le> Suc m"
proof (induction m arbitrary: n)
  case 0
  then show ?case by (simp add: decimal.simps [of n])
next
  case (Suc m)
  then have "n div 10 < 10 ^ Suc m" by (simp add: less_mult_imp_div_less mult.commute)
  from Suc.IH [OF this] show ?case by (simp add: decimal.simps [of n])
qed

lemma format_d_inject:
  assumes "format_d x = format_d y"
  shows "x = y"
proof (cases "x < 0 \<longleftrightarrow> y < 0")
  case True
  with assms have "nat \<bar>x\<bar> = nat \<bar>y\<bar>" by (intro decimal_inject) (auto simp: format_d_def split: if_splits)
  with True show ?thesis by (auto split: if_splits)
next
  case False
  then have "CHR ''-'' \<in> set (decimal (nat \<bar>x\<bar>)) \<or> CHR ''-'' \<in> set (decimal (nat \<bar>y\<bar>))"
    using assms by (auto simp: format_d_def split: if_splits) (metis list.set_intros(1))+
  with decimal_no_minus show ?thesis by blast
qed

lemma format_d_NUL: "NUL \<notin> set (format_d x)"
  by (simp add: format_d_def decimal_no_NUL)

section \<open>Lists\<close>

text \<open>What every step of a fold keeps, the fold keeps.\<close>

lemma fold_keeps:
  assumes "\<And>i s. i \<in> set is \<Longrightarrow> P s \<Longrightarrow> P (f i s)" and "P s"
  shows "P (fold f is s)"
  using assms by (induction "is" arbitrary: s) auto

lemma concat_map_filter_nth:
  "concat (map (\<lambda>i. if P (xs ! i) then [f (xs ! i)] else []) [0..<length xs]) =
   map f (filter P xs)"
proof -
  have "concat (map (\<lambda>i. if P (xs ! i) then [f (xs ! i)] else []) [0..<length xs]) =
        concat (map (\<lambda>x. if P x then [f x] else []) (map ((!) xs) [0..<length xs]))"
    by (simp add: comp_def)
  also have "\<dots> = concat (map (\<lambda>x. if P x then [f x] else []) xs)"
    by (simp add: map_nth)
  also have "\<dots> = map f (filter P xs)"
    by (induction xs) auto
  finally show ?thesis .
qed

lemma set_list_update_cases:
  assumes "x \<in> set (xs[i := c])"
  obtains "x = c" | j where "j < length xs" "j \<noteq> i" "x = xs ! j"
proof -
  from assms obtain j where j: "j < length xs" "x = xs[i := c] ! j"
    by (auto simp: in_set_conv_nth)
  show thesis
  proof (cases "j = i")
    case True
    with j have "x = c" by simp
    then show thesis by (rule that(1))
  next
    case False
    with j have "x = xs ! j" by simp
    with j(1) False show thesis by (rule that(2))
  qed
qed

end
