(* ===== verification/Wire.thy ===== *)
theory Wire
  imports C_Base
begin

text \<open>
  The chat protocol of \<^verbatim>\<open>cw11\<close>: \<^verbatim>\<open>socket_utils.h\<close> (the message struct and its enum) and
  \<^verbatim>\<open>socket_utils.c\<close> (\<open>init_message_t\<close>, \<open>serialize_message_t\<close>, \<open>deserialize_message_t\<close>,
  \<open>send_message\<close>, \<open>receive_message\<close>). The byte order of the host is a parameter of every
  operation that looks at it, so that what the wire format promises between two hosts can
  be stated.
\<close>

unbundle bit_operations_syntax

section \<open>Constants and types of \<^verbatim>\<open>socket_utils.h\<close>\<close>

definition MAX_CLIENT_NAME :: nat where "MAX_CLIENT_NAME = 64"
definition MAX_MESSAGE_TEXT :: nat where "MAX_MESSAGE_TEXT = 512"
definition MAX_MSG_NET_BUF :: nat where "MAX_MSG_NET_BUF = 1024"
definition MAX_CLIENTS :: nat where "MAX_CLIENTS = 100"

lemmas wire_sizes = MAX_CLIENT_NAME_def MAX_MESSAGE_TEXT_def MAX_MSG_NET_BUF_def MAX_CLIENTS_def

datatype message_type_t =
    CLIENT_NEW
  | CLIENT_LIST
  | CLIENT_TO_ALL
  | CLIENT_TO_ONE
  | CLIENT_STOP
  | CLIENT_ALIVE
  | SERVER_OK_REGISTER
  | SERVER_FAILURE_REGISTER
  | SERVER_CHAT_MESSAGE
  | SERVER_LIST_MESSAGE
  | SERVER_CHECK_ALIVE
  | SERVER_SHUTDOWN

text \<open>The enumerators' values, and the enumerator a \<open>uint32_t\<close> from the network is, if any.\<close>

fun type_code :: "message_type_t \<Rightarrow> nat" where
  "type_code CLIENT_NEW = 0"
| "type_code CLIENT_LIST = 1"
| "type_code CLIENT_TO_ALL = 2"
| "type_code CLIENT_TO_ONE = 3"
| "type_code CLIENT_STOP = 4"
| "type_code CLIENT_ALIVE = 5"
| "type_code SERVER_OK_REGISTER = 6"
| "type_code SERVER_FAILURE_REGISTER = 7"
| "type_code SERVER_CHAT_MESSAGE = 8"
| "type_code SERVER_LIST_MESSAGE = 9"
| "type_code SERVER_CHECK_ALIVE = 10"
| "type_code SERVER_SHUTDOWN = 11"

definition all_types :: "message_type_t list" where
  "all_types = [CLIENT_NEW, CLIENT_LIST, CLIENT_TO_ALL, CLIENT_TO_ONE, CLIENT_STOP, CLIENT_ALIVE,
     SERVER_OK_REGISTER, SERVER_FAILURE_REGISTER, SERVER_CHAT_MESSAGE, SERVER_LIST_MESSAGE,
     SERVER_CHECK_ALIVE, SERVER_SHUTDOWN]"

definition type_word :: "message_type_t \<Rightarrow> 32 word" where
  "type_word t = word_of_nat (type_code t)"

definition type_of_word :: "32 word \<Rightarrow> message_type_t option" where
  "type_of_word w = (if unat w < length all_types then Some (all_types ! unat w) else None)"

instantiation message_type_t :: linorder
begin

definition less_eq_message_type_t :: "message_type_t \<Rightarrow> message_type_t \<Rightarrow> bool" where
  "less_eq_message_type_t s t \<longleftrightarrow> type_code s \<le> type_code t"

definition less_message_type_t :: "message_type_t \<Rightarrow> message_type_t \<Rightarrow> bool" where
  "less_message_type_t s t \<longleftrightarrow> type_code s < type_code t"

instance
proof
  fix x y z :: message_type_t
  show "x < y \<longleftrightarrow> x \<le> y \<and> \<not> y \<le> x"
    by (auto simp: less_eq_message_type_t_def less_message_type_t_def)
  show "x \<le> x" by (simp add: less_eq_message_type_t_def)
  show "x \<le> y \<Longrightarrow> y \<le> z \<Longrightarrow> x \<le> z" by (simp add: less_eq_message_type_t_def)
  show "x \<le> y \<or> y \<le> x" by (auto simp: less_eq_message_type_t_def)
  show "x \<le> y \<Longrightarrow> y \<le> x \<Longrightarrow> x = y"
    by (cases x; cases y) (simp_all add: less_eq_message_type_t_def)
qed

end

lemma type_code_less: "type_code t < 12"
  by (cases t) simp_all

lemma type_of_word_word [simp]: "type_of_word (type_word t) = Some t"
  by (cases t) (simp_all add: type_of_word_def type_word_def all_types_def)

lemma type_word_inj [simp]: "type_word s = type_word t \<longleftrightarrow> s = t"
  by (metis type_of_word_word option.inject)

record message_t =
  m_sender :: "char list"
  m_type :: "32 word"
  m_text :: "char list"
  m_time :: "64 word"

text \<open>The struct's arrays have the length the struct declares.\<close>

definition wf_message :: "message_t \<Rightarrow> bool" where
  "wf_message m \<longleftrightarrow> length (m_sender m) = MAX_CLIENT_NAME \<and> length (m_text m) = MAX_MESSAGE_TEXT"

section \<open>The host\<close>

datatype endian = Little | Big

text \<open>
  What the code takes from the machine it runs on: its byte order, the result of
  \<open>time(NULL)\<close>, the bytes that lie in memory after a string literal of the program
  (\<open>rodata\<close>), those that lie after the \<open>message\<close> array of a received message (\<open>past_text\<close>),
  the previous contents of the 1024-byte stack buffer (\<open>stack\<close>), and the result of \<open>send\<close>
  on a socket: \<open>None\<close> for \<open>-1\<close>, otherwise the number of bytes the kernel took.
\<close>

record host =
  byte_order :: endian
  now :: "64 word"
  rodata :: "char list \<Rightarrow> char list"
  past_text :: "char list"
  stack :: "char list"
  sent_bytes :: "int \<Rightarrow> nat option"

definition wf_host :: "host \<Rightarrow> bool" where
  "wf_host h \<longleftrightarrow> length (stack h) = MAX_MSG_NET_BUF"

text \<open>\<open>send\<close> on the socket takes the whole record.\<close>

definition send_ok :: "host \<Rightarrow> int \<Rightarrow> bool" where
  "send_ok h s \<longleftrightarrow> sent_bytes h s = Some MAX_MSG_NET_BUF"

text \<open>The memory a pointer to the string literal \<open>s\<close> can read.\<close>

definition lit :: "host \<Rightarrow> char list \<Rightarrow> char list" where
  "lit h s = c_lit s @ rodata h s"

text \<open>
  Every literal is followed by enough readable bytes for the \<open>memcpy\<close> of
  \<open>init_message_t\<close>: not something C promises, but what the program relies on.
\<close>

definition roomy :: "host \<Rightarrow> bool" where
  "roomy h \<longleftrightarrow> (\<forall>s. MAX_MESSAGE_TEXT \<le> length (rodata h s))"

section \<open>Integers in memory\<close>

fun le_bytes :: "nat \<Rightarrow> nat \<Rightarrow> char list" where
  "le_bytes 0 n = []"
| "le_bytes (Suc k) n = char_of n # le_bytes k (n div 256)"

fun le_value :: "char list \<Rightarrow> nat" where
  "le_value [] = 0"
| "le_value (c # cs) = of_char c + 256 * le_value cs"

definition host_bytes :: "endian \<Rightarrow> nat \<Rightarrow> nat \<Rightarrow> char list" where
  "host_bytes e k n = (case e of Little \<Rightarrow> le_bytes k n | Big \<Rightarrow> rev (le_bytes k n))"

definition host_value :: "endian \<Rightarrow> char list \<Rightarrow> nat" where
  "host_value e bs = (case e of Little \<Rightarrow> le_value bs | Big \<Rightarrow> le_value (rev bs))"

text \<open>
  \<open>htonl\<close>: the \<open>uint32_t\<close> whose bytes in this host's memory are the big-endian bytes of
  the argument; \<open>ntohl\<close> is its inverse (and the same function).
\<close>

definition htonl :: "endian \<Rightarrow> 32 word \<Rightarrow> 32 word" where
  "htonl e w = word_of_nat (host_value e (rev (le_bytes 4 (unat w))))"

definition ntohl :: "endian \<Rightarrow> 32 word \<Rightarrow> 32 word" where
  "ntohl e w = word_of_nat (le_value (rev (host_bytes e 4 (unat w))))"

lemma length_le_bytes [simp]: "length (le_bytes k n) = k"
  by (induction k arbitrary: n) auto

lemma length_host_bytes [simp]: "length (host_bytes e k n) = k"
  by (cases e) (simp_all add: host_bytes_def)

lemma le_value_bytes: "le_value (le_bytes k n) = n mod 256 ^ k"
  by (induction k arbitrary: n) (simp_all add: mod_mult2_eq of_char_of)

lemma digit_less: "(d::nat) < b \<Longrightarrow> v < p \<Longrightarrow> d + b * v < b * p"
proof -
  assume "d < b" "v < p"
  then have "d + b * v < b * (v + 1)" by simp
  also have "\<dots> \<le> b * p" using \<open>v < p\<close> by (intro mult_le_mono2) simp
  finally show ?thesis .
qed

lemma le_value_less: "le_value bs < 256 ^ length bs"
  by (induction bs) (simp_all add: digit_less)

lemma le_bytes_value: "length bs = k \<Longrightarrow> le_bytes k (le_value bs) = bs"
proof (induction bs arbitrary: k)
  case (Cons c cs)
  have "char_of (of_char c + 256 * le_value cs) = c"
    by (rule of_char_eqI [where 'a = nat]) simp
  with Cons show ?case by auto
qed simp

lemma host_value_bytes: "host_value e (host_bytes e k n) = n mod 256 ^ k"
  by (cases e) (simp_all add: host_bytes_def host_value_def le_value_bytes)

lemma host_bytes_value: "length bs = k \<Longrightarrow> host_bytes e k (host_value e bs) = bs"
  by (cases e) (simp_all add: host_bytes_def host_value_def le_bytes_value)

lemma host_value_less: "host_value e bs < 256 ^ length bs"
  using le_value_less [of bs] le_value_less [of "rev bs"]
  by (cases e) (simp_all add: host_value_def)

lemma htonl_bytes: "host_bytes e 4 (unat (htonl e w)) = rev (le_bytes 4 (unat w))"
proof -
  have "host_value e (rev (le_bytes 4 (unat w))) < 2 ^ LENGTH(32)"
    using host_value_less [of e "rev (le_bytes 4 (unat w))"] by simp
  then have "unat (htonl e w) = host_value e (rev (le_bytes 4 (unat w)))"
    by (simp add: htonl_def unsigned_of_nat take_bit_nat_eq_self)
  then show ?thesis by (simp add: host_bytes_value)
qed

lemma unat_32_mod [simp]: "unat (w :: 32 word) mod 4294967296 = unat w"
proof -
  have "unat w < 2 ^ LENGTH(32)" by (rule unsigned_less)
  then show ?thesis by simp
qed

lemma ntohl_htonl [simp]: "ntohl e (htonl e w) = w"
  by (simp add: ntohl_def htonl_bytes le_value_bytes)

lemma ntohl_value: "length bs = 4 \<Longrightarrow> ntohl e (word_of_nat (host_value e bs)) = word_of_nat (le_value (rev bs))"
proof -
  assume len: "length bs = 4"
  then have "host_value e bs < 2 ^ LENGTH(32)"
    using host_value_less [of e bs] by simp
  then have "unat (word_of_nat (host_value e bs) :: 32 word) = host_value e bs"
    by (simp add: unsigned_of_nat take_bit_nat_eq_self)
  with len show ?thesis by (simp add: ntohl_def host_bytes_value)
qed

section \<open>Operations of \<^verbatim>\<open>socket_utils.c\<close>\<close>

text \<open>\<open>memcpy(buffer + off, bs, length bs)\<close> into an array.\<close>

definition write_at :: "char list \<Rightarrow> nat \<Rightarrow> char list \<Rightarrow> char list cres" where
  "write_at buf off bs =
     (if off + length bs \<le> length buf
      then Inr (take off buf @ bs @ drop (off + length bs) buf) else Inl Oob_Write)"

text \<open>\<open>memcpy(dst, buffer + off, n)\<close> out of an array.\<close>

definition read_at :: "char list \<Rightarrow> nat \<Rightarrow> nat \<Rightarrow> char list cres" where
  "read_at buf off n = (if off + n \<le> length buf then Inr (take n (drop off buf)) else Inl Oob_Read)"

definition init_message_t :: "host \<Rightarrow> char list \<Rightarrow> message_type_t \<Rightarrow> char list \<Rightarrow> message_t cres" where
  "init_message_t h sender type message_text =
     cbind (memcpy_bytes sender MAX_CLIENT_NAME) (\<lambda>s.
     cbind (memcpy_bytes message_text MAX_MESSAGE_TEXT) (\<lambda>t.
       Inr \<lparr>m_sender = s, m_type = type_word type, m_text = t, m_time = now h\<rparr>))"

definition serialize_message_t :: "endian \<Rightarrow> message_t \<Rightarrow> char list \<Rightarrow> char list cres" where
  "serialize_message_t e input buffer =
     cbind (memcpy_bytes (m_sender input) MAX_CLIENT_NAME) (\<lambda>s.
     cbind (write_at buffer 0 s) (\<lambda>buffer.
     let net_type = htonl e (m_type input) in
     cbind (write_at buffer MAX_CLIENT_NAME (host_bytes e 4 (unat net_type))) (\<lambda>buffer.
     cbind (memcpy_bytes (m_text input) MAX_MESSAGE_TEXT) (\<lambda>t.
     cbind (write_at buffer (MAX_CLIENT_NAME + 4) t) (\<lambda>buffer.
     let net_timestamp = (ucast (htonl e (ucast (m_time input))) :: 64 word) in
     write_at buffer (MAX_CLIENT_NAME + 4 + MAX_MESSAGE_TEXT)
       (host_bytes e 8 (unat net_timestamp)))))))"

definition deserialize_message_t :: "endian \<Rightarrow> char list \<Rightarrow> message_t cres" where
  "deserialize_message_t e buffer =
     cbind (read_at buffer 0 MAX_CLIENT_NAME) (\<lambda>s.
     cbind (read_at buffer MAX_CLIENT_NAME 4) (\<lambda>net_type.
     cbind (read_at buffer (MAX_CLIENT_NAME + 4) MAX_MESSAGE_TEXT) (\<lambda>t.
     cbind (read_at buffer (MAX_CLIENT_NAME + 4 + MAX_MESSAGE_TEXT) 8) (\<lambda>net_timestamp.
       Inr \<lparr>m_sender = s,
            m_type = ntohl e (word_of_nat (host_value e net_type)),
            m_text = t,
            m_time = ucast (ntohl e (ucast (word_of_nat (host_value e net_timestamp) :: 64 word)))\<rparr>))))"

text \<open>
  A \<open>send\<close> or \<open>close\<close> as the kernel sees it: \<open>Sent\<close> has the bytes the kernel took, which may be
  fewer than it was given. \<open>send_message\<close> returns the status and the event: any result but
  \<open>-1\<close> counts as success. \<open>recv\<close> returns \<open>None\<close> for \<open>-1\<close> and otherwise the bytes it stored,
  which may be fewer than 1024 or none at all: \<open>receive_message\<close> deserializes the buffer
  regardless.
\<close>

datatype event =
    Sent int "char list"
  | Send_Failed int
  | Closed int
  | Shutdown int

definition send_message :: "host \<Rightarrow> int \<Rightarrow> message_t \<Rightarrow> (int \<times> event) cres" where
  "send_message h socket m =
     cbind (serialize_message_t (byte_order h) m (stack h)) (\<lambda>buffer.
       case sent_bytes h socket of
         None \<Rightarrow> Inr (-1, Send_Failed socket)
       | Some n \<Rightarrow> Inr (0, Sent socket (take n buffer)))"

definition receive_message :: "host \<Rightarrow> char list option \<Rightarrow> (int \<times> message_t option) cres" where
  "receive_message h received =
     (case received of
        None \<Rightarrow> Inr (-1, None)
      | Some bs \<Rightarrow>
          cbind (deserialize_message_t (byte_order h)
                   (take MAX_MSG_NET_BUF bs @ drop (length bs) (stack h))) (\<lambda>m. Inr (0, Some m)))"

section \<open>Correctness of the codec\<close>

text \<open>The 588 bytes of the wire format, written down once as a value.\<close>

definition wire_bytes :: "endian \<Rightarrow> message_t \<Rightarrow> char list" where
  "wire_bytes e m = m_sender m @ rev (le_bytes 4 (unat (m_type m))) @ m_text m @
     host_bytes e 8 (unat (ucast (htonl e (ucast (m_time m))) :: 64 word))"

text \<open>What a receiver sees of a message: the same, with the timestamp cut to 32 bits.\<close>

definition received_as :: "message_t \<Rightarrow> message_t" where
  "received_as m = m\<lparr>m_time := ucast (ucast (m_time m) :: 32 word)\<rparr>"

definition WIRE_SIZE :: nat where
  "WIRE_SIZE = MAX_CLIENT_NAME + 4 + MAX_MESSAGE_TEXT + 8"

lemma length_wire_bytes [simp]: "wf_message m \<Longrightarrow> length (wire_bytes e m) = WIRE_SIZE"
  by (simp add: wire_bytes_def wf_message_def WIRE_SIZE_def)

lemma wf_received_as [simp]: "wf_message (received_as m) = wf_message m"
  by (simp add: wf_message_def received_as_def)

lemma received_as_fields [simp]:
  "m_sender (received_as m) = m_sender m" "m_type (received_as m) = m_type m"
  "m_text (received_as m) = m_text m"
  by (simp_all add: received_as_def)

lemma write_at_append:
  "length pre = off \<Longrightarrow> length bs \<le> length rest \<Longrightarrow>
   write_at (pre @ rest) off bs = Inr ((pre @ bs) @ drop (length bs) rest)"
  by (simp add: write_at_def)

lemma memcpy_bytes_all: "length s = n \<Longrightarrow> memcpy_bytes s n = Inr s"
  by (simp add: memcpy_bytes_def)

lemma memcpy_bytes_Inr: "n \<le> length s \<Longrightarrow> memcpy_bytes s n = Inr (take n s)"
  by (simp add: memcpy_bytes_def)

lemma read_at_middle:
  "length pre = off \<Longrightarrow> length bs = n \<Longrightarrow> read_at (pre @ bs @ post) off n = Inr bs"
  by (simp add: read_at_def)

lemma serialize_wire:
  assumes "wf_message m" and "WIRE_SIZE \<le> length buf"
  shows "serialize_message_t e m buf = Inr (wire_bytes e m @ drop WIRE_SIZE buf)"
proof -
  let ?t = "host_bytes e 8 (unat (ucast (htonl e (ucast (m_time m))) :: 64 word))"
  note wf = assms(1) [unfolded wf_message_def]
  have buf: "write_at buf 0 (m_sender m) = Inr (m_sender m @ drop MAX_CLIENT_NAME buf)"
    using wf assms(2) by (simp add: write_at_def WIRE_SIZE_def)
  show ?thesis
    using wf assms(2)
    by (simp add: serialize_message_t_def Let_def memcpy_bytes_all buf write_at_append
          WIRE_SIZE_def wire_bytes_def htonl_bytes ac_simps
          write_at_append [of "m_sender m @ bs" for bs, simplified]
          write_at_append [of "m_sender m @ bs @ cs" for bs cs, simplified])
qed

lemma deserialize_wire:
  assumes "wf_message m"
  shows "deserialize_message_t e' (wire_bytes e m @ rest) =
    Inr (m\<lparr>m_time := ucast (ntohl e' (ucast (word_of_nat (host_value e'
            (host_bytes e 8 (unat (ucast (htonl e (ucast (m_time m))) :: 64 word)))) :: 64 word)))\<rparr>)"
proof -
  note wf = assms [unfolded wf_message_def]
  let ?ty = "rev (le_bytes 4 (unat (m_type m)))"
  let ?ti = "host_bytes e 8 (unat (ucast (htonl e (ucast (m_time m))) :: 64 word))"
  let ?b = "wire_bytes e m @ rest"
  have "read_at ?b 0 MAX_CLIENT_NAME = Inr (m_sender m)"
    using wf by (simp add: wire_bytes_def read_at_middle [of "[]", simplified])
  moreover have "read_at ?b MAX_CLIENT_NAME 4 = Inr ?ty"
    using wf by (simp add: wire_bytes_def read_at_middle)
  moreover have "read_at ?b (MAX_CLIENT_NAME + 4) MAX_MESSAGE_TEXT = Inr (m_text m)"
    using wf read_at_middle [of "m_sender m @ ?ty" _ "m_text m" _ "?ti @ rest"]
    by (simp add: wire_bytes_def)
  moreover have "read_at ?b (MAX_CLIENT_NAME + 4 + MAX_MESSAGE_TEXT) 8 = Inr ?ti"
    using wf read_at_middle [of "m_sender m @ ?ty @ m_text m" _ ?ti _ rest]
    by (simp add: wire_bytes_def)
  moreover have "ntohl e' (word_of_nat (host_value e' ?ty)) = m_type m"
    by (simp add: ntohl_value le_value_bytes)
  ultimately show ?thesis
    by (simp add: deserialize_message_t_def)
qed

text \<open>On one byte order the 64-bit copy of the 32-bit timestamp survives.\<close>

lemma host_value_time:
  "host_value e (host_bytes e 8 (unat (w :: 64 word))) = unat w"
proof -
  have "unat w < 2 ^ LENGTH(64)" by (rule unsigned_less)
  then show ?thesis by (simp add: host_value_bytes)
qed

lemma ucast_ucast_32_64 [simp]: "(ucast (ucast (w :: 32 word) :: 64 word) :: 32 word) = w"
  by (rule bit_word_eqI) (auto simp: bit_simps)

lemma deserialize_same_order:
  "wf_message m \<Longrightarrow> deserialize_message_t e (wire_bytes e m @ rest) = Inr (received_as m)"
  by (simp add: deserialize_wire host_value_time received_as_def)

text \<open>
  Between hosts of different byte order the four bytes of the timestamp land in the half of
  the \<open>time_t\<close> that \<open>ntohl\<close> drops.
\<close>

lemma le_bytes_add: "le_bytes (j + k) n = le_bytes j n @ le_bytes k (n div 256 ^ j)"
  by (induction j arbitrary: n) (simp_all add: div_mult2_eq)

lemma le_value_append: "le_value (xs @ ys) = le_value xs + 256 ^ length xs * le_value ys"
  by (induction xs) (simp_all add: algebra_simps)

lemma le_value_zeros: "le_value (rev (le_bytes k 0)) = 0"
  by (induction k) (simp_all add: le_value_append char_of_def)

lemma host_value_other_order:
  assumes "e \<noteq> e'" and "n < 2 ^ 32"
  shows "host_value e' (host_bytes e 8 n) = 2 ^ 32 * le_value (rev (le_bytes 4 n))"
proof -
  have "host_value e' (host_bytes e 8 n) = le_value (rev (le_bytes 8 n))"
    using assms(1) by (cases e; cases e') (simp_all add: host_value_def host_bytes_def)
  also have "le_bytes 8 n = le_bytes 4 n @ le_bytes 4 0"
    using le_bytes_add [of 4 4 n] assms(2) by simp
  finally show ?thesis by (simp add: le_value_append le_value_zeros)
qed

lemma ucast_word_of_nat_64_32: "(ucast (word_of_nat n :: 64 word) :: 32 word) = word_of_nat n"
  by (rule bit_word_eqI) (auto simp: bit_simps)

lemma time_lost_between_orders:
  assumes "e \<noteq> e'"
  shows "ucast (word_of_nat (host_value e' (host_bytes e 8 (unat (ucast (w :: 32 word) :: 64 word))))
           :: 64 word) = (0 :: 32 word)"
proof -
  have bound: "unat w < 2 ^ LENGTH(32)" by (rule unsigned_less)
  then have "unat (ucast w :: 64 word) = unat w"
    by (simp add: unsigned_ucast_eq take_bit_nat_eq_self)
  moreover have "host_value e' (host_bytes e 8 (unat w)) = 2 ^ 32 * le_value (rev (le_bytes 4 (unat w)))"
    using host_value_other_order [OF assms] bound by simp
  moreover have "(word_of_nat (2 ^ 32 * v) :: 32 word) = 0" for v
    by (subst word_of_nat_eq_0_iff) simp
  ultimately show ?thesis
    by (simp only: ucast_word_of_nat_64_32)
qed


section \<open>Framing a stream of messages\<close>

text \<open>
  Each \<open>send_message\<close> puts one record of 1024 bytes on the connection and each
  \<open>receive_message\<close> asks for 1024. The interface the two sides share: an encoder whose
  records all have one length and a decoder that recovers what the receiver should see.
\<close>

locale framed_codec =
  fixes enc :: "'m \<Rightarrow> 'b list"
    and dec :: "'b list \<Rightarrow> 'm option"
    and wf :: "'m \<Rightarrow> bool"
    and view :: "'m \<Rightarrow> 'm"
    and frame :: nat
  assumes enc_length: "wf m \<Longrightarrow> length (enc m) = frame"
    and dec_enc: "wf m \<Longrightarrow> dec (enc m) = Some (view m)"
begin

lemma first_frame:
  "wf m \<Longrightarrow> take frame (enc m @ rest) = enc m" "wf m \<Longrightarrow> drop frame (enc m @ rest) = rest"
  by (simp_all add: enc_length)

lemma frames_determine_views:
  assumes "wf m" "wf n" and "enc m @ rest = enc n @ rest'"
  shows "view m = view n \<and> rest = rest'"
  using assms first_frame [of m rest] first_frame [of n rest'] dec_enc [of m] dec_enc [of n] by auto

end

text \<open>
  The record \<open>send_message\<close> hands to \<open>send\<close>, and what \<open>receive_message\<close> makes of one
  record, on hosts of the same byte order.
\<close>

definition sent_record :: "host \<Rightarrow> message_t \<Rightarrow> char list" where
  "sent_record h m = (case serialize_message_t (byte_order h) m (stack h) of Inr b \<Rightarrow> b | Inl _ \<Rightarrow> [])"

definition received_message :: "host \<Rightarrow> char list \<Rightarrow> message_t option" where
  "received_message h bs = (case receive_message h (Some bs) of Inr (_, r) \<Rightarrow> r | Inl _ \<Rightarrow> None)"

lemma WIRE_SIZE_le [simp]: "WIRE_SIZE \<le> 1024"
  by (simp add: WIRE_SIZE_def wire_sizes)

lemma sent_record_wire:
  "wf_message m \<Longrightarrow> wf_host h \<Longrightarrow>
   sent_record h m = wire_bytes (byte_order h) m @ drop WIRE_SIZE (stack h)"
  by (simp add: sent_record_def wf_host_def serialize_wire wire_sizes)

lemma length_sent_record [simp]:
  "wf_message m \<Longrightarrow> wf_host h \<Longrightarrow> length (sent_record h m) = MAX_MSG_NET_BUF"
  by (simp add: sent_record_wire) (simp add: wf_host_def wire_sizes)

lemma send_message_wf:
  "wf_message m \<Longrightarrow> wf_host h \<Longrightarrow>
   send_message h s m =
     Inr (case sent_bytes h s of None \<Rightarrow> (-1, Send_Failed s) | Some n \<Rightarrow> (0, Sent s (take n (sent_record h m))))"
  by (simp add: send_message_def serialize_wire wf_host_def wire_sizes sent_record_wire split: option.split)

lemma send_message_whole_record:
  "wf_message m \<Longrightarrow> wf_host h \<Longrightarrow> send_ok h s \<Longrightarrow> send_message h s m = Inr (0, Sent s (sent_record h m))"
  by (simp add: send_message_wf send_ok_def)

lemma receive_sent:
  assumes "wf_message m" "wf_host h" "wf_host h'" "byte_order h' = byte_order h"
  shows "receive_message h' (Some (sent_record h m)) = Inr (0, Some (received_as m))"
proof -
  have "length (sent_record h m) = MAX_MSG_NET_BUF" using assms by simp
  then have "take MAX_MSG_NET_BUF (sent_record h m) @ drop (length (sent_record h m)) (stack h') =
             sent_record h m"
    using assms(3) by (simp add: wf_host_def)
  then show ?thesis
    using assms by (simp add: receive_message_def sent_record_wire deserialize_same_order)
qed

text \<open>The interface holds for the code's own operations, on any well-formed host.\<close>

definition sample_host :: "endian \<Rightarrow> host" where
  "sample_host e = \<lparr>byte_order = e, now = 1000, rodata = (\<lambda>_. replicate 512 CHR ''.''),
     past_text = replicate 512 CHR ''#'', stack = replicate 1024 CHR ''*'', sent_bytes = (\<lambda>_. Some 1024)\<rparr>"

lemma send_ok_sample_host [simp]: "send_ok (sample_host e) s"
  by (simp add: send_ok_def sample_host_def wire_sizes)

lemma wf_sample_host [simp]: "wf_host (sample_host e)"
  by (simp add: wf_host_def sample_host_def wire_sizes)

interpretation wire: framed_codec "sent_record h" "received_message h"
  "\<lambda>m. wf_host h \<and> wf_message m" received_as MAX_MSG_NET_BUF for h
  by unfold_locales (auto simp: received_message_def receive_sent)

section \<open>Receiving a stream\<close>

text \<open>A call that gets \<open>n\<close> bytes decodes them with the old bytes of its buffer behind them.\<close>

definition stale_record :: "host \<Rightarrow> char list \<Rightarrow> char list" where
  "stale_record h bs = bs @ drop (length bs) (stack h)"

lemma length_stale_record [simp]:
  "wf_host h \<Longrightarrow> length bs \<le> MAX_MSG_NET_BUF \<Longrightarrow> length (stale_record h bs) = MAX_MSG_NET_BUF"
  by (simp add: stale_record_def wf_host_def)




section \<open>Properties\<close>

text \<open>
  C5: a serialized message, read back on a host of the same byte order, has the same sender,
  type and text, and its timestamp modulo 2^32; and the text after the message in the
  buffer is left alone.
\<close>

theorem serialize_deserialize:
  assumes "wf_message m" and "WIRE_SIZE \<le> length buf"
  shows "cbind (serialize_message_t e m buf) (deserialize_message_t e) = Inr (received_as m) \<and>
         (\<exists>w. serialize_message_t e m buf = Inr (w @ drop WIRE_SIZE buf))"
  using assms by (auto simp: serialize_wire deserialize_same_order)

definition sample_message :: message_t where
  "sample_message = \<lparr>m_sender = ''ann'' @ replicate 61 NUL, m_type = type_word CLIENT_TO_ALL,
     m_text = ''hello'' @ replicate 507 NUL, m_time = 5000000000\<rparr>"

lemma wf_sample_message [simp]: "wf_message sample_message"
  by (simp add: wf_message_def sample_message_def wire_sizes)

theorem serialize_deserialize_witness:
  "cbind (serialize_message_t Little sample_message (replicate 1024 NUL))
     (deserialize_message_t Little) = Inr (received_as sample_message) \<and>
   m_time (received_as sample_message) = 705032704"
proof
  show "cbind (serialize_message_t Little sample_message (replicate 1024 NUL))
     (deserialize_message_t Little) = Inr (received_as sample_message)"
    using serialize_deserialize [of sample_message "replicate 1024 NUL" Little] by simp
  show "m_time (received_as sample_message) = 705032704"
    by (simp add: received_as_def sample_message_def)
qed

text \<open>
  Between hosts of different byte order, sender, type and text still arrive intact (the
  type is sent in network order), but the timestamp always arrives as zero.
\<close>

theorem cross_endian_timestamp_lost:
  assumes "e \<noteq> e'" and "wf_message m" and "WIRE_SIZE \<le> length buf"
  shows "cbind (serialize_message_t e m buf) (deserialize_message_t e') = Inr (m\<lparr>m_time := 0\<rparr>)"
proof -
  have "ntohl e' 0 = 0"
    by (cases e') (simp_all add: ntohl_def host_bytes_def le_value_zeros le_value_bytes)
  with assms show ?thesis
    by (simp add: serialize_wire deserialize_wire time_lost_between_orders)
qed

theorem cross_endian_timestamp_lost_witness:
  "cbind (serialize_message_t Little sample_message (replicate 1024 NUL))
     (deserialize_message_t Big) = Inr (sample_message\<lparr>m_time := 0\<rparr>)"
  using cross_endian_timestamp_lost [of Little Big sample_message "replicate 1024 NUL"] by simp



text \<open>
  \<open>init_message_t\<close> copies 64 and 512 bytes whatever its arguments are: given the
  program's own literals and nothing readable behind them, every one of its calls reads
  out of range.
\<close>

theorem init_message_overreads_literals:
  "init_message_t h (c_lit ''SERVER'') ty t = Inl Oob_Read \<and>
   init_message_t h s ty (c_lit '''') = Inl Oob_Read"
  by (auto simp: init_message_t_def memcpy_bytes_def c_lit_def wire_sizes)

text \<open>
  Where the memory behind both arguments is readable, the message built by
  \<open>init_message_t\<close> is well formed, and the strings it denotes are the arguments, whatever
  bytes lie behind them.
\<close>

theorem init_message_strings:
  assumes "NUL \<notin> set s" "NUL \<notin> set t" "length s < MAX_CLIENT_NAME" "length t < MAX_MESSAGE_TEXT"
    and "MAX_CLIENT_NAME \<le> length j" "MAX_MESSAGE_TEXT \<le> length k"
  shows "\<exists>m. init_message_t h (c_lit s @ j) ty (c_lit t @ k) = Inr m \<and> wf_message m \<and>
     cstr (m_sender m) = s \<and> cstr (m_text m) = t \<and> m_type m = type_word ty \<and> m_time m = now h"
proof -
  have 1: "memcpy_bytes (c_lit s @ j) MAX_CLIENT_NAME = Inr (s @ NUL # take (MAX_CLIENT_NAME - Suc (length s)) j)"
    using assms(3,5) by (simp add: memcpy_bytes_def c_lit_def take_Cons')
  have 2: "memcpy_bytes (c_lit t @ k) MAX_MESSAGE_TEXT = Inr (t @ NUL # take (MAX_MESSAGE_TEXT - Suc (length t)) k)"
    using assms(4,6) by (simp add: memcpy_bytes_def c_lit_def take_Cons')
  show ?thesis
    using assms by (simp add: init_message_t_def 1 2 wf_message_def cstr_append)
qed

theorem init_message_strings_witness:
  "\<exists>m. init_message_t (sample_host Little) (c_lit ''SERVER'' @ replicate 64 CHR ''x'') SERVER_CHECK_ALIVE
        (c_lit '''' @ replicate 512 CHR ''y'') = Inr m \<and> wf_message m \<and>
     cstr (m_sender m) = ''SERVER'' \<and> cstr (m_text m) = '''' \<and>
     m_type m = type_word SERVER_CHECK_ALIVE \<and> m_time m = now (sample_host Little)"
  using init_message_strings [of "''SERVER''" "''''" "replicate 64 CHR ''x''" "replicate 512 CHR ''y''"]
  by (simp add: wire_sizes)

end
