(* ===== verification/Chat_Table.thy ===== *)
theory Chat_Table
  imports Wire
begin

text \<open>
  The table of clients of \<^verbatim>\<open>cw11/server.c\<close>: the array \<open>clients\<close> and the loops that search
  and change it, without the mutex (which \<^verbatim>\<open>Chat_Server\<close> adds around them). The table is
  shown to implement a finite map from names to sockets, stated as a locale.
\<close>

section \<open>The array\<close>

record client_t =
  c_name :: "char list"
  c_socket :: int
  c_valid :: bool
  c_awaiting :: bool

text \<open>The initial value of a static \<open>client_t\<close>, and one iteration of \<open>init_clients\<close>.\<close>

definition zero_client :: client_t where
  "zero_client = \<lparr>c_name = replicate MAX_CLIENT_NAME NUL, c_socket = 0, c_valid = False, c_awaiting = False\<rparr>"

definition init_client :: "client_t \<Rightarrow> client_t" where
  "init_client c = c\<lparr>c_valid := False, c_name := (c_name c)[0 := NUL], c_socket := -1, c_awaiting := False\<rparr>"

text \<open>
  The loop \<open>if (clients[i].valid && strncmp(clients[i].name, name, MAX_CLIENT_NAME) == 0)\<close>:
  the index at which it stops, if it does. \<open>name\<close> is a pointer: \<open>None\<close> is NULL.
\<close>

fun find_name :: "client_t list \<Rightarrow> char list option \<Rightarrow> nat option cres" where
  "find_name [] name = Inr None"
| "find_name (c # cs) name =
     (if c_valid c then
        case name of
          None \<Rightarrow> Inl Null_Deref
        | Some nm \<Rightarrow> cbind (strncmp_eq (c_name c) nm MAX_CLIENT_NAME) (\<lambda>eq.
            if eq then Inr (Some 0) else cbind (find_name cs name) (\<lambda>r. Inr (map_option Suc r)))
      else cbind (find_name cs name) (\<lambda>r. Inr (map_option Suc r)))"

text \<open>The loop \<open>if (!clients[i].valid) { ...; break; }\<close>.\<close>

fun find_free :: "client_t list \<Rightarrow> nat option" where
  "find_free [] = None"
| "find_free (c # cs) = (if \<not> c_valid c then Some 0 else map_option Suc (find_free cs))"

text \<open>The body of that loop in \<open>add_client\<close>, and of the one in \<open>handle_client_delete\<close>.\<close>

definition table_insert :: "client_t list \<Rightarrow> char list \<Rightarrow> int \<Rightarrow> client_t list cres" where
  "table_insert cs name socket =
     (case find_free cs of
        None \<Rightarrow> Inr cs
      | Some i \<Rightarrow> cbind (memcpy_bytes name MAX_CLIENT_NAME) (\<lambda>nm.
          Inr (cs[i := (cs ! i)\<lparr>c_valid := True, c_socket := socket, c_name := nm\<rparr>])))"

definition table_delete :: "client_t list \<Rightarrow> char list \<Rightarrow> (int \<times> client_t list) cres" where
  "table_delete cs name =
     cbind (find_name cs (Some name)) (\<lambda>r.
       case r of
         None \<Rightarrow> Inr (-1, cs)
       | Some i \<Rightarrow> Inr (c_socket (cs ! i),
           cs[i := (cs ! i)\<lparr>c_valid := False, c_name := (c_name (cs ! i))[0 := NUL], c_socket := -1\<rparr>]))"

section \<open>Well-formed tables\<close>

text \<open>The string \<open>strncmp\<close> sees in a name.\<close>

definition name_key :: "char list \<Rightarrow> char list" where
  "name_key nm = take MAX_CLIENT_NAME (cstr nm)"

definition wf_client :: "client_t \<Rightarrow> bool" where
  "wf_client c \<longleftrightarrow> length (c_name c) = MAX_CLIENT_NAME"

definition unique_names :: "client_t list \<Rightarrow> bool" where
  "unique_names cs \<longleftrightarrow> (\<forall>i<length cs. \<forall>j<length cs.
     c_valid (cs ! i) \<and> c_valid (cs ! j) \<and> name_key (c_name (cs ! i)) = name_key (c_name (cs ! j)) \<longrightarrow> i = j)"

definition wf_table :: "client_t list \<Rightarrow> bool" where
  "wf_table cs \<longleftrightarrow> length cs = MAX_CLIENTS \<and> (\<forall>c\<in>set cs. wf_client c) \<and> unique_names cs"

abbreviation ok_name :: "char list \<Rightarrow> bool" where
  "ok_name nm \<equiv> readable MAX_CLIENT_NAME nm"

definition has_name :: "char list \<Rightarrow> client_t \<Rightarrow> bool" where
  "has_name nm c \<longleftrightarrow> c_valid c \<and> name_key (c_name c) = name_key nm"

lemma strncmp_names:
  "wf_client c \<Longrightarrow> ok_name nm \<Longrightarrow>
   strncmp_eq (c_name c) nm MAX_CLIENT_NAME = Inr (name_key (c_name c) = name_key nm)"
  by (simp add: strncmp_eq_readable readable_length wf_client_def name_key_def)

text \<open>The first index that satisfies a predicate: what each of the search loops computes.\<close>

fun first_index :: "('a \<Rightarrow> bool) \<Rightarrow> 'a list \<Rightarrow> nat option" where
  "first_index P [] = None"
| "first_index P (x # xs) = (if P x then Some 0 else map_option Suc (first_index P xs))"

lemma first_index_None: "first_index P xs = None \<longleftrightarrow> (\<forall>x\<in>set xs. \<not> P x)"
  by (induction xs) auto

lemma first_index_Some:
  "first_index P xs = Some i \<longleftrightarrow> i < length xs \<and> P (xs ! i) \<and> (\<forall>j<i. \<not> P (xs ! j))"
proof (induction xs arbitrary: i)
  case (Cons x xs)
  show ?case by (cases i) (auto simp: Cons.IH less_Suc_eq_0_disj)
qed simp

lemma first_index_SomeD:
  assumes "first_index P xs = Some i"
  shows "i < length xs" "P (xs ! i)"
  using assms by (simp_all add: first_index_Some)

lemma find_name_first_index:
  "\<forall>c\<in>set cs. wf_client c \<Longrightarrow> ok_name nm \<Longrightarrow> find_name cs (Some nm) = Inr (first_index (has_name nm) cs)"
  by (induction cs) (auto simp: has_name_def strncmp_names)

lemma find_free_first_index: "find_free cs = first_index (\<lambda>c. \<not> c_valid c) cs"
  by (induction cs) auto

lemma unique_names_has_name:
  "unique_names cs \<Longrightarrow> i < length cs \<Longrightarrow> j < length cs \<Longrightarrow>
   has_name nm (cs ! i) \<Longrightarrow> has_name nm (cs ! j) \<Longrightarrow> i = j"
  unfolding unique_names_def has_name_def by metis

lemma first_has_name:
  assumes "unique_names cs" "i < length cs" "has_name nm (cs ! i)"
  shows "first_index (has_name nm) cs = Some i"
proof -
  have "\<not> has_name nm (cs ! j)" if "j < i" for j
  proof
    assume "has_name nm (cs ! j)"
    moreover have "j < length cs" using that assms(2) by simp
    ultimately have "j = i" using assms by (blast intro: unique_names_has_name)
    with that show False by simp
  qed
  with assms show ?thesis by (simp add: first_index_Some)
qed

lemma wf_table_find:
  "wf_table cs \<Longrightarrow> ok_name nm \<Longrightarrow> find_name cs (Some nm) = Inr (first_index (has_name nm) cs)"
  by (simp add: wf_table_def find_name_first_index)

lemma wf_table_nth: "wf_table cs \<Longrightarrow> i < MAX_CLIENTS \<Longrightarrow> wf_client (cs ! i)"
  by (simp add: wf_table_def)

text \<open>Changing one slot keeps the table well formed if the new name is new or the slot is freed.\<close>

lemma wf_table_update:
  assumes "wf_table cs" "wf_client c"
    and "c_valid c \<Longrightarrow> \<forall>j<length cs. j \<noteq> i \<longrightarrow> \<not> has_name (c_name c) (cs ! j)"
  shows "wf_table (cs[i := c])"
proof -
  have "unique_names (cs[i := c])"
    unfolding unique_names_def
  proof (intro allI impI, elim conjE)
    fix j k
    let ?n = "\<lambda>l. name_key (c_name (cs[i := c] ! l))"
    assume *: "j < length (cs[i := c])" "k < length (cs[i := c])"
      "c_valid (cs[i := c] ! j)" "c_valid (cs[i := c] ! k)" "?n j = ?n k"
    show "j = k"
    proof (cases "j = i \<or> k = i")
      case True
      with * assms(3) show ?thesis
        by (cases "j = i"; cases "k = i") (fastforce simp: has_name_def)+
    next
      case False
      with * assms(1) show ?thesis by (simp add: wf_table_def unique_names_def)
    qed
  qed
  moreover have "\<forall>c\<in>set (cs[i := c]). wf_client c"
    using assms set_update_subset_insert [of cs i c] by (auto simp: wf_table_def)
  ultimately show ?thesis using assms(1) by (simp add: wf_table_def)
qed

section \<open>Insertion and deletion\<close>

definition key_map :: "client_t list \<Rightarrow> char list \<Rightarrow> int option" where
  "key_map cs nm = map_option (\<lambda>i. c_socket (cs ! i)) (first_index (has_name nm) cs)"

definition has_room :: "client_t list \<Rightarrow> bool" where
  "has_room cs \<longleftrightarrow> find_free cs \<noteq> None"

definition registry_insert :: "client_t list \<Rightarrow> char list \<Rightarrow> int \<Rightarrow> client_t list" where
  "registry_insert cs nm s = (case table_insert cs nm s of Inr cs' \<Rightarrow> cs' | Inl _ \<Rightarrow> cs)"

definition registry_remove :: "client_t list \<Rightarrow> char list \<Rightarrow> client_t list" where
  "registry_remove cs nm = (case table_delete cs nm of Inr (_, cs') \<Rightarrow> cs' | Inl _ \<Rightarrow> cs)"

lemma key_map_None: "key_map cs nm = None \<longleftrightarrow> (\<forall>c\<in>set cs. \<not> has_name nm c)"
  by (simp add: key_map_def first_index_None)

lemma key_map_Some:
  "unique_names cs \<Longrightarrow> i < length cs \<Longrightarrow> has_name nm (cs ! i) \<Longrightarrow> key_map cs nm = Some (c_socket (cs ! i))"
  by (simp add: key_map_def first_has_name)

lemma key_map_cong: "name_key nm = name_key nm' \<Longrightarrow> key_map cs nm = key_map cs nm'"
  unfolding key_map_def has_name_def by simp

text \<open>
  The map after one slot changed, where the old occupant of the slot, if any, did not hold
  the name looked up and neither does the new one.
\<close>

lemma key_map_update_other:
  assumes "unique_names cs" "unique_names (cs[i := c])" "i < length cs"
    and "\<not> has_name nm (cs ! i)" "\<not> has_name nm c"
  shows "key_map (cs[i := c]) nm = key_map cs nm"
proof (cases "\<exists>j<length cs. has_name nm (cs ! j)")
  case True
  then obtain j where j: "j < length cs" "has_name nm (cs ! j)" by blast
  with assms(4) have "j \<noteq> i" by blast
  with j assms show ?thesis
    using key_map_Some [of "cs[i := c]" j nm] key_map_Some [of cs j nm] by simp
next
  case False
  then have "key_map cs nm = None"
    by (auto simp: key_map_None in_set_conv_nth)
  moreover have "\<not> has_name nm x" if "x \<in> set (cs[i := c])" for x
    using that False assms(5) by (auto elim: set_list_update_cases)
  then have "key_map (cs[i := c]) nm = None" by (simp add: key_map_None)
  ultimately show ?thesis by simp
qed

lemma registry_insert_full: "\<not> has_room cs \<Longrightarrow> registry_insert cs nm s = cs"
  by (simp add: has_room_def registry_insert_def table_insert_def)

lemma table_insert_slot:
  assumes "find_free cs = Some i" "length nm = MAX_CLIENT_NAME"
  shows "table_insert cs nm s = Inr (cs[i := (cs ! i)\<lparr>c_valid := True, c_socket := s, c_name := nm\<rparr>])"
  using assms by (simp add: table_insert_def memcpy_bytes_all)

lemma registry_insert_slot:
  assumes "find_free cs = Some i" "length nm = MAX_CLIENT_NAME"
  shows "registry_insert cs nm s = cs[i := (cs ! i)\<lparr>c_valid := True, c_socket := s, c_name := nm\<rparr>]"
  using assms by (simp add: registry_insert_def table_insert_slot)

lemma table_insert_registry:
  "length nm = MAX_CLIENT_NAME \<Longrightarrow> table_insert cs nm s = Inr (registry_insert cs nm s)"
  by (simp add: registry_insert_def table_insert_def memcpy_bytes_all split: option.split)

lemma find_free_SomeD:
  assumes "find_free cs = Some i"
  shows "i < length cs" "\<not> c_valid (cs ! i)"
  using assms first_index_SomeD by (fastforce simp: find_free_first_index)+

lemma wf_registry_insert:
  assumes "wf_table cs" "length nm = MAX_CLIENT_NAME" "key_map cs nm = None"
  shows "wf_table (registry_insert cs nm s)"
proof (cases "find_free cs")
  case None
  with assms show ?thesis by (simp add: registry_insert_full has_room_def)
next
  case (Some i)
  with assms show ?thesis
    by (auto simp: registry_insert_slot wf_client_def key_map_None intro!: wf_table_update)
qed

lemma key_map_insert:
  assumes "wf_table cs" "length nm = MAX_CLIENT_NAME" "key_map cs nm = None" "has_room cs"
  shows "key_map (registry_insert cs nm s) nm' =
         (if name_key nm' = name_key nm then Some s else key_map cs nm')"
proof -
  from assms(4) obtain i where i: "find_free cs = Some i" by (auto simp: has_room_def)
  note slot = find_free_SomeD [OF i]
  let ?c = "(cs ! i)\<lparr>c_valid := True, c_socket := s, c_name := nm\<rparr>"
  have ins: "registry_insert cs nm s = cs[i := ?c]"
    using i assms(2) by (rule registry_insert_slot)
  have uniq: "unique_names (cs[i := ?c])" "unique_names cs"
    using wf_registry_insert [OF assms(1-3), of s] assms(1) by (simp_all add: ins wf_table_def)
  show ?thesis
  proof (cases "name_key nm' = name_key nm")
    case True
    then have "has_name nm' (cs[i := ?c] ! i)" using slot by (simp add: has_name_def)
    with True key_map_Some [OF uniq(1), of i nm'] slot show ?thesis by (simp add: ins)
  next
    case False
    then show ?thesis
      using slot uniq by (simp add: ins) (rule key_map_update_other, auto simp: has_name_def)
  qed
qed

lemma table_delete_absent:
  "wf_table cs \<Longrightarrow> ok_name nm \<Longrightarrow> key_map cs nm = None \<Longrightarrow> table_delete cs nm = Inr (-1, cs)"
  by (simp add: table_delete_def wf_table_find key_map_def)

lemma table_delete_slot:
  assumes "wf_table cs" "ok_name nm" "first_index (has_name nm) cs = Some i"
  shows "table_delete cs nm = Inr (c_socket (cs ! i),
           cs[i := (cs ! i)\<lparr>c_valid := False, c_name := (c_name (cs ! i))[0 := NUL], c_socket := -1\<rparr>])"
  using assms by (simp add: table_delete_def wf_table_find)

lemma table_delete_registry:
  assumes "wf_table cs" "ok_name nm"
  shows "table_delete cs nm = Inr (case key_map cs nm of None \<Rightarrow> -1 | Some s \<Rightarrow> s, registry_remove cs nm)"
  using assms
  by (cases "first_index (has_name nm) cs")
     (simp_all add: key_map_def registry_remove_def table_delete_slot table_delete_absent)

lemma registry_remove_slot:
  assumes "wf_table cs" "ok_name nm" "first_index (has_name nm) cs = Some i"
  shows "registry_remove cs nm =
    cs[i := (cs ! i)\<lparr>c_valid := False, c_name := (c_name (cs ! i))[0 := NUL], c_socket := -1\<rparr>]"
  using assms by (simp add: registry_remove_def table_delete_slot)

lemma registry_remove_absent:
  "wf_table cs \<Longrightarrow> ok_name nm \<Longrightarrow> key_map cs nm = None \<Longrightarrow> registry_remove cs nm = cs"
  by (simp add: registry_remove_def table_delete_absent)

lemma wf_registry_remove:
  assumes "wf_table cs" "ok_name nm"
  shows "wf_table (registry_remove cs nm)"
proof (cases "first_index (has_name nm) cs")
  case None
  with assms show ?thesis by (simp add: registry_remove_absent key_map_def)
next
  case (Some i)
  have "i < MAX_CLIENTS"
    using first_index_SomeD [OF Some] assms(1) by (simp add: wf_table_def)
  then have "wf_client (cs ! i)" using assms(1) by (rule wf_table_nth [rotated])
  then show ?thesis
    using assms Some
    by (simp add: registry_remove_slot) (rule wf_table_update, auto simp: wf_client_def)
qed

lemma key_map_remove:
  assumes "wf_table cs" "ok_name nm"
  shows "key_map (registry_remove cs nm) nm' =
         (if name_key nm' = name_key nm then None else key_map cs nm')"
proof (cases "first_index (has_name nm) cs")
  case None
  then have "key_map cs nm = None" by (simp add: key_map_def)
  with assms show ?thesis using key_map_cong [of nm' nm cs]
    by (auto simp: registry_remove_absent)
next
  case (Some i)
  let ?c = "(cs ! i)\<lparr>c_valid := False, c_name := (c_name (cs ! i))[0 := NUL], c_socket := -1\<rparr>"
  note slot = first_index_SomeD [OF Some]
  have rem: "registry_remove cs nm = cs[i := ?c]"
    using assms Some by (rule registry_remove_slot)
  have uniq: "unique_names cs" "unique_names (cs[i := ?c])"
    using assms wf_registry_remove [OF assms] by (simp_all add: rem wf_table_def)
  show ?thesis
  proof (cases "name_key nm' = name_key nm")
    case True
    have "\<not> has_name nm' c" if "c \<in> set (cs[i := ?c])" for c
    proof
      assume h: "has_name nm' c"
      with that obtain j where j: "j < length cs" "j \<noteq> i" "c = cs ! j"
        by (auto simp: has_name_def elim: set_list_update_cases)
      with h True have "has_name nm (cs ! j)" by (simp add: has_name_def)
      with j slot uniq(1) show False by (blast dest: unique_names_has_name)
    qed
    with True show ?thesis by (simp add: rem key_map_None)
  next
    case False
    with slot uniq show ?thesis
      by (simp add: rem) (rule key_map_update_other, auto simp: has_name_def)
  qed
qed

lemma has_room_remove:
  assumes "wf_table cs" "ok_name nm" "key_map cs nm \<noteq> None"
  shows "has_room (registry_remove cs nm)"
proof -
  from assms(3) obtain i where i: "first_index (has_name nm) cs = Some i"
    by (auto simp: key_map_def)
  note slot = first_index_SomeD [OF i]
  have "\<exists>c\<in>set (registry_remove cs nm). \<not> c_valid c"
    using assms i slot by (auto simp: registry_remove_slot intro!: bexI [OF _ set_update_memI])
  then show ?thesis by (auto simp: has_room_def find_free_first_index first_index_None)
qed

section \<open>The table as a map from names to sockets\<close>

text \<open>
  The contract the server's handlers rely on. \<open>ok\<close> is what an operation needs to know of
  the name it is given; \<open>room\<close> says that an insertion finds a slot.
\<close>

locale name_registry =
  fixes lookup :: "'t \<Rightarrow> 'k \<Rightarrow> 's option"
    and insert :: "'t \<Rightarrow> 'k \<Rightarrow> 's \<Rightarrow> 't"
    and remove :: "'t \<Rightarrow> 'k \<Rightarrow> 't"
    and room :: "'t \<Rightarrow> bool"
    and inv :: "'t \<Rightarrow> bool"
    and ok :: "'k \<Rightarrow> bool"
    and key :: "'k \<Rightarrow> 'n"
  assumes inv_insert: "inv t \<Longrightarrow> ok k \<Longrightarrow> lookup t k = None \<Longrightarrow> inv (insert t k s)"
    and inv_remove: "inv t \<Longrightarrow> ok k \<Longrightarrow> inv (remove t k)"
    and lookup_insert: "inv t \<Longrightarrow> ok k \<Longrightarrow> lookup t k = None \<Longrightarrow> room t \<Longrightarrow>
      lookup (insert t k s) k' = (if key k' = key k then Some s else lookup t k')"
    and insert_full: "\<not> room t \<Longrightarrow> insert t k s = t"
    and lookup_remove: "inv t \<Longrightarrow> ok k \<Longrightarrow>
      lookup (remove t k) k' = (if key k' = key k then None else lookup t k')"
    and room_remove: "inv t \<Longrightarrow> ok k \<Longrightarrow> lookup t k \<noteq> None \<Longrightarrow> room (remove t k)"
begin

text \<open>Leaving restores what was there before joining; rejoining binds the new socket.\<close>

lemma remove_insert:
  assumes "inv t" "ok k" "lookup t k = None"
  shows "lookup (remove (insert t k s) k) k' = (if key k' = key k then None else lookup t k')"
  using assms inv_insert [OF assms, of s]
  by (cases "room t") (simp_all add: lookup_remove lookup_insert insert_full)

lemma reinsert_after_remove:
  assumes "inv t" "ok k" "lookup t k \<noteq> None"
  shows "lookup (insert (remove t k) k s) k' = (if key k' = key k then Some s else lookup t k')"
  using assms inv_remove [OF assms(1,2)] room_remove [OF assms]
  by (simp add: lookup_insert lookup_remove)

text \<open>A run of operations, joins of taken names skipped.\<close>

fun run_registry :: "('k \<times> 's option) list \<Rightarrow> 't \<Rightarrow> 't" where
  "run_registry [] t = t"
| "run_registry ((k, Some s) # ops) t =
     run_registry ops (if lookup t k = None then insert t k s else t)"
| "run_registry ((k, None) # ops) t = run_registry ops (remove t k)"

lemma inv_run_registry: "\<forall>(k, _)\<in>set ops. ok k \<Longrightarrow> inv t \<Longrightarrow> inv (run_registry ops t)"
  by (induction ops t rule: run_registry.induct) (auto simp: inv_insert inv_remove)

lemma untouched_name:
  assumes "\<forall>(k, _)\<in>set ops. ok k \<and> key k \<noteq> key k'" "inv t"
  shows "lookup (run_registry ops t) k' = lookup t k'"
  using assms
proof (induction ops t rule: run_registry.induct)
  case (2 k s ops t)
  then show ?case
    by (cases "room t") (auto simp: lookup_insert insert_full inv_insert)
next
  case (3 k ops t)
  then show ?case by (auto simp: lookup_remove inv_remove)
qed simp

end

lemma ok_name_array: "length nm = MAX_CLIENT_NAME \<Longrightarrow> ok_name nm"
  by (simp add: readable_length)

interpretation registry: name_registry key_map registry_insert registry_remove has_room wf_table
  "\<lambda>nm. length nm = MAX_CLIENT_NAME" name_key
  by unfold_locales
     (simp_all add: wf_registry_insert wf_registry_remove key_map_insert registry_insert_full
        key_map_remove has_room_remove ok_name_array)

end
