(* ===== verification/Chat_Server.thy ===== *)
theory Chat_Server
  imports Chat_Table
begin

text \<open>
  The TCP chat server \<^verbatim>\<open>cw11/server.c\<close>: every handler with its locking, over a state of the
  client table, the mutex, the descriptors epoll watches and the system calls made so far.
  Each handler holds the mutex over everything it does to the table, so the interleaving of
  the epoll loop with the heartbeat thread is a sequence of whole handlers
  (\<open>server_step\<close>, \<open>server_run\<close>); a mutex left locked is part of the state, and locking it
  again is the fault \<open>Self_Deadlock\<close>.
\<close>

unbundle bit_operations_syntax

section \<open>State\<close>

record server =
  clients :: "client_t list"
  locked :: bool
  watched :: "int list"
  trace :: "event list"

definition lock :: "server \<Rightarrow> server cres" where
  "lock st = (if locked st then Inl Self_Deadlock else Inr (st\<lparr>locked := True\<rparr>))"

definition unlock :: "server \<Rightarrow> server" where
  "unlock st = st\<lparr>locked := False\<rparr>"

definition emit :: "event list \<Rightarrow> server \<Rightarrow> server" where
  "emit evs st = st\<lparr>trace := trace st @ evs\<rparr>"

text \<open>\<open>close(fd)\<close> also takes the descriptor out of the epoll set.\<close>

definition close_fd :: "int \<Rightarrow> server \<Rightarrow> server" where
  "close_fd fd st = st\<lparr>trace := trace st @ [Closed fd], watched := filter (\<lambda>x. x \<noteq> fd) (watched st)\<rparr>"

definition boot_server :: server where
  "boot_server = \<lparr>clients = replicate MAX_CLIENTS zero_client, locked = False, watched = [], trace = []\<rparr>"

definition init_clients :: "server \<Rightarrow> server cres" where
  "init_clients st = cbind (lock st) (\<lambda>st. Inr (unlock (st\<lparr>clients := map init_client (clients st)\<rparr>)))"

section \<open>Handlers\<close>

text \<open>
  A duplicate name returns \<open>-1\<close> from inside the locked region. When no slot is free the
  second loop ends without storing anything and the function still returns 0.
\<close>

definition add_client :: "char list \<Rightarrow> int \<Rightarrow> server \<Rightarrow> (int \<times> server) cres" where
  "add_client name socket st =
     cbind (lock st) (\<lambda>st.
     cbind (find_name (clients st) (Some name)) (\<lambda>taken.
       case taken of
         Some _ \<Rightarrow> Inr (-1, st)
       | None \<Rightarrow> cbind (table_insert (clients st) name socket) (\<lambda>cs.
           Inr (0, unlock (st\<lparr>clients := cs\<rparr>)))))"

definition handle_client_delete :: "char list \<Rightarrow> server \<Rightarrow> server cres" where
  "handle_client_delete name st =
     cbind (lock st) (\<lambda>st.
     cbind (table_delete (clients st) name) (\<lambda>(to_close, cs).
       let st = unlock (st\<lparr>clients := cs\<rparr>) in
       Inr (if to_close \<noteq> -1 then close_fd to_close st else st)))"

fun send_to_others :: "host \<Rightarrow> char list \<Rightarrow> message_t \<Rightarrow> client_t list \<Rightarrow> event list cres" where
  "send_to_others h sender response [] = Inr []"
| "send_to_others h sender response (c # cs) =
     (if c_valid c then
        cbind (strncmp_eq (c_name c) sender MAX_CLIENT_NAME) (\<lambda>eq.
          if eq then send_to_others h sender response cs
          else cbind (send_message h (c_socket c) response) (\<lambda>(_, ev).
               cbind (send_to_others h sender response cs) (\<lambda>evs. Inr (ev # evs))))
      else send_to_others h sender response cs)"

definition handle_to_all_message :: "host \<Rightarrow> char list \<Rightarrow> char list \<Rightarrow> server \<Rightarrow> server cres" where
  "handle_to_all_message h sender message st =
     cbind (init_message_t h sender SERVER_CHAT_MESSAGE message) (\<lambda>response.
     cbind (lock st) (\<lambda>st.
     cbind (send_to_others h sender response (clients st)) (\<lambda>evs.
       Inr (unlock (emit evs st)))))"

text \<open>
  \<open>strtok(message, " ")\<close> and then \<open>strtok(NULL, "")\<close>: the first token, if any, and the
  offset of what follows its delimiter, if that is not empty. Both scan for the NUL of a
  message that came from the network.
\<close>

definition split_request :: "char list \<Rightarrow> (char list option \<times> nat option) cres" where
  "split_request message =
     (if \<not> terminated message then Inl Oob_Read
      else let s = cstr message;
               k = length (takeWhile (\<lambda>c. c = CHR '' '') s);
               token = takeWhile (\<lambda>c. c \<noteq> CHR '' '') (drop k s);
               e = k + length token
           in if token = [] then Inr (None, None)
              else if Suc e < length s then Inr (Some token, Some (Suc e))
              else Inr (Some token, None))"

definition handle_to_one_message :: "host \<Rightarrow> char list \<Rightarrow> char list \<Rightarrow> server \<Rightarrow> server cres" where
  "handle_to_one_message h sender message st =
     cbind (split_request message) (\<lambda>(receiver_name, message_text).
       case message_text of
         None \<Rightarrow> Inl Null_Deref
       | Some off \<Rightarrow>
           cbind (init_message_t h sender SERVER_CHAT_MESSAGE (drop off message @ past_text h)) (\<lambda>msg.
           cbind (lock st) (\<lambda>st.
           cbind (find_name (clients st) (map_option c_lit receiver_name)) (\<lambda>r.
             case r of
               None \<Rightarrow> Inr (unlock st)
             | Some i \<Rightarrow> cbind (send_message h (c_socket (clients st ! i)) msg) (\<lambda>(_, ev).
                 Inr (unlock (emit [ev] st)))))))"

definition handle_new_client :: "host \<Rightarrow> char list \<Rightarrow> int \<Rightarrow> server \<Rightarrow> server cres" where
  "handle_new_client h sender client_fd st =
     cbind (add_client sender client_fd st) (\<lambda>(ret, st).
     let okay = (ret = 0) in
     cbind (init_message_t h (lit h ''SERVER'')
              (if okay then SERVER_OK_REGISTER else SERVER_FAILURE_REGISTER)
              (lit h (if okay then ''successfully registered'' else ''identifier already taken''))) (\<lambda>response.
     cbind (send_message h client_fd response) (\<lambda>(_, ev).
       Inr (emit [ev] st))))"

text \<open>\<open>strcat\<close> into the 512-byte buffer of \<open>handle_list_request\<close>, the buffer as its string.\<close>

definition list_strcat :: "char list \<Rightarrow> char list \<Rightarrow> char list cres" where
  "list_strcat buffer s =
     (if length buffer + length s < MAX_MESSAGE_TEXT then Inr (buffer @ s) else Inl Oob_Write)"

fun list_names :: "char list \<Rightarrow> client_t list \<Rightarrow> char list cres" where
  "list_names buffer [] = Inr buffer"
| "list_names buffer (c # cs) =
     (if c_valid c then
        if \<not> terminated (c_name c) then Inl Oob_Read
        else cbind (list_strcat buffer (cstr (c_name c))) (\<lambda>buffer.
             cbind (list_strcat buffer [CHR 0x0A]) (\<lambda>buffer. list_names buffer cs))
      else list_names buffer cs)"

text \<open>The buffer's bytes: the string, its NUL, and what the stack held behind it.\<close>

definition list_buffer :: "host \<Rightarrow> char list \<Rightarrow> char list" where
  "list_buffer h s = s @ NUL # drop (Suc (length s)) (take MAX_MESSAGE_TEXT (stack h))"

definition handle_list_request :: "host \<Rightarrow> int \<Rightarrow> server \<Rightarrow> server cres" where
  "handle_list_request h client_fd st =
     cbind (lock st) (\<lambda>st.
     cbind (list_names [] (clients st)) (\<lambda>s.
     let st = unlock st in
     cbind (init_message_t h (lit h ''SERVER'') SERVER_LIST_MESSAGE (list_buffer h s)) (\<lambda>list_response.
     cbind (send_message h client_fd list_response) (\<lambda>(_, ev).
       Inr (emit [ev] st)))))"

fun clear_awaiting :: "int \<Rightarrow> client_t list \<Rightarrow> client_t list" where
  "clear_awaiting fd [] = []"
| "clear_awaiting fd (c # cs) =
     (if c_socket c = fd then c\<lparr>c_awaiting := False\<rparr> # cs else c # clear_awaiting fd cs)"

definition handle_got_alive_message :: "int \<Rightarrow> server \<Rightarrow> server cres" where
  "handle_got_alive_message client_fd st =
     cbind (lock st) (\<lambda>st. Inr (unlock (st\<lparr>clients := clear_awaiting client_fd (clients st)\<rparr>)))"

section \<open>The epoll loop\<close>

text \<open>
  The results of \<open>accept\<close>, with those of the \<open>fcntl\<close> and \<open>epoll_ctl\<close> calls on the new
  socket; the list is what the loop consumes until \<open>accept\<close> returns \<open>-1\<close>.
\<close>

datatype accept_result = Accepted (acc_fd: int) (fcntl_ok: bool) (epoll_ok: bool) | Accept_Failed

fun accept_new_connection_requests :: "accept_result list \<Rightarrow> server \<Rightarrow> server" where
  "accept_new_connection_requests [] st = st"
| "accept_new_connection_requests (Accept_Failed # rs) st = st"
| "accept_new_connection_requests (Accepted client_socket fc ep # rs) st =
     (if \<not> fc then st
      else if \<not> ep then st
      else accept_new_connection_requests rs (st\<lparr>watched := watched st @ [client_socket]\<rparr>))"

text \<open>The \<open>printf("... %s", message.sender)\<close> that opens every case.\<close>

definition print_sender :: "message_t \<Rightarrow> server cres \<Rightarrow> server cres" where
  "print_sender m k = (if terminated (m_sender m) then k else Inl Oob_Read)"

definition dispatch_message :: "host \<Rightarrow> int \<Rightarrow> message_t \<Rightarrow> server \<Rightarrow> server cres" where
  "dispatch_message h client_fd m st =
     (case type_of_word (m_type m) of
        Some CLIENT_NEW \<Rightarrow> print_sender m (handle_new_client h (m_sender m) client_fd st)
      | Some CLIENT_STOP \<Rightarrow> print_sender m (handle_client_delete (m_sender m) st)
      | Some CLIENT_TO_ALL \<Rightarrow> print_sender m (handle_to_all_message h (m_sender m) (m_text m) st)
      | Some CLIENT_TO_ONE \<Rightarrow> print_sender m (handle_to_one_message h (m_sender m) (m_text m) st)
      | Some CLIENT_LIST \<Rightarrow> print_sender m (handle_list_request h client_fd st)
      | Some CLIENT_ALIVE \<Rightarrow> print_sender m (handle_got_alive_message client_fd st)
      | _ \<Rightarrow> Inr st)"

definition handle_client_message :: "host \<Rightarrow> int \<Rightarrow> char list option \<Rightarrow> server \<Rightarrow> server cres" where
  "handle_client_message h client_fd received st =
     cbind (receive_message h received) (\<lambda>(_, m).
       case m of None \<Rightarrow> Inr st | Some message \<Rightarrow> dispatch_message h client_fd message st)"

definition EPOLLIN :: "32 word" where "EPOLLIN = 1"
definition EPOLLERR :: "32 word" where "EPOLLERR = 8"
definition EPOLLHUP :: "32 word" where "EPOLLHUP = 16"

text \<open>One turn of the inner loop of \<open>main\<close> for an event on a client's descriptor.\<close>

definition on_epoll_event :: "host \<Rightarrow> int \<Rightarrow> 32 word \<Rightarrow> char list option \<Rightarrow> server \<Rightarrow> server cres" where
  "on_epoll_event h fd events received st =
     (if events AND EPOLLERR \<noteq> 0 \<or> events AND EPOLLHUP \<noteq> 0 \<or> events AND EPOLLIN = 0
      then Inr (close_fd fd st)
      else handle_client_message h fd received st)"

section \<open>The heartbeat thread\<close>

fun mark_alive :: "host \<Rightarrow> client_t list \<Rightarrow> (client_t list \<times> event list) cres" where
  "mark_alive h [] = Inr ([], [])"
| "mark_alive h (c # cs) =
     (if c_valid c then
        cbind (init_message_t h (lit h ''SERVER'') SERVER_CHECK_ALIVE (lit h '''')) (\<lambda>message.
        cbind (send_message h (c_socket c) message) (\<lambda>(_, ev).
        cbind (mark_alive h cs) (\<lambda>(cs', evs).
          Inr (c\<lparr>c_awaiting := True\<rparr> # cs', ev # evs))))
      else cbind (mark_alive h cs) (\<lambda>(cs', evs). Inr (c # cs', evs)))"

definition heartbeat_mark :: "host \<Rightarrow> server \<Rightarrow> server cres" where
  "heartbeat_mark h st =
     cbind (lock st) (\<lambda>st.
     cbind (mark_alive h (clients st)) (\<lambda>(cs, evs).
       Inr (unlock (emit evs (st\<lparr>clients := cs\<rparr>)))))"

definition sweep_client :: "client_t \<Rightarrow> client_t" where
  "sweep_client c =
     (if c_valid c \<and> c_awaiting c then c\<lparr>c_valid := False, c_awaiting := False\<rparr> else c)"

definition dead_sockets :: "client_t list \<Rightarrow> int list" where
  "dead_sockets cs = map c_socket (filter (\<lambda>c. c_valid c \<and> c_awaiting c) cs)"

definition heartbeat_sweep :: "server \<Rightarrow> server cres" where
  "heartbeat_sweep st =
     cbind (lock st) (\<lambda>st.
       Inr (unlock (fold close_fd (dead_sockets (clients st))
              (st\<lparr>clients := map sweep_client (clients st)\<rparr>))))"

section \<open>Shutdown\<close>

fun cleanup_clients :: "host \<Rightarrow> client_t list \<Rightarrow> event list cres" where
  "cleanup_clients h [] = Inr []"
| "cleanup_clients h (c # cs) =
     (if c_valid c then
        cbind (init_message_t h (lit h ''SERVER'') SERVER_SHUTDOWN (lit h '''')) (\<lambda>message.
        cbind (send_message h (c_socket c) message) (\<lambda>(_, ev).
        cbind (cleanup_clients h cs) (\<lambda>evs. Inr (ev # Closed (c_socket c) # evs))))
      else cleanup_clients h cs)"

definition cleanup :: "host \<Rightarrow> int \<Rightarrow> int \<Rightarrow> server \<Rightarrow> server cres" where
  "cleanup h server_socket epoll_fd st =
     (let st = st\<lparr>locked := True\<rparr> in
      cbind (cleanup_clients h (clients st)) (\<lambda>evs.
        Inr (emit (evs @ [Shutdown server_socket, Closed server_socket, Closed epoll_fd]) st)))"

section \<open>Runs\<close>

datatype input =
    Accepting "accept_result list"
  | Event int "32 word" "char list option"
  | Mark
  | Sweep

fun server_step :: "host \<Rightarrow> input \<Rightarrow> server \<Rightarrow> server cres" where
  "server_step h (Accepting rs) st = Inr (accept_new_connection_requests rs st)"
| "server_step h (Event fd evs received) st = on_epoll_event h fd evs received st"
| "server_step h Mark st = heartbeat_mark h st"
| "server_step h Sweep st = heartbeat_sweep st"

text \<open>
  A run: every step finds a machine of its own, with another time, other bytes on the stack and
  other results of \<open>send\<close>.
\<close>

fun server_run :: "(host \<times> input) list \<Rightarrow> server \<Rightarrow> server cres" where
  "server_run [] st = Inr st"
| "server_run ((h, i) # is) st = cbind (server_step h i st) (server_run is)"

end
