(* ===== verification/Chat_Props.thy ===== *)
theory Chat_Props
  imports Chat_Server
begin

text \<open>
  What the chat server of \<^verbatim>\<open>cw11\<close> does: the result of every handler on every branch in
  closed form, the invariant of the client table over runs, and the properties that follow.
\<close>

section \<open>Handlers in closed form\<close>

named_theorems handler_results \<open>results of the handlers on well-formed states\<close>

definition built_message :: "host \<Rightarrow> char list \<Rightarrow> message_type_t \<Rightarrow> char list \<Rightarrow> message_t" where
  "built_message h s ty t = \<lparr>m_sender = take MAX_CLIENT_NAME s, m_type = type_word ty,
     m_text = take MAX_MESSAGE_TEXT t, m_time = now h\<rparr>"

definition deliver :: "host \<Rightarrow> message_t \<Rightarrow> int \<Rightarrow> event" where
  "deliver h m s =
     (case sent_bytes h s of None \<Rightarrow> Send_Failed s | Some n \<Rightarrow> Sent s (take n (sent_record h m)))"

lemma deliver_whole:
  "wf_message m \<Longrightarrow> wf_host h \<Longrightarrow> send_ok h s \<Longrightarrow> deliver h m s = Sent s (sent_record h m)"
  by (simp add: deliver_def send_ok_def)

lemma init_message_built [handler_results]:
  "MAX_CLIENT_NAME \<le> length s \<Longrightarrow> MAX_MESSAGE_TEXT \<le> length t \<Longrightarrow>
   init_message_t h s ty t = Inr (built_message h s ty t)"
  by (simp add: init_message_t_def built_message_def memcpy_bytes_Inr)

lemma wf_built [simp]:
  "MAX_CLIENT_NAME \<le> length s \<Longrightarrow> MAX_MESSAGE_TEXT \<le> length t \<Longrightarrow> wf_message (built_message h s ty t)"
  by (simp add: built_message_def wf_message_def)

lemma send_message_deliver [handler_results]:
  "wf_message m \<Longrightarrow> wf_host h \<Longrightarrow>
   send_message h s m = Inr (if sent_bytes h s = None then -1 else 0, deliver h m s)"
  by (simp add: send_message_wf deliver_def split: option.split)

text \<open>The hosts the server runs on: literals may be over-read, and so may a message's text.\<close>

definition server_host :: "host \<Rightarrow> bool" where
  "server_host h \<longleftrightarrow> wf_host h \<and> roomy h \<and> MAX_MESSAGE_TEXT \<le> length (past_text h)"

lemma lit_long [simp]:
  assumes "server_host h"
  shows "MAX_CLIENT_NAME \<le> length (lit h s)" "MAX_MESSAGE_TEXT \<le> length (lit h s)"
proof -
  have "MAX_MESSAGE_TEXT \<le> length (rodata h s)"
    using assms by (simp add: server_host_def roomy_def)
  then show "MAX_CLIENT_NAME \<le> length (lit h s)" "MAX_MESSAGE_TEXT \<le> length (lit h s)"
    by (simp_all add: lit_def wire_sizes)
qed

lemma server_host_wf [simp]: "server_host h \<Longrightarrow> wf_host h"
  by (simp add: server_host_def)

text \<open>A message from the server itself to one descriptor.\<close>

definition server_says :: "host \<Rightarrow> message_type_t \<Rightarrow> char list \<Rightarrow> int \<Rightarrow> event" where
  "server_says h ty t = deliver h (built_message h (lit h ''SERVER'') ty t)"

lemma emit_fields [simp]:
  "clients (emit evs st) = clients st" "locked (emit evs st) = locked st"
  "watched (emit evs st) = watched st" "trace (emit evs st) = trace st @ evs"
  "(emit evs st)\<lparr>clients := cs\<rparr> = emit evs (st\<lparr>clients := cs\<rparr>)"
  by (simp_all add: emit_def)

lemma add_client_result [handler_results]:
  assumes "wf_table (clients st)" "length name = MAX_CLIENT_NAME"
  shows "add_client name s st =
    (if locked st then Inl Self_Deadlock
     else if key_map (clients st) name \<noteq> None then Inr (-1, st\<lparr>locked := True\<rparr>)
     else Inr (0, st\<lparr>clients := registry_insert (clients st) name s\<rparr>))"
  using assms
  by (cases st)
     (auto simp: add_client_def lock_def unlock_def wf_table_find ok_name_array key_map_def
        table_insert_registry split: option.split)

lemma delete_result [handler_results]:
  assumes "wf_table (clients st)" "ok_name name"
  shows "handle_client_delete name st =
    (if locked st then Inl Self_Deadlock
     else let st' = st\<lparr>clients := registry_remove (clients st) name\<rparr>;
              s = (case key_map (clients st) name of None \<Rightarrow> -1 | Some s \<Rightarrow> s)
          in Inr (if s \<noteq> -1 then close_fd s st' else st'))"
  using assms
  by (cases st) (auto simp: handle_client_delete_def lock_def unlock_def table_delete_registry Let_def)

lemma new_client_result [handler_results]:
  assumes "server_host h" "wf_table (clients st)" "length name = MAX_CLIENT_NAME"
  shows "handle_new_client h name fd st =
    (if locked st then Inl Self_Deadlock
     else if key_map (clients st) name \<noteq> None
     then Inr (emit [server_says h SERVER_FAILURE_REGISTER (lit h ''identifier already taken'') fd]
                 (st\<lparr>locked := True\<rparr>))
     else Inr (emit [server_says h SERVER_OK_REGISTER (lit h ''successfully registered'') fd]
                 (st\<lparr>clients := registry_insert (clients st) name fd\<rparr>)))"
  using assms
  by (simp add: handle_new_client_def handler_results server_says_def)

lemma send_to_others_result [handler_results]:
  assumes "\<forall>c\<in>set cs. wf_client c" "ok_name sender" "wf_message m" "wf_host h"
  shows "send_to_others h sender m cs =
    Inr (map (\<lambda>c. deliver h m (c_socket c))
           (filter (\<lambda>c. c_valid c \<and> name_key (c_name c) \<noteq> name_key sender) cs))"
  using assms by (induction cs) (auto simp: strncmp_names send_message_deliver)

lemma to_all_result [handler_results]:
  assumes "server_host h" "wf_table (clients st)" "length sender = MAX_CLIENT_NAME"
    "length text = MAX_MESSAGE_TEXT"
  shows "handle_to_all_message h sender text st =
    (if locked st then Inl Self_Deadlock
     else Inr (emit (map (\<lambda>c. deliver h (built_message h sender SERVER_CHAT_MESSAGE text) (c_socket c))
             (filter (\<lambda>c. c_valid c \<and> name_key (c_name c) \<noteq> name_key sender) (clients st))) st))"
  using assms
  by (cases st)
     (simp add: handle_to_all_message_def handler_results lock_def unlock_def emit_def ok_name_array
        wf_table_def)

text \<open>The text of the list, and the exact condition under which it fits the buffer.\<close>

definition listing :: "client_t list \<Rightarrow> char list" where
  "listing cs = concat (map (\<lambda>c. cstr (c_name c) @ [CHR 0x0A]) (filter c_valid cs))"

lemma list_names_result:
  assumes "\<forall>c\<in>set cs. c_valid c \<longrightarrow> terminated (c_name c)" "length b < MAX_MESSAGE_TEXT"
  shows "list_names b cs =
    (if length b + length (listing cs) < MAX_MESSAGE_TEXT then Inr (b @ listing cs) else Inl Oob_Write)"
  using assms
proof (induction cs arbitrary: b)
  case Nil
  then show ?case by (simp add: listing_def)
next
  case (Cons c cs)
  show ?case
  proof (cases "c_valid c")
    case True
    let ?n = "cstr (c_name c)"
    have *: "listing (c # cs) = ?n @ [CHR 0x0A] @ listing cs"
      using True by (simp add: listing_def)
    show ?thesis
      using Cons.prems Cons.IH [of "b @ ?n @ [CHR 0x0A]"] True
      by (auto simp: list_strcat_def *)
  next
    case False
    then show ?thesis using Cons by (simp add: listing_def)
  qed
qed

lemma length_list_buffer [simp]:
  "wf_host h \<Longrightarrow> length s < MAX_MESSAGE_TEXT \<Longrightarrow> length (list_buffer h s) = MAX_MESSAGE_TEXT"
  by (simp add: list_buffer_def wf_host_def wire_sizes)

lemma list_request_result [handler_results]:
  assumes "server_host h" "\<forall>c\<in>set (clients st). c_valid c \<longrightarrow> terminated (c_name c)"
  shows "handle_list_request h fd st =
    (if locked st then Inl Self_Deadlock
     else if length (listing (clients st)) < MAX_MESSAGE_TEXT
     then Inr (emit [server_says h SERVER_LIST_MESSAGE (list_buffer h (listing (clients st))) fd] st)
     else Inl Oob_Write)"
proof -
  have "list_names [] (clients st) =
    (if length (listing (clients st)) < MAX_MESSAGE_TEXT then Inr (listing (clients st)) else Inl Oob_Write)"
    using list_names_result [OF assms(2), of "[]"] by (simp add: wire_sizes)
  with assms(1) show ?thesis
    by (cases st)
       (simp add: handle_list_request_def lock_def unlock_def server_says_def handler_results emit_def)
qed

lemma mark_alive_result:
  assumes "server_host h"
  shows "mark_alive h cs =
    Inr (map (\<lambda>c. if c_valid c then c\<lparr>c_awaiting := True\<rparr> else c) cs,
         map (\<lambda>c. server_says h SERVER_CHECK_ALIVE (lit h '''') (c_socket c)) (filter c_valid cs))"
  using assms by (induction cs) (simp_all add: handler_results server_says_def)

definition mark_client :: "client_t \<Rightarrow> client_t" where
  "mark_client c = (if c_valid c then c\<lparr>c_awaiting := True\<rparr> else c)"

lemma mark_client_fields [simp]:
  "c_valid (mark_client c) = c_valid c" "c_socket (mark_client c) = c_socket c"
  "c_name (mark_client c) = c_name c" "c_awaiting (mark_client c) \<longleftrightarrow> c_valid c \<or> c_awaiting c"
  by (simp_all add: mark_client_def)

lemma sweep_client_fields [simp]:
  "c_valid (sweep_client c) \<longleftrightarrow> c_valid c \<and> \<not> c_awaiting c" "c_socket (sweep_client c) = c_socket c"
  "c_name (sweep_client c) = c_name c"
  by (auto simp: sweep_client_def)

lemma dead_socketsI: "c \<in> set cs \<Longrightarrow> c_valid c \<Longrightarrow> c_awaiting c \<Longrightarrow> c_socket c \<in> set (dead_sockets cs)"
  by (auto simp: dead_sockets_def)

lemma mark_result [handler_results]:
  assumes "server_host h"
  shows "heartbeat_mark h st =
    (if locked st then Inl Self_Deadlock
     else Inr (emit (map (\<lambda>c. server_says h SERVER_CHECK_ALIVE (lit h '''') (c_socket c))
             (filter c_valid (clients st))) (st\<lparr>clients := map mark_client (clients st)\<rparr>)))"
  using assms
  by (cases st) (simp add: heartbeat_mark_def lock_def unlock_def mark_alive_result emit_def
      mark_client_def [abs_def])

lemma fold_close_fd:
  "fold close_fd fds st =
   st\<lparr>trace := trace st @ map Closed fds, watched := filter (\<lambda>x. x \<notin> set fds) (watched st)\<rparr>"
  by (induction fds arbitrary: st) (auto simp: close_fd_def intro!: filter_cong)

lemma sweep_result [handler_results]:
  "heartbeat_sweep st =
    (if locked st then Inl Self_Deadlock
     else Inr (fold close_fd (dead_sockets (clients st)) (st\<lparr>clients := map sweep_client (clients st)\<rparr>)))"
  by (cases st) (simp add: heartbeat_sweep_def lock_def unlock_def fold_close_fd)

lemma got_alive_result [handler_results]:
  "handle_got_alive_message fd st =
    (if locked st then Inl Self_Deadlock
     else Inr (st\<lparr>clients := clear_awaiting fd (clients st)\<rparr>))"
  by (cases st) (simp add: handle_got_alive_message_def lock_def unlock_def)

text \<open>A received record always decodes to a well-formed message.\<close>

lemma deserialize_total:
  assumes "length buf = MAX_MSG_NET_BUF"
  shows "\<exists>m. deserialize_message_t e buf = Inr m \<and> wf_message m"
  using assms by (simp add: deserialize_message_t_def read_at_def wf_message_def wire_sizes)

lemma receive_message_wf:
  assumes "wf_host h"
  obtains "received = None" "receive_message h received = Inr (-1, None)"
  | m where "received \<noteq> None" "receive_message h received = Inr (0, Some m)" "wf_message m"
proof (cases received)
  case (Some bs)
  have "length (take MAX_MSG_NET_BUF bs @ drop (length bs) (stack h)) = MAX_MSG_NET_BUF"
    using assms by (auto simp: wf_host_def)
  then obtain m where "deserialize_message_t (byte_order h)
      (take MAX_MSG_NET_BUF bs @ drop (length bs) (stack h)) = Inr m" "wf_message m"
    using deserialize_total by blast
  with Some that(2) show thesis by (simp add: receive_message_def)
qed (use that(1) in \<open>simp add: receive_message_def\<close>)

section \<open>The table invariant\<close>

lemma wf_table_weaken:
  assumes "wf_table cs" "length cs' = length cs"
    and "\<And>i. i < length cs \<Longrightarrow> wf_client (cs ! i) \<Longrightarrow> wf_client (cs' ! i) \<and>
      (c_valid (cs' ! i) \<longrightarrow> c_valid (cs ! i) \<and> c_name (cs' ! i) = c_name (cs ! i))"
  shows "wf_table cs'"
proof -
  have "\<forall>c\<in>set cs'. wf_client c"
    using assms by (simp add: wf_table_def all_set_conv_all_nth)
  moreover have "unique_names cs'"
    using assms unfolding wf_table_def unique_names_def all_set_conv_all_nth by metis
  ultimately show ?thesis using assms(1,2) by (simp add: wf_table_def)
qed

lemma length_clear_awaiting [simp]: "length (clear_awaiting fd cs) = length cs"
  by (induction cs) auto

lemma clear_awaiting_nth:
  "i < length cs \<Longrightarrow>
   clear_awaiting fd cs ! i =
     (if first_index (\<lambda>c. c_socket c = fd) cs = Some i then (cs ! i)\<lparr>c_awaiting := False\<rparr> else cs ! i)"
proof (induction cs arbitrary: i)
  case (Cons c cs)
  then show ?case by (cases i) auto
qed simp

lemma wf_clear_awaiting [inv_intros]: "wf_table cs \<Longrightarrow> wf_table (clear_awaiting fd cs)"
  by (erule wf_table_weaken) (auto simp: clear_awaiting_nth wf_client_def)

lemma wf_mark [inv_intros]: "wf_table cs \<Longrightarrow> wf_table (map mark_client cs)"
  by (erule wf_table_weaken) (auto simp: mark_client_def wf_client_def)

lemma wf_sweep [inv_intros]: "wf_table cs \<Longrightarrow> wf_table (map sweep_client cs)"
  by (erule wf_table_weaken) (auto simp: sweep_client_def wf_client_def)

lemma mark_alive_shape:
  "mark_alive h cs = Inr (cs', evs) \<Longrightarrow> cs' = map mark_client cs"
  by (induction cs arbitrary: cs' evs) (auto simp: cbind_eq_Inr mark_client_def split: if_splits)

lemma to_one_clients:
  "handle_to_one_message h s t st = Inr st' \<Longrightarrow> clients st' = clients st"
  by (auto simp: handle_to_one_message_def cbind_eq_Inr lock_def unlock_def emit_def
      split: if_splits option.splits)

lemma to_all_clients:
  "handle_to_all_message h s t st = Inr st' \<Longrightarrow> clients st' = clients st"
  by (auto simp: handle_to_all_message_def cbind_eq_Inr lock_def unlock_def emit_def split: if_splits)

lemma list_clients:
  "handle_list_request h fd st = Inr st' \<Longrightarrow> clients st' = clients st"
  by (auto simp: handle_list_request_def cbind_eq_Inr lock_def unlock_def emit_def Let_def split: if_splits)

lemma new_client_clients:
  "handle_new_client h s fd st = Inr st' \<Longrightarrow> \<exists>r st1. add_client s fd st = Inr (r, st1) \<and> clients st' = clients st1"
  by (auto simp: handle_new_client_def cbind_eq_Inr emit_def Let_def)

lemma clients_close_fd [simp]: "clients (close_fd fd st) = clients st"
  by (simp add: close_fd_def)

lemma clients_accept [simp]: "clients (accept_new_connection_requests rs st) = clients st"
  by (induction rs st rule: accept_new_connection_requests.induct) simp_all

lemma dispatch_wf [inv_intros]:
  assumes "wf_table (clients st)" "wf_message m" "dispatch_message h fd m st = Inr st'"
  shows "wf_table (clients st')"
proof -
  have len: "length (m_sender m) = MAX_CLIENT_NAME" using assms(2) by (simp add: wf_message_def)
  have new: "wf_table (clients st')" if "handle_new_client h (m_sender m) fd st = Inr st'"
    using new_client_clients [OF that] assms(1) len
    by (auto simp: add_client_result wf_registry_insert split: if_splits)
  have stop: "wf_table (clients st')" if "handle_client_delete (m_sender m) st = Inr st'"
    using that assms(1) len
    by (auto simp: delete_result ok_name_array wf_registry_remove Let_def split: if_splits)
  have alive: "wf_table (clients st')" if "handle_got_alive_message fd st = Inr st'"
    using that assms(1) by (auto simp: got_alive_result wf_clear_awaiting split: if_splits)
  show ?thesis
    using assms(1,3) new stop alive
    by (auto simp: dispatch_message_def print_sender_def
        dest: to_one_clients to_all_clients list_clients
        split: option.splits message_type_t.splits if_splits)
qed

lemma server_step_wf [inv_intros]:
  assumes "wf_host h" "wf_table (clients st)" "server_step h i st = Inr st'"
  shows "wf_table (clients st')"
proof (cases i)
  case (Accepting rs)
  with assms show ?thesis by auto
next
  case (Event fd evs received)
  show ?thesis
  proof (cases rule: receive_message_wf [OF assms(1), of received])
    case 1
    with Event assms show ?thesis
      by (auto simp: on_epoll_event_def handle_client_message_def split: if_splits)
  next
    case (2 m)
    with Event assms show ?thesis
      by (auto simp: on_epoll_event_def handle_client_message_def intro: dispatch_wf split: if_splits)
  qed
next
  case Mark
  with assms show ?thesis
    by (auto simp: heartbeat_mark_def lock_def unlock_def emit_def cbind_eq_Inr wf_mark
        dest!: mark_alive_shape split: if_splits)
next
  case Sweep
  with assms show ?thesis by (auto simp: sweep_result fold_close_fd wf_sweep split: if_splits)
qed

lemma init_clients_result:
  "\<exists>st. init_clients boot_server = Inr st \<and> wf_table (clients st) \<and> \<not> locked st \<and>
        (\<forall>c\<in>set (clients st). \<not> c_valid c \<and> c_socket c = -1)"
  by (simp add: init_clients_def boot_server_def lock_def unlock_def wf_table_def unique_names_def
      wf_client_def init_client_def zero_client_def)

lemma server_run_wf:
  "list_all (\<lambda>(h, i). wf_host h) is \<Longrightarrow> wf_table (clients st) \<Longrightarrow> server_run is st = Inr st' \<Longrightarrow>
   wf_table (clients st')"
  by (induction "is" st rule: server_run.induct) (auto simp: cbind_eq_Inr intro: server_step_wf)

lemma server_run_append: "server_run (is @ js) st = cbind (server_run is st) (server_run js)"
  by (induction "is" st rule: server_run.induct) (auto simp: cbind_def split: sum.split)

section \<open>A concrete server\<close>

text \<open>Two clients, \<open>ann\<close> on descriptor 5 and \<open>bob\<close> on 6, for the witnesses below.\<close>

definition array64 :: "char list \<Rightarrow> char list" where
  "array64 s = s @ replicate (MAX_CLIENT_NAME - length s) NUL"

definition array512 :: "char list \<Rightarrow> char list" where
  "array512 s = s @ replicate (MAX_MESSAGE_TEXT - length s) NUL"

definition free_slot :: client_t where
  "free_slot = init_client zero_client"

definition ann_bob_server :: server where
  "ann_bob_server = \<lparr>clients =
       \<lparr>c_name = array64 ''ann'', c_socket = 5, c_valid = True, c_awaiting = False\<rparr> #
       \<lparr>c_name = array64 ''bob'', c_socket = 6, c_valid = True, c_awaiting = False\<rparr> #
       replicate 98 free_slot, locked = False, watched = [5, 6], trace = []\<rparr>"

definition text_message :: "message_type_t \<Rightarrow> char list \<Rightarrow> char list \<Rightarrow> message_t" where
  "text_message ty s t = \<lparr>m_sender = array64 s, m_type = type_word ty, m_text = array512 t, m_time = 7\<rparr>"

lemma length_arrays [simp]:
  "length s \<le> 64 \<Longrightarrow> length (array64 s) = MAX_CLIENT_NAME"
  "length s \<le> 512 \<Longrightarrow> length (array512 s) = MAX_MESSAGE_TEXT"
  by (simp_all add: array64_def array512_def wire_sizes)

lemma cstr_arrays [simp]:
  "NUL \<notin> set s \<Longrightarrow> length s < 64 \<Longrightarrow> cstr (array64 s) = s"
  "NUL \<notin> set s \<Longrightarrow> length s < 512 \<Longrightarrow> cstr (array512 s) = s"
  by (simp_all add: array64_def array512_def)

lemma terminated_array64 [simp]: "length s < 64 \<Longrightarrow> terminated (array64 s)"
  by (simp add: array64_def terminated_def wire_sizes)

lemma terminated_array512 [simp]: "length s < 512 \<Longrightarrow> terminated (array512 s)"
  by (simp add: array512_def terminated_def wire_sizes)

lemma name_key_array64 [simp]:
  "NUL \<notin> set s \<Longrightarrow> length s < 64 \<Longrightarrow> name_key (array64 s) = s"
  by (simp add: name_key_def wire_sizes)

lemma name_key_c_lit [simp]:
  "NUL \<notin> set s \<Longrightarrow> length s < 64 \<Longrightarrow> name_key (c_lit s) = s"
  by (simp add: name_key_def wire_sizes)

lemma free_slot_fields [simp]:
  "\<not> c_valid free_slot" "c_socket free_slot = -1" "c_awaiting free_slot = False"
  "length (c_name free_slot) = MAX_CLIENT_NAME"
  by (simp_all add: free_slot_def init_client_def zero_client_def)

lemma ann_bob_wf [simp]: "wf_table (clients ann_bob_server)"
proof -
  have "c_valid (replicate 98 free_slot ! n) = False" if "n < 98" for n
    using that by simp
  then show ?thesis
    by (auto simp: wf_table_def ann_bob_server_def wire_sizes wf_client_def unique_names_def nth_Cons
        split: nat.splits)
qed

lemma server_sample_host [simp]: "server_host (sample_host e)"
  by (simp add: server_host_def roomy_def) (simp add: sample_host_def wire_sizes)

lemma wf_text_message [simp]:
  "length s < 64 \<Longrightarrow> length t < 512 \<Longrightarrow> wf_message (text_message ty s t)"
  by (simp add: text_message_def wf_message_def)

lemma ann_bob_key_map [simp]:
  "key_map (clients ann_bob_server) nm =
     (if name_key nm = ''ann'' then Some 5 else if name_key nm = ''bob'' then Some 6 else None)"
proof -
  have "first_index (has_name nm) (replicate 98 free_slot) = None"
    by (simp add: first_index_None has_name_def)
  then show ?thesis
    by (auto simp: key_map_def ann_bob_server_def has_name_def)
qed

lemma ann_bob_fields [simp]:
  "\<not> locked ann_bob_server" "trace ann_bob_server = []" "watched ann_bob_server = [5, 6]"
  by (simp_all add: ann_bob_server_def)

lemma ann_bob_room [simp]: "has_room (clients ann_bob_server)"
  by (auto simp: has_room_def find_free_first_index first_index_None ann_bob_server_def)

lemma ann_bob_others:
  "map c_socket (filter (\<lambda>c. c_valid c \<and> name_key (c_name c) \<noteq> ''ann'') (clients ann_bob_server)) = [6]"
  by (simp add: ann_bob_server_def)

lemma text_message_fields [simp]:
  "m_sender (text_message ty s t) = array64 s" "m_type (text_message ty s t) = type_word ty"
  "m_text (text_message ty s t) = array512 t"
  by (simp_all add: text_message_def)

section \<open>Properties\<close>

lemma key_map_sockets:
  assumes "unique_names cs"
  shows "s \<in> set (map c_socket (filter (\<lambda>c. c_valid c \<and> name_key (c_name c) \<noteq> k) cs)) \<longleftrightarrow>
         (\<exists>nm. key_map cs nm = Some s \<and> name_key nm \<noteq> k)"
proof
  assume "s \<in> set (map c_socket (filter (\<lambda>c. c_valid c \<and> name_key (c_name c) \<noteq> k) cs))"
  then obtain i where i: "i < length cs" "c_valid (cs ! i)" "name_key (c_name (cs ! i)) \<noteq> k"
      "s = c_socket (cs ! i)"
    by (auto simp: in_set_conv_nth)
  then have "has_name (c_name (cs ! i)) (cs ! i)" by (simp add: has_name_def)
  with i key_map_Some [OF assms] show "\<exists>nm. key_map cs nm = Some s \<and> name_key nm \<noteq> k" by metis
next
  assume "\<exists>nm. key_map cs nm = Some s \<and> name_key nm \<noteq> k"
  then obtain nm i where "first_index (has_name nm) cs = Some i" "s = c_socket (cs ! i)" "name_key nm \<noteq> k"
    by (auto simp: key_map_def)
  with first_index_SomeD [of "has_name nm" cs i]
  show "s \<in> set (map c_socket (filter (\<lambda>c. c_valid c \<and> name_key (c_name c) \<noteq> k) cs))"
    by (auto simp: has_name_def intro!: image_eqI [of _ _ "cs ! i"])
qed

text \<open>
  C1: in every state the server reaches, whatever it receives and however the heartbeat
  interleaves, the table has its 100 slots and no two registered clients share a name.
\<close>

theorem registered_names_unique:
  assumes "list_all (\<lambda>(h, i). wf_host h) is" "init_clients boot_server = Inr st0" "server_run is st0 = Inr st"
  shows "length (clients st) = MAX_CLIENTS \<and> unique_names (clients st)"
proof -
  have "wf_table (clients st0)" using init_clients_result assms(2) by auto
  then have "wf_table (clients st)" using assms(1,3) by (blast intro: server_run_wf)
  then show ?thesis by (simp add: wf_table_def)
qed

lemma step_of_record:
  assumes "wf_host h" "wf_host h'" "byte_order h = byte_order h'" "wf_message m"
  shows "server_step h (Event fd EPOLLIN (Some (sent_record h' m))) st = dispatch_message h fd (received_as m) st"
  using receive_sent [OF assms(4,2,1,3)]
  by (simp add: on_epoll_event_def EPOLLIN_def EPOLLERR_def EPOLLHUP_def handle_client_message_def)

lemma empty_table_maps_nothing: "\<forall>c\<in>set cs. \<not> c_valid c \<Longrightarrow> key_map cs nm = None"
  by (auto simp: key_map_None has_name_def)

text \<open>Two registrations of different names and a stray hang-up.\<close>

theorem registered_names_unique_witness:
  "\<exists>st0 st. init_clients boot_server = Inr st0 \<and>
     server_run [(sample_host Little, Accepting [Accepted 5 True True, Accept_Failed]),
       (sample_host Little, Event 5 EPOLLIN (Some (sent_record (sample_host Little) (text_message CLIENT_NEW ''ann'' '''')))),
       (sample_host Little, Mark)] st0 = Inr st \<and>
     length (clients st) = MAX_CLIENTS \<and> unique_names (clients st) \<and> key_map (clients st) (array64 ''ann'') = Some 5"
proof -
  let ?h = "sample_host Little" and ?m = "text_message CLIENT_NEW ''ann'' ''''"
  obtain st0 where st0: "init_clients boot_server = Inr st0" "wf_table (clients st0)" "\<not> locked st0"
      "\<forall>c\<in>set (clients st0). \<not> c_valid c"
    using init_clients_result by auto
  let ?st1 = "accept_new_connection_requests [Accepted 5 True True, Accept_Failed] st0"
  have room: "has_room (clients st0)"
    using st0(2,4) by (auto simp: has_room_def find_free_first_index first_index_None wf_table_def wire_sizes)
  let ?cs = "registry_insert (clients st0) (array64 ''ann'') 5"
  have ann: "key_map ?cs (array64 ''ann'') = Some 5"
    using registry.lookup_insert [of "clients st0" "array64 ''ann''" 5 "array64 ''ann''"] st0(2) room
      empty_table_maps_nothing [OF st0(4)] by simp
  have "key_map (map mark_client ?cs) nm = key_map ?cs nm" for nm
  proof -
    have "first_index (has_name nm) (map mark_client cs) = first_index (has_name nm) cs" for cs
      by (induction cs) (simp_all add: has_name_def)
    then show ?thesis
      using first_index_SomeD [of "has_name nm" ?cs]
      by (cases "first_index (has_name nm) ?cs") (auto simp: key_map_def)
  qed
  with ann have marked: "key_map (map mark_client ?cs) (array64 ''ann'') = Some 5" by simp
  let ?is = "[(?h, Accepting [Accepted 5 True True, Accept_Failed]), (?h, Event 5 EPOLLIN (Some (sent_record ?h ?m))), (?h, Mark)]"
  obtain st where st: "server_run ?is st0 = Inr st" "clients st = map mark_client ?cs"
    using st0 empty_table_maps_nothing [OF st0(4)]
    by (auto simp: step_of_record dispatch_message_def print_sender_def handler_results simp del: server_step.simps(2))
  have "list_all (\<lambda>(h, i). wf_host h) ?is" by simp
  from registered_names_unique [OF this st0(1) st(1)] st0(1) st marked show ?thesis by auto
qed

text \<open>
  Registering a new name while a slot is free binds it to the connection, leaves every
  other name as it was, releases the mutex and answers \<open>SERVER_OK_REGISTER\<close>.
\<close>

theorem register_new_name:
  assumes "server_host h" "wf_table (clients st)" "\<not> locked st" "wf_message m"
    and "m_type m = type_word CLIENT_NEW" "terminated (m_sender m)"
    and "key_map (clients st) (m_sender m) = None" "has_room (clients st)"
  shows "\<exists>st'. dispatch_message h fd m st = Inr st' \<and> \<not> locked st' \<and> wf_table (clients st') \<and>
     (\<forall>nm. key_map (clients st') nm =
        (if name_key nm = name_key (m_sender m) then Some fd else key_map (clients st) nm)) \<and>
     trace st' = trace st @ [server_says h SERVER_OK_REGISTER (lit h ''successfully registered'') fd]"
  using assms registry.lookup_insert [of "clients st" "m_sender m"]
  by (simp add: dispatch_message_def print_sender_def new_client_result wf_message_def emit_def
      registry.inv_insert)

theorem register_new_name_witness:
  "\<exists>st'. dispatch_message (sample_host Little) 9 (text_message CLIENT_NEW ''eve'' '''') ann_bob_server = Inr st' \<and>
     key_map (clients st') (array64 ''eve'') = Some 9 \<and> key_map (clients st') (array64 ''bob'') = Some 6"
  using register_new_name [of "sample_host Little" ann_bob_server "text_message CLIENT_NEW ''eve'' ''''" 9]
  by auto

text \<open>
  With all 100 slots taken, a client with a new name is told \<open>SERVER_OK_REGISTER\<close>
  although the table is unchanged: the name stays unknown to every later message.
\<close>

theorem register_when_full:
  assumes "server_host h" "wf_table (clients st)" "\<not> locked st" "wf_message m"
    and "m_type m = type_word CLIENT_NEW" "terminated (m_sender m)"
    and "key_map (clients st) (m_sender m) = None" "\<not> has_room (clients st)"
  shows "\<exists>st'. dispatch_message h fd m st = Inr st' \<and> clients st' = clients st \<and>
     key_map (clients st') (m_sender m) = None \<and>
     trace st' = trace st @ [server_says h SERVER_OK_REGISTER (lit h ''successfully registered'') fd]"
  using assms
  by (simp add: dispatch_message_def print_sender_def new_client_result wf_message_def emit_def
      registry.insert_full)

text \<open>A table with every slot taken, by 100 distinct one-character names.\<close>

definition full_server :: server where
  "full_server = ann_bob_server\<lparr>clients := map (\<lambda>i. \<lparr>c_name = array64 [char_of (i + 1)], c_socket = int i + 10,
     c_valid = True, c_awaiting = False\<rparr>) [0..<100]\<rparr>"

lemma name_key_one_char:
  "i < 100 \<Longrightarrow> name_key (array64 [char_of (Suc i)]) = [char_of (Suc i)]"
proof -
  assume "i < 100"
  then have "char_of (Suc i) \<noteq> NUL"
    by (auto simp: char_of_eq_iff take_bit_eq_mod simp del: of_char_Char)
       (simp add: of_char_Char)
  then show ?thesis by simp
qed

lemma full_server_wf [simp]: "wf_table (clients full_server)"
  by (auto simp: wf_table_def full_server_def wire_sizes wf_client_def unique_names_def name_key_one_char)

lemma full_server_no_room [simp]: "\<not> has_room (clients full_server)"
  by (auto simp: has_room_def find_free_first_index full_server_def first_index_None)

theorem register_when_full_witness:
  "\<exists>st'. dispatch_message (sample_host Little) 9 (text_message CLIENT_NEW ''eve'' '''') full_server = Inr st' \<and>
     key_map (clients st') (array64 ''eve'') = None \<and>
     trace st' = [server_says (sample_host Little) SERVER_OK_REGISTER
        (lit (sample_host Little) ''successfully registered'') 9]"
proof -
  have "key_map (clients full_server) (array64 ''eve'') = None"
    by (auto simp: key_map_None has_name_def full_server_def name_key_one_char)
  moreover have "\<not> locked full_server" "trace full_server = []" by (simp_all add: full_server_def)
  ultimately show ?thesis
    using register_when_full [of "sample_host Little" full_server "text_message CLIENT_NEW ''eve'' ''''" 9]
    by auto
qed

text \<open>
  The inputs whose handler gets as far as locking the table: both halves of the heartbeat, and a
  readable descriptor with a message of a client type whose sender can be printed; a
  \<open>CLIENT_TO_ONE\<close> without a text dies before.
\<close>

definition locks_table :: "message_t \<Rightarrow> bool" where
  "locks_table m \<longleftrightarrow> terminated (m_sender m) \<and>
     (case type_of_word (m_type m) of
        None \<Rightarrow> False
      | Some ty \<Rightarrow> ty \<in> {CLIENT_NEW, CLIENT_STOP, CLIENT_TO_ALL, CLIENT_LIST, CLIENT_ALIVE} \<or>
          (ty = CLIENT_TO_ONE \<and> (case split_request (m_text m) of Inr (_, Some _) \<Rightarrow> True | _ \<Rightarrow> False)))"

fun wants_lock :: "host \<Rightarrow> input \<Rightarrow> bool" where
  "wants_lock h (Accepting rs) = False"
| "wants_lock h (Event fd events received) =
     (events AND EPOLLERR = 0 \<and> events AND EPOLLHUP = 0 \<and> events AND EPOLLIN \<noteq> 0 \<and>
      (case receive_message h received of Inr (_, Some m) \<Rightarrow> locks_table m | _ \<Rightarrow> False))"
| "wants_lock h Mark = True"
| "wants_lock h Sweep = True"

lemma locked_to_one:
  assumes "server_host h" "length s = MAX_CLIENT_NAME" "locked st"
  shows "handle_to_one_message h s t st =
    (case split_request t of Inl e \<Rightarrow> Inl e | Inr (_, None) \<Rightarrow> Inl Null_Deref | Inr (_, Some _) \<Rightarrow> Inl Self_Deadlock)"
  using assms
  by (auto simp: handle_to_one_message_def init_message_built server_host_def lock_def
      split: sum.split option.split prod.split)

lemma locked_dispatch:
  assumes "server_host h" "wf_message m" "locked st"
  shows "dispatch_message h fd m st = (if locks_table m then Inl Self_Deadlock
     else case type_of_word (m_type m) of
       None \<Rightarrow> Inr st
     | Some ty \<Rightarrow> if type_code ty > 5 then Inr st
         else if \<not> terminated (m_sender m) then Inl Oob_Read
         else case split_request (m_text m) of Inl e \<Rightarrow> Inl e | _ \<Rightarrow> Inl Null_Deref)"
  using assms
  by (auto simp: dispatch_message_def print_sender_def locks_table_def locked_to_one wf_message_def
      handle_new_client_def add_client_def handle_client_delete_def handle_to_all_message_def
      init_message_built handle_list_request_def got_alive_result lock_def
      split: option.splits message_type_t.splits sum.splits)

lemma locked_dispatch_idle:
  assumes "server_host h" "wf_message m" "locked st" "dispatch_message h fd m st = Inr st'"
  shows "st' = st \<and> \<not> locks_table m"
  using assms(4) unfolding locked_dispatch [OF assms(1-3)]
  by (auto split: if_splits option.splits sum.splits)

text \<open>With the mutex left locked, a step blocks or leaves the table and the clients alone.\<close>

lemma locked_accept [simp]: "locked (accept_new_connection_requests rs st) = locked st"
    "trace (accept_new_connection_requests rs st) = trace st"
  by (induction rs st rule: accept_new_connection_requests.induct) simp_all

lemma locked_step_blocks:
  assumes "server_host h" "locked st" "wants_lock h i"
  shows "server_step h i st = Inl Self_Deadlock"
proof (cases i)
  case (Event fd events received)
  show ?thesis
  proof (cases rule: receive_message_wf [OF server_host_wf [OF assms(1)], of received])
    case 1
    with Event assms(3) show ?thesis by simp
  next
    case (2 m)
    with Event assms(3) have "locks_table m" by simp
    with 2 Event assms show ?thesis
      by (simp add: on_epoll_event_def handle_client_message_def locked_dispatch)
  qed
qed (use assms in \<open>simp_all add: handler_results\<close>)

lemma locked_step_idle:
  assumes "server_host h" "locked st" "server_step h i st = Inr st'"
  shows "\<not> wants_lock h i \<and> locked st' \<and> clients st' = clients st \<and> (\<exists>fds. trace st' = trace st @ map Closed fds)"
proof -
  have idle: "\<not> wants_lock h i" using locked_step_blocks [OF assms(1,2)] assms(3) by fastforce
  moreover have "locked st' \<and> clients st' = clients st \<and> (\<exists>fds. trace st' = trace st @ map Closed fds)"
  proof (cases i)
    case (Accepting rs)
    with assms(2,3) show ?thesis by (auto intro: exI [of _ "[]"])
  next
    case (Event fd events received)
    have closed: ?thesis if "st' = close_fd fd st"
      using that assms(2) by (auto simp: close_fd_def intro: exI [of _ "[fd]"])
    have same: ?thesis if "st' = st" using that assms(2) by (auto intro: exI [of _ "[]"])
    have "st' = close_fd fd st \<or> st' = st"
    proof (cases rule: receive_message_wf [OF server_host_wf [OF assms(1)], of received])
      case 1
      with Event assms(3) show ?thesis
        by (auto simp: on_epoll_event_def handle_client_message_def split: if_splits)
    next
      case (2 m)
      with Event assms(3) locked_dispatch_idle [OF assms(1) _ assms(2)] show ?thesis
        by (auto simp: on_epoll_event_def handle_client_message_def split: if_splits)
    qed
    with closed same show ?thesis by blast
  qed (use idle in simp_all)
  ultimately show ?thesis by blast
qed

lemma locked_run_idle:
  assumes "list_all (\<lambda>(h, i). server_host h) is" "locked st" "server_run is st = Inr st'"
  shows "list_all (\<lambda>(h, i). \<not> wants_lock h i) is \<and> locked st' \<and> clients st' = clients st \<and>
    (\<exists>fds. trace st' = trace st @ map Closed fds)"
  using assms
proof (induction "is" st rule: server_run.induct)
  case (1 st)
  then show ?case by (auto intro: exI [of _ "[]"])
next
  case (2 h i "is" st)
  then obtain st1 where st1: "server_step h i st = Inr st1" "server_run is st1 = Inr st'"
    by (auto simp: cbind_eq_Inr)
  have h: "server_host h" "list_all (\<lambda>(h, i). server_host h) is" using 2(2) by simp_all
  from locked_step_idle [OF h(1) 2(3) st1(1)] obtain fds where
    s: "\<not> wants_lock h i" "locked st1" "clients st1 = clients st" "trace st1 = trace st @ map Closed fds" by blast
  from 2(1) [OF h(2) s(2) st1(2)] obtain fds' where
    "list_all (\<lambda>(h, i). \<not> wants_lock h i) is" "locked st'" "clients st' = clients st1"
    "trace st' = trace st1 @ map Closed fds'" by blast
  with s show ?case by (auto intro: exI [of _ "fds @ fds'"])
qed

text \<open>
  C9: registering a name that is taken answers \<open>SERVER_FAILURE_REGISTER\<close> and returns with the
  mutex locked, and no run unlocks it again. In every run from there on the table stays as it is
  and nothing is sent to anyone; the steps that still succeed are those that need no lock
  (connections accepted, hang-ups closed, messages of no client type), and every handler that
  comes to lock the table blocks for ever: both halves of the heartbeat, and every client
  message whose handler does not crash before.
\<close>

theorem duplicate_name_deadlocks:
  assumes "server_host h" "wf_table (clients st)" "\<not> locked st" "wf_message m"
    and "m_type m = type_word CLIENT_NEW" "terminated (m_sender m)"
    and "key_map (clients st) (m_sender m) \<noteq> None"
  shows "\<exists>st1. dispatch_message h fd m st = Inr st1 \<and> clients st1 = clients st \<and>
     trace st1 = trace st @ [server_says h SERVER_FAILURE_REGISTER (lit h ''identifier already taken'') fd] \<and>
     (\<forall>is st2. list_all (\<lambda>(h, i). server_host h) is \<and> server_run is st1 = Inr st2 \<longrightarrow>
        locked st2 \<and> clients st2 = clients st \<and> (\<exists>fds. trace st2 = trace st1 @ map Closed fds) \<and>
        list_all (\<lambda>(h, i). \<not> wants_lock h i) is \<and>
        (\<forall>h' i. server_host h' \<and> wants_lock h' i \<longrightarrow> server_step h' i st2 = Inl Self_Deadlock))"
proof -
  let ?st = "emit [server_says h SERVER_FAILURE_REGISTER (lit h ''identifier already taken'') fd]
    (st\<lparr>locked := True\<rparr>)"
  have "dispatch_message h fd m st = Inr ?st"
    using assms by (simp add: dispatch_message_def print_sender_def new_client_result wf_message_def)
  moreover have l: "locked ?st" "clients ?st = clients st" by (simp_all add: emit_def)
  moreover have "locked st2 \<and> clients st2 = clients st \<and> (\<exists>fds. trace st2 = trace ?st @ map Closed fds) \<and>
        list_all (\<lambda>(h, i). \<not> wants_lock h i) is \<and>
        (\<forall>h' i. server_host h' \<and> wants_lock h' i \<longrightarrow> server_step h' i st2 = Inl Self_Deadlock)"
    if run: "list_all (\<lambda>(h, i). server_host h) is" "server_run is ?st = Inr st2" for "is" st2
    using locked_run_idle [OF run(1) l(1) run(2)] l(2) locked_step_blocks by metis
  moreover have "trace ?st = trace st @ [server_says h SERVER_FAILURE_REGISTER (lit h ''identifier already taken'') fd]"
    by simp
  ultimately show ?thesis by blast
qed

text \<open>After a second \<open>bob\<close> a hang-up is still handled; then a \<open>to_one\<close> from \<open>ann\<close> blocks.\<close>

theorem duplicate_name_deadlocks_witness:
  "\<exists>st1 st2. dispatch_message (sample_host Little) 9 (text_message CLIENT_NEW ''bob'' '''') ann_bob_server = Inr st1 \<and>
     server_run [(sample_host Little, Event 9 EPOLLHUP None)] st1 = Inr st2 \<and> locked st2 \<and>
     server_step (sample_host Little) (Event 5 EPOLLIN (Some (sent_record (sample_host Little)
       (text_message CLIENT_TO_ONE ''ann'' ''bob hi'')))) st2 = Inl Self_Deadlock"
proof -
  let ?h = "sample_host Little" and ?m = "text_message CLIENT_TO_ONE ''ann'' ''bob hi''"
  let ?is = "[(?h, Event 9 EPOLLHUP None)]"
  have "terminated (m_sender (text_message CLIENT_NEW ''bob'' ''''))" by simp
  then obtain st1 where st1: "dispatch_message ?h 9 (text_message CLIENT_NEW ''bob'' '''') ann_bob_server = Inr st1"
      "\<And>is st2. list_all (\<lambda>(h, i). server_host h) is \<and> server_run is st1 = Inr st2 \<Longrightarrow> locked st2 \<and>
        (\<forall>h' i. server_host h' \<and> wants_lock h' i \<longrightarrow> server_step h' i st2 = Inl Self_Deadlock)"
    using duplicate_name_deadlocks [of ?h ann_bob_server "text_message CLIENT_NEW ''bob'' ''''" 9]
    by (simp del: server_run.simps) blast
  have run: "server_run ?is st1 = Inr (close_fd 9 st1)"
    by (simp add: on_epoll_event_def EPOLLHUP_def)
  have "split_request (array512 ''bob hi'') = Inr (Some ''bob'', Some 4)"
    by (simp add: split_request_def Let_def)
  then have "locks_table (received_as ?m)" by (simp add: locks_table_def)
  moreover have "receive_message ?h (Some (sent_record ?h ?m)) = Inr (0, Some (received_as ?m))"
    by (rule receive_sent) simp_all
  ultimately have "wants_lock ?h (Event 5 EPOLLIN (Some (sent_record ?h ?m)))"
    by (simp add: EPOLLIN_def EPOLLERR_def EPOLLHUP_def)
  moreover have "list_all (\<lambda>(h, i). server_host h) ?is" by simp
  ultimately have "server_step ?h (Event 5 EPOLLIN (Some (sent_record ?h ?m))) (close_fd 9 st1) = Inl Self_Deadlock"
    "locked (close_fd 9 st1)"
    using st1(2) [of ?is "close_fd 9 st1"] run by (simp_all del: server_step.simps server_run.simps wants_lock.simps)
  with st1(1) run show ?thesis by blast
qed

lemma to_all_dispatch:
  assumes "server_host h" "wf_table (clients st)" "\<not> locked st" "wf_message m"
    and "m_type m = type_word CLIENT_TO_ALL" "terminated (m_sender m)"
  shows "dispatch_message h fd m st =
    Inr (emit (map (deliver h (built_message h (m_sender m) SERVER_CHAT_MESSAGE (m_text m)))
      (map c_socket (filter (\<lambda>c. c_valid c \<and> name_key (c_name c) \<noteq> name_key (m_sender m)) (clients st)))) st)"
  using assms by (simp add: dispatch_message_def print_sender_def to_all_result comp_def wf_message_def)

text \<open>
  A \<open>CLIENT_TO_ALL\<close> message is sent once, in slot order, to the sockets of exactly the
  registered clients whose name is not the sender's, as a record that a receiver of the
  same byte order decodes to a chat message with the sender's name and the whole text; and
  the table is unchanged.
\<close>

theorem to_all_reaches_all_others:
  assumes "server_host h" "wf_table (clients st)" "\<not> locked st" "wf_message m"
    and "m_type m = type_word CLIENT_TO_ALL" "terminated (m_sender m)"
  shows "\<exists>st' msg sockets. dispatch_message h fd m st = Inr st' \<and> clients st' = clients st \<and> \<not> locked st' \<and>
     trace st' = trace st @ map (deliver h msg) sockets \<and>
     sockets = map c_socket (filter (\<lambda>c. c_valid c \<and> name_key (c_name c) \<noteq> name_key (m_sender m)) (clients st)) \<and>
     (\<forall>s. s \<in> set sockets \<longleftrightarrow> (\<exists>nm. key_map (clients st) nm = Some s \<and> name_key nm \<noteq> name_key (m_sender m))) \<and>
     received_message h (sent_record h msg) = Some (received_as msg) \<and>
     m_sender msg = m_sender m \<and> m_text msg = m_text m \<and> m_type msg = type_word SERVER_CHAT_MESSAGE"
proof -
  let ?msg = "built_message h (m_sender m) SERVER_CHAT_MESSAGE (m_text m)"
  let ?s = "map c_socket (filter (\<lambda>c. c_valid c \<and> name_key (c_name c) \<noteq> name_key (m_sender m)) (clients st))"
  let ?st = "emit (map (deliver h ?msg) ?s) st"
  have len: "length (m_sender m) = MAX_CLIENT_NAME" "length (m_text m) = MAX_MESSAGE_TEXT"
    using assms(4) by (simp_all add: wf_message_def)
  have "dispatch_message h fd m st = Inr ?st"
    using to_all_dispatch [OF assms] .
  moreover have "received_message h (sent_record h ?msg) = Some (received_as ?msg)"
    using assms(1) len by (intro wire.dec_enc) simp
  moreover have "unique_names (clients st)" using assms(2) by (simp add: wf_table_def)
  ultimately show ?thesis
    using assms(3) len key_map_sockets
    by (intro exI [of _ ?st] exI [of _ ?msg] exI [of _ ?s]) (auto simp: emit_def built_message_def)
qed

theorem to_all_reaches_all_others_witness:
  "\<exists>st' msg. dispatch_message (sample_host Big) 5 (text_message CLIENT_TO_ALL ''ann'' ''hi'') ann_bob_server = Inr st' \<and>
     trace st' = [deliver (sample_host Big) msg 6] \<and> m_text msg = array512 ''hi''"
  using to_all_reaches_all_others [of "sample_host Big" ann_bob_server "text_message CLIENT_TO_ALL ''ann'' ''hi''" 5]
  by (auto simp: ann_bob_others)

text \<open>\<open>split_request\<close> on a well-formed request: a word, one space, and a non-empty rest.\<close>

lemma split_request_word:
  assumes "CHR '' '' \<notin> set w" "NUL \<notin> set w" "w \<noteq> []" "NUL \<notin> set body" "body \<noteq> []"
  shows "split_request (w @ CHR '' '' # body @ NUL # junk) = Inr (Some w, Some (Suc (length w)))"
proof -
  have c: "cstr (w @ CHR '' '' # body @ NUL # junk) = w @ CHR '' '' # body"
    using cstr_append [of "w @ CHR '' '' # body"] assms by simp
  have w: "takeWhile (\<lambda>c. c \<noteq> CHR '' '') (w @ CHR '' '' # body) = w"
    using assms(1) by (induction w) auto
  have k: "takeWhile (\<lambda>c. c = CHR '' '') (w @ CHR '' '' # body) = []"
    using assms(1,3) by (cases w) auto
  show ?thesis
    using assms by (simp add: split_request_def terminated_def c k w Let_def)
qed

text \<open>The message the server makes of a request "name text".\<close>

definition forwarded :: "host \<Rightarrow> message_t \<Rightarrow> char list \<Rightarrow> message_t" where
  "forwarded h m w = built_message h (m_sender m) SERVER_CHAT_MESSAGE (drop (Suc (length w)) (m_text m) @ past_text h)"

lemma to_one_dispatch:
  assumes "server_host h" "wf_table (clients st)" "\<not> locked st" "wf_message m"
    and "m_type m = type_word CLIENT_TO_ONE" "terminated (m_sender m)"
    and "m_text m = w @ CHR '' '' # body @ NUL # junk"
    and "CHR '' '' \<notin> set w" "NUL \<notin> set w" "w \<noteq> []" "NUL \<notin> set body" "body \<noteq> []"
  shows "dispatch_message h fd m st = Inr (emit (case key_map (clients st) (c_lit w) of
        None \<Rightarrow> [] | Some s \<Rightarrow> [deliver h (forwarded h m w) s]) st)"
    "wf_message (forwarded h m w) \<and> m_sender (forwarded h m w) = m_sender m \<and> cstr (m_text (forwarded h m w)) = body"
proof -
  let ?rest = "body @ NUL # junk @ past_text h"
  let ?msg = "built_message h (m_sender m) SERVER_CHAT_MESSAGE ?rest"
  have sender: "length (m_sender m) = MAX_CLIENT_NAME" and tlen: "length (m_text m) = MAX_MESSAGE_TEXT"
    using assms(4) by (simp_all add: wf_message_def)
  have long: "MAX_MESSAGE_TEXT \<le> length ?rest" using assms(1) by (simp add: server_host_def)
  have fwd: "forwarded h m w = ?msg" by (simp add: forwarded_def assms(7))
  have body: "length body < MAX_MESSAGE_TEXT" using tlen assms(7) by simp
  have take: "take MAX_MESSAGE_TEXT ?rest = body @ NUL # take (MAX_MESSAGE_TEXT - Suc (length body)) (junk @ past_text h)"
    using body by (simp add: take_Cons')
  show msg: "wf_message (forwarded h m w) \<and> m_sender (forwarded h m w) = m_sender m \<and> cstr (m_text (forwarded h m w)) = body"
    unfolding fwd using sender long assms(11) wf_built [OF _ long, of "m_sender m"]
    by (simp add: built_message_def take cstr_append del: take_append)
  have find: "find_name (clients st) (Some (c_lit w)) = Inr (first_index (has_name (c_lit w)) (clients st))"
    using assms(2) by (simp add: wf_table_find readable_terminated)
  show "dispatch_message h fd m st = Inr (emit (case key_map (clients st) (c_lit w) of
        None \<Rightarrow> [] | Some s \<Rightarrow> [deliver h (forwarded h m w) s]) st)"
    using assms(1,3,5,6,7) sender long msg find unfolding fwd
    by (cases st; cases "first_index (has_name (c_lit w)) (clients st)")
       (simp_all add: dispatch_message_def print_sender_def handle_to_one_message_def assms(8-12)
          split_request_word init_message_built lock_def unlock_def key_map_def
          send_message_deliver emit_def)
qed

text \<open>
  A \<open>CLIENT_TO_ONE\<close> message "name text" is sent to the socket registered under that name
  and to no other, with the text after the name as its text; to an unknown name nothing is
  sent. The table is unchanged.
\<close>

theorem to_one_reaches_named_client:
  assumes "server_host h" "wf_table (clients st)" "\<not> locked st" "wf_message m"
    and "m_type m = type_word CLIENT_TO_ONE" "terminated (m_sender m)"
    and "m_text m = w @ CHR '' '' # body @ NUL # junk"
    and "CHR '' '' \<notin> set w" "NUL \<notin> set w" "w \<noteq> []" "NUL \<notin> set body" "body \<noteq> []"
  shows "\<exists>st' msg. dispatch_message h fd m st = Inr st' \<and> clients st' = clients st \<and> \<not> locked st' \<and>
     trace st' = trace st @ (case key_map (clients st) (c_lit w) of
        None \<Rightarrow> [] | Some s \<Rightarrow> [deliver h msg s]) \<and>
     wf_message msg \<and> m_sender msg = m_sender m \<and> cstr (m_text msg) = body"
  using to_one_dispatch(1) [OF assms, of fd] to_one_dispatch(2) [OF assms] assms(3) by auto

theorem to_one_reaches_named_client_witness:
  "\<exists>st' msg. dispatch_message (sample_host Little) 5 (text_message CLIENT_TO_ONE ''ann'' ''bob hi'') ann_bob_server = Inr st' \<and>
     trace st' = [deliver (sample_host Little) msg 6] \<and> cstr (m_text msg) = ''hi''"
  using to_one_reaches_named_client [of "sample_host Little" ann_bob_server
      "text_message CLIENT_TO_ONE ''ann'' ''bob hi''" "''bob''" "''hi''" "replicate 505 NUL" 5]
  by (auto simp: array512_def wire_sizes numeral_eq_Suc)

text \<open>
  A \<open>CLIENT_TO_ONE\<close> message without a text after its first word makes the server copy
  512 bytes from a null pointer, whoever sends it and whatever state the server is in.
\<close>

theorem to_one_without_text_crashes:
  assumes "wf_message m" "m_type m = type_word CLIENT_TO_ONE" "terminated (m_sender m)"
    and "terminated (m_text m)" "CHR '' '' \<notin> set (cstr (m_text m))"
  shows "dispatch_message h fd m st = Inl Null_Deref"
proof -
  let ?s = "cstr (m_text m)"
  have all: "takeWhile (\<lambda>c. c \<noteq> CHR '' '') ?s = ?s"
    using assms(5) by (induction ?s) (auto simp: takeWhile_eq_all_conv)
  have none: "takeWhile (\<lambda>c. c = CHR '' '') ?s = []"
    using assms(5) by (cases ?s) auto
  have "\<exists>r. split_request (m_text m) = Inr (r, None)"
    using assms(4) by (simp add: split_request_def Let_def all none)
  with assms(1-3) show ?thesis
    by (auto simp: dispatch_message_def print_sender_def handle_to_one_message_def)
qed

theorem to_one_without_text_crashes_witness:
  "dispatch_message (sample_host Little) 5 (text_message CLIENT_TO_ONE ''ann'' ''bob'') ann_bob_server = Inl Null_Deref"
  using to_one_without_text_crashes [of "text_message CLIENT_TO_ONE ''ann'' ''bob''" "sample_host Little" 5 ann_bob_server]
  by simp

text \<open>
  C36: \<open>CLIENT_LIST\<close> is answered, on the asking connection, with the registered names in slot
  order, one per line, when they and their newlines take fewer than 512 bytes together;
  otherwise \<open>strcat\<close> writes past the 512-byte buffer.
\<close>

theorem list_request_fits_or_overflows:
  assumes "server_host h" "\<not> locked st" "wf_message m" "m_type m = type_word CLIENT_LIST"
    and "terminated (m_sender m)" "\<forall>c\<in>set (clients st). c_valid c \<longrightarrow> terminated (c_name c)"
  shows "dispatch_message h fd m st =
     (if length (listing (clients st)) < MAX_MESSAGE_TEXT
      then Inr (emit [server_says h SERVER_LIST_MESSAGE (list_buffer h (listing (clients st))) fd] st)
      else Inl Oob_Write) \<and>
   (length (listing (clients st)) < MAX_MESSAGE_TEXT \<longrightarrow>
      cstr (list_buffer h (listing (clients st))) = listing (clients st))"
proof -
  have "NUL \<notin> set (listing (clients st))"
    by (auto simp: listing_def NUL_notin_cstr)
  with assms show ?thesis
    by (simp add: dispatch_message_def print_sender_def list_request_result list_buffer_def cstr_append)
qed

theorem list_request_fits_or_overflows_witness:
  "\<exists>b. dispatch_message (sample_host Little) 6 (text_message CLIENT_LIST ''bob'' '''') ann_bob_server =
     Inr (emit [server_says (sample_host Little) SERVER_LIST_MESSAGE b 6] ann_bob_server) \<and>
     cstr b = ''ann'' @ [CHR 0x0A] @ ''bob'' @ [CHR 0x0A]"
proof -
  have l: "listing (clients ann_bob_server) = ''ann'' @ [CHR 0x0A] @ ''bob'' @ [CHR 0x0A]"
    by (simp add: listing_def ann_bob_server_def)
  have t: "\<forall>c\<in>set (clients ann_bob_server). c_valid c \<longrightarrow> terminated (c_name c)"
    by (auto simp: ann_bob_server_def)
  show ?thesis
    using list_request_fits_or_overflows [OF server_sample_host _ _ _ _ t,
        of "text_message CLIENT_LIST ''bob'' ''''" Little 6]
    by (auto simp: l wire_sizes)
qed

text \<open>
  A registered client that stops is unregistered and its socket closed; every other name
  keeps its socket. A stop under an unknown name changes nothing.
\<close>

theorem stop_unregisters:
  assumes "wf_table (clients st)" "\<not> locked st" "wf_message m" "m_type m = type_word CLIENT_STOP"
    and "terminated (m_sender m)"
  shows "\<exists>st'. dispatch_message h fd m st = Inr st' \<and> wf_table (clients st') \<and> \<not> locked st' \<and>
     (\<forall>nm. key_map (clients st') nm =
        (if name_key nm = name_key (m_sender m) then None else key_map (clients st) nm)) \<and>
     trace st' = trace st @ (case key_map (clients st) (m_sender m) of
        None \<Rightarrow> [] | Some s \<Rightarrow> if s = -1 then [] else [Closed s])"
proof -
  have len: "length (m_sender m) = MAX_CLIENT_NAME" using assms(3) by (simp add: wf_message_def)
  then have "dispatch_message h fd m st = handle_client_delete (m_sender m) st"
    using assms(4,5) by (simp add: dispatch_message_def print_sender_def)
  also have "\<dots> = Inr (let st' = st\<lparr>clients := registry_remove (clients st) (m_sender m)\<rparr>;
       s = (case key_map (clients st) (m_sender m) of None \<Rightarrow> -1 | Some s \<Rightarrow> s)
     in if s \<noteq> -1 then close_fd s st' else st')"
    using assms(1,2) len by (simp add: delete_result ok_name_array Let_def)
  finally show ?thesis
    using registry.lookup_remove [OF assms(1) len] registry.inv_remove [OF assms(1) len] assms(2)
    by (auto simp: Let_def close_fd_def split: option.split)
qed

theorem stop_unregisters_witness:
  "\<exists>st'. dispatch_message (sample_host Little) 5 (text_message CLIENT_STOP ''ann'' '''') ann_bob_server = Inr st' \<and>
     key_map (clients st') (array64 ''ann'') = None \<and> key_map (clients st') (array64 ''bob'') = Some 6 \<and>
     trace st' = [Closed 5]"
  using stop_unregisters [of ann_bob_server "text_message CLIENT_STOP ''ann'' ''''" "sample_host Little" 5]
  by auto

text \<open>
  When epoll reports a hang-up the descriptor is closed but the client stays registered
  under it, so that its name still leads to a descriptor number the kernel may hand to the
  next connection.
\<close>

theorem hangup_keeps_registration:
  assumes "key_map (clients st) nm = Some fd" "events AND EPOLLHUP \<noteq> 0"
  shows "\<exists>st'. on_epoll_event h fd events received st = Inr st' \<and>
     trace st' = trace st @ [Closed fd] \<and> fd \<notin> set (watched st') \<and> key_map (clients st') nm = Some fd"
  using assms by (simp add: on_epoll_event_def close_fd_def)

theorem hangup_keeps_registration_witness:
  "\<exists>st'. on_epoll_event (sample_host Little) 5 17 None ann_bob_server = Inr st' \<and>
     trace st' = [Closed 5] \<and> key_map (clients st') (array64 ''ann'') = Some 5"
  using hangup_keeps_registration [of ann_bob_server "array64 ''ann''" 5 17 "sample_host Little" None]
  by (auto simp: EPOLLHUP_def)

subsection \<open>The heartbeat\<close>

definition alive_input :: "host \<Rightarrow> message_t \<Rightarrow> int \<Rightarrow> input" where
  "alive_input h m fd = Event fd EPOLLIN (Some (sent_record h m))"

text \<open>
  An earlier slot, in use or not, holds the same descriptor number: \<open>handle_got_alive_message\<close>
  stops there.
\<close>

definition shadowed :: "client_t list \<Rightarrow> nat \<Rightarrow> bool" where
  "shadowed cs i \<longleftrightarrow> (\<exists>j<i. c_socket (cs ! j) = c_socket (cs ! i))"

lemma clear_awaiting_fields [simp]:
  "i < length cs \<Longrightarrow> c_valid (clear_awaiting fd cs ! i) = c_valid (cs ! i)"
  "i < length cs \<Longrightarrow> c_socket (clear_awaiting fd cs ! i) = c_socket (cs ! i)"
  "i < length cs \<Longrightarrow> c_name (clear_awaiting fd cs ! i) = c_name (cs ! i)"
  by (simp_all add: clear_awaiting_nth)

lemma shadowed_clear [simp]: "i < length cs \<Longrightarrow> shadowed (clear_awaiting fd cs) i = shadowed cs i"
  by (auto simp: shadowed_def)

lemma clear_awaiting_flag:
  assumes "i < length cs"
  shows "c_awaiting (clear_awaiting fd cs ! i) \<longleftrightarrow> c_awaiting (cs ! i) \<and> (c_socket (cs ! i) = fd \<longrightarrow> shadowed cs i)"
proof (cases "first_index (\<lambda>c. c_socket c = fd) cs = Some i")
  case True
  with assms show ?thesis by (auto simp: clear_awaiting_nth first_index_Some shadowed_def)
next
  case False
  with assms show ?thesis by (auto simp: clear_awaiting_nth first_index_Some shadowed_def)
qed

text \<open>An input the server answers by clearing the outstanding heartbeat of descriptor \<open>fd\<close>.\<close>

definition shows_alive :: "host \<times> input \<Rightarrow> int \<Rightarrow> bool" where
  "shows_alive = (\<lambda>(h, i) fd. \<forall>st. server_step h i st = handle_got_alive_message fd st)"

lemma dispatch_alive:
  "m_type m = type_word CLIENT_ALIVE \<Longrightarrow> terminated (m_sender m) \<Longrightarrow>
   dispatch_message h fd m st = handle_got_alive_message fd st"
  by (simp add: dispatch_message_def print_sender_def)

lemma shows_alive_input:
  "wf_host h \<Longrightarrow> wf_host h' \<Longrightarrow> byte_order h = byte_order h' \<Longrightarrow> wf_message m \<Longrightarrow>
   m_type m = type_word CLIENT_ALIVE \<Longrightarrow> terminated (m_sender m) \<Longrightarrow> shows_alive (h, alive_input h' m fd) fd"
  by (simp add: shows_alive_def alive_input_def step_of_record dispatch_alive del: server_step.simps)

lemma alive_run:
  assumes "list_all2 shows_alive ins fds" "\<not> locked st"
  shows "server_run (ins @ is) st = server_run is (st\<lparr>clients := fold clear_awaiting fds (clients st)\<rparr>)"
  using assms
proof (induction arbitrary: st rule: list_all2_induct)
  case (Cons x xs fd fds)
  then show ?case
    by (cases x) (simp add: shows_alive_def got_alive_result del: server_step.simps)
qed simp

lemma length_fold_clear [simp]: "length (fold clear_awaiting fds cs) = length cs"
  by (induction fds arbitrary: cs) simp_all

lemma fold_clear_awaiting:
  assumes "i < length cs"
  shows "c_valid (fold clear_awaiting fds cs ! i) = c_valid (cs ! i)"
    "c_socket (fold clear_awaiting fds cs ! i) = c_socket (cs ! i)"
    "c_name (fold clear_awaiting fds cs ! i) = c_name (cs ! i)"
    "c_awaiting (fold clear_awaiting fds cs ! i) \<longleftrightarrow>
       c_awaiting (cs ! i) \<and> (c_socket (cs ! i) \<in> set fds \<longrightarrow> shadowed cs i)"
  using assms by (induction fds arbitrary: cs) (auto simp: clear_awaiting_flag)

text \<open>The slot whose client is still registered after a round with answers on \<open>fds\<close>.\<close>

definition stays :: "int set \<Rightarrow> client_t list \<Rightarrow> nat \<Rightarrow> bool" where
  "stays answered cs i \<longleftrightarrow> c_socket (cs ! i) \<in> answered \<and> \<not> shadowed cs i"

lemma filter_as_nth: "filter P xs = map (\<lambda>i. xs ! i) (filter (\<lambda>i. P (xs ! i)) [0..<length xs])"
  by (subst map_nth [of xs, symmetric]) (simp add: filter_map comp_def)

text \<open>
  A round of the heartbeat, slot by slot: who is asked, who stays, and whose socket is
  closed.
\<close>

definition heartbeat_outcome :: "host \<Rightarrow> int set \<Rightarrow> server \<Rightarrow> server \<Rightarrow> bool" where
  "heartbeat_outcome h answered st st' \<longleftrightarrow>
     length (clients st') = length (clients st) \<and>
     (\<forall>i<length (clients st).
        c_name (clients st' ! i) = c_name (clients st ! i) \<and>
        c_socket (clients st' ! i) = c_socket (clients st ! i) \<and>
        (c_valid (clients st' ! i) \<longleftrightarrow> c_valid (clients st ! i) \<and> stays answered (clients st) i)) \<and>
     trace st' = trace st @
       map (\<lambda>c. server_says h SERVER_CHECK_ALIVE (lit h '''') (c_socket c)) (filter c_valid (clients st)) @
       map (\<lambda>i. Closed (c_socket (clients st ! i)))
         (filter (\<lambda>i. c_valid (clients st ! i) \<and> \<not> stays answered (clients st) i) [0..<length (clients st)]) \<and>
     \<not> locked st'"

lemma heartbeat_keeps:
  assumes "server_host h" "\<not> locked st" "list_all2 shows_alive ins fds"
  shows "\<exists>st'. server_run ((h, Mark) # ins @ [(h', Sweep)]) st = Inr st' \<and> heartbeat_outcome h (set fds) st st'"
proof -
  define cs1 where "cs1 = map mark_client (clients st)"
  define cs2 where "cs2 = fold clear_awaiting fds cs1"
  let ?evs = "map (\<lambda>c. server_says h SERVER_CHECK_ALIVE (lit h '''') (c_socket c)) (filter c_valid (clients st))"
  let ?st' = "fold close_fd (dead_sockets cs2) (emit ?evs (st\<lparr>clients := map sweep_client cs2\<rparr>))"
  have mark: "heartbeat_mark h st = Inr (emit ?evs (st\<lparr>clients := cs1\<rparr>))"
    using assms(1,2) by (simp add: mark_result cs1_def)
  have run: "server_run ((h, Mark) # ins @ [(h', Sweep)]) st = Inr ?st'"
    using assms(2) mark alive_run [OF assms(3), of "emit ?evs (st\<lparr>clients := cs1\<rparr>)" "[(h', Sweep)]"]
    by (simp add: sweep_result cs2_def)
  have len: "length cs1 = length (clients st)" "length cs2 = length (clients st)"
    by (simp_all add: cs1_def cs2_def)
  have at: "c_name (cs2 ! i) = c_name (clients st ! i) \<and> c_socket (cs2 ! i) = c_socket (clients st ! i) \<and>
      c_valid (cs2 ! i) = c_valid (clients st ! i) \<and>
      (c_valid (clients st ! i) \<longrightarrow> c_awaiting (cs2 ! i) = (\<not> stays (set fds) (clients st) i))"
    if i: "i < length (clients st)" for i
  proof -
    have c1: "cs1 ! j = mark_client (clients st ! j)" if "j \<le> i" for j
      using that i by (simp add: cs1_def)
    then have "shadowed cs1 i = shadowed (clients st) i" by (auto simp: shadowed_def)
    with c1 [of i] i len fold_clear_awaiting [of i cs1 fds] show ?thesis
      by (auto simp: cs2_def stays_def)
  qed
  have "dead_sockets cs2 = map (\<lambda>i. c_socket (clients st ! i))
      (filter (\<lambda>i. c_valid (clients st ! i) \<and> \<not> stays (set fds) (clients st) i) [0..<length (clients st)])"
    unfolding dead_sockets_def filter_as_nth [of _ cs2] len
    using at by (auto simp: comp_def intro!: map_cong filter_cong)
  with at len assms(2) have "heartbeat_outcome h (set fds) st ?st'"
    by (auto simp: heartbeat_outcome_def fold_close_fd comp_def)
  with run show ?thesis by blast
qed

text \<open>
  C21: one round of the heartbeat, with \<open>CLIENT_ALIVE\<close> answers arriving between its two halves
  on some descriptors: every registered client is asked; a client stays registered, with its
  name and socket, exactly when an answer came on its descriptor and no earlier slot of the
  array, used or left behind, has the same descriptor number; and the sockets of all the
  others are closed, in slot order. So an answer on a descriptor that a stale slot still holds
  clears the stale slot's flag, and the client that answered is unregistered.
\<close>

theorem heartbeat_round:
  assumes "server_host h" "\<not> locked st"
    and "list_all (\<lambda>(h1, h2, m, fd). wf_host h1 \<and> wf_host h2 \<and> byte_order h1 = byte_order h2 \<and> wf_message m \<and>
      m_type m = type_word CLIENT_ALIVE \<and> terminated (m_sender m)) answers"
    and "answered = (\<lambda>(h1, h2, m, fd). fd) ` set answers"
  shows "\<exists>st'. server_run ((h, Mark) # map (\<lambda>(h1, h2, m, fd). (h1, alive_input h2 m fd)) answers @ [(h', Sweep)]) st = Inr st' \<and>
     trace st' = trace st @
       map (\<lambda>c. server_says h SERVER_CHECK_ALIVE (lit h '''') (c_socket c)) (filter c_valid (clients st)) @
       map (\<lambda>i. Closed (c_socket (clients st ! i)))
         (filter (\<lambda>i. c_valid (clients st ! i) \<and> \<not> stays answered (clients st) i) [0..<length (clients st)]) \<and>
     (\<forall>i<length (clients st).
        c_name (clients st' ! i) = c_name (clients st ! i) \<and> c_socket (clients st' ! i) = c_socket (clients st ! i) \<and>
        (c_valid (clients st' ! i) \<longleftrightarrow> c_valid (clients st ! i) \<and> c_socket (clients st ! i) \<in> answered \<and>
           (\<forall>j<i. c_socket (clients st ! j) \<noteq> c_socket (clients st ! i))))"
proof -
  let ?ins = "map (\<lambda>(h1, h2, m, fd). (h1, alive_input h2 m fd)) answers"
  let ?fds = "map (\<lambda>(h1, h2, m, fd). fd) answers"
  have "list_all2 shows_alive ?ins ?fds"
    using assms(3) by (induction answers) (auto intro: shows_alive_input)
  from heartbeat_keeps [OF assms(1,2) this, of h'] assms(4) show ?thesis
    by (fastforce simp: heartbeat_outcome_def stays_def shadowed_def)
qed

text \<open>
  \<open>ann\<close> on descriptor 5 hung up, and \<open>bob\<close> is on the connection that got the number 5 again: bob
  answers and is dropped.
\<close>

definition stale_server :: server where
  "stale_server = ann_bob_server\<lparr>clients := (clients ann_bob_server)[1 := (clients ann_bob_server ! 1)\<lparr>c_socket := 5\<rparr>]\<rparr>"

theorem heartbeat_round_witness:
  "(\<exists>st'. server_run [(sample_host Little, Mark),
       (sample_host Little, alive_input (sample_host Little) (text_message CLIENT_ALIVE ''bob'' '''') 6),
       (sample_host Little, Sweep)] ann_bob_server = Inr st' \<and>
     \<not> c_valid (clients st' ! 0) \<and> c_valid (clients st' ! 1)) \<and>
   (\<exists>st'. server_run [(sample_host Little, Mark),
       (sample_host Little, alive_input (sample_host Little) (text_message CLIENT_ALIVE ''bob'' '''') 5),
       (sample_host Little, Sweep)] stale_server = Inr st' \<and>
     c_valid (clients st' ! 0) \<and> \<not> c_valid (clients st' ! 1))"
proof -
  let ?h = "sample_host Little" and ?m = "text_message CLIENT_ALIVE ''bob'' ''''"
  have cs: "2 \<le> length (clients ann_bob_server)" "2 \<le> length (clients stale_server)"
    "c_valid (clients ann_bob_server ! 1)" "c_socket (clients ann_bob_server ! 0) = 5" "c_socket (clients ann_bob_server ! 1) = 6"
    "c_valid (clients stale_server ! 0)" "c_socket (clients stale_server ! 0) = 5" "c_socket (clients stale_server ! 1) = 5"
    "\<not> locked stale_server" "clients ann_bob_server \<noteq> []" "clients stale_server \<noteq> []"
    by (simp_all add: ann_bob_server_def stale_server_def)
  have round: "\<exists>st'. server_run ((?h, Mark) # [(?h, alive_input ?h ?m fd)] @ [(?h, Sweep)]) st = Inr st' \<and>
      (\<forall>i<length (clients st). (c_valid (clients st' ! i) \<longleftrightarrow> c_valid (clients st ! i) \<and>
         c_socket (clients st ! i) = fd \<and> (\<forall>j<i. c_socket (clients st ! j) \<noteq> c_socket (clients st ! i))))"
    if "\<not> locked st" for fd st
    using heartbeat_round [of ?h st "[(?h, ?h, ?m, fd)]" "{fd}" ?h] that by fastforce
  obtain st1 where st1: "server_run ((?h, Mark) # [(?h, alive_input ?h ?m 6)] @ [(?h, Sweep)]) ann_bob_server = Inr st1"
     "\<forall>i<length (clients ann_bob_server). (c_valid (clients st1 ! i) \<longleftrightarrow> c_valid (clients ann_bob_server ! i) \<and>
        c_socket (clients ann_bob_server ! i) = 6 \<and> (\<forall>j<i. c_socket (clients ann_bob_server ! j) \<noteq> c_socket (clients ann_bob_server ! i)))"
    using round [of ann_bob_server 6] by auto
  obtain st2 where st2: "server_run ((?h, Mark) # [(?h, alive_input ?h ?m 5)] @ [(?h, Sweep)]) stale_server = Inr st2"
     "\<forall>i<length (clients stale_server). (c_valid (clients st2 ! i) \<longleftrightarrow> c_valid (clients stale_server ! i) \<and>
        c_socket (clients stale_server ! i) = 5 \<and> (\<forall>j<i. c_socket (clients stale_server ! j) \<noteq> c_socket (clients stale_server ! i)))"
    using round [OF cs(9), of 5] by auto
  have "\<not> c_valid (clients st1 ! 0)" "c_valid (clients st1 ! 1)"
    using st1(2) [rule_format, of 0] st1(2) [rule_format, of 1] cs by auto
  moreover have "c_valid (clients st2 ! 0)" "\<not> c_valid (clients st2 ! 1)"
    using st2(2) [rule_format, of 0] st2(2) [rule_format, of 1] cs by auto
  ultimately show ?thesis using st1(1) st2(1) by simp
qed

text \<open>
  A client that registers into a slot whose previous occupant left while its heartbeat
  was outstanding inherits the outstanding heartbeat: the next sweep closes its connection
  and unregisters it, although it was never asked whether it is alive.
\<close>

theorem inherited_heartbeat_drops_client:
  assumes "server_host h" "wf_table (clients st)" "\<not> locked st" "wf_message m"
    and "m_type m = type_word CLIENT_NEW" "terminated (m_sender m)" "key_map (clients st) (m_sender m) = None"
    and "find_free (clients st) = Some i" "c_awaiting (clients st ! i)"
  shows "\<exists>st1 st2. dispatch_message h fd m st = Inr st1 \<and>
     trace st1 = trace st @ [server_says h SERVER_OK_REGISTER (lit h ''successfully registered'') fd] \<and>
     key_map (clients st1) (m_sender m) = Some fd \<and>
     server_step h Sweep st1 = Inr st2 \<and> key_map (clients st2) (m_sender m) = None \<and> Closed fd \<in> set (trace st2)"
proof -
  have len: "length (m_sender m) = MAX_CLIENT_NAME" using assms(4) by (simp add: wf_message_def)
  let ?c = "(clients st ! i)\<lparr>c_valid := True, c_socket := fd, c_name := m_sender m\<rparr>"
  let ?cs = "(clients st)[i := ?c]"
  note slot = find_free_SomeD [OF assms(8)]
  have ins: "registry_insert (clients st) (m_sender m) fd = ?cs"
    using assms(8) len by (rule registry_insert_slot)
  have wf: "wf_table ?cs" using wf_registry_insert [OF assms(2) len assms(7), of fd] ins by simp
  define evs where "evs = [server_says h SERVER_OK_REGISTER (lit h ''successfully registered'') fd]"
  let ?st1 = "emit evs (st\<lparr>clients := ?cs\<rparr>)"
  have st1: "dispatch_message h fd m st = Inr ?st1"
    using assms len by (simp add: dispatch_message_def print_sender_def new_client_result ins evs_def)
  have has: "has_name (m_sender m) (?cs ! i)" using slot by (simp add: has_name_def)
  have "key_map ?cs (m_sender m) = Some fd"
    using key_map_Some [of ?cs i "m_sender m"] wf slot has by (simp add: wf_table_def)
  moreover have "fd \<in> set (dead_sockets ?cs)"
    using dead_socketsI [OF set_update_memI [OF slot(1), of ?c]] assms(9) by simp
  moreover have "key_map (map sweep_client ?cs) (m_sender m) = None"
    unfolding key_map_None
  proof
    fix c assume "c \<in> set (map sweep_client ?cs)"
    then obtain x where "x \<in> set ?cs" "c = sweep_client x" by auto
    then obtain j where j: "j < length ?cs" "c = sweep_client (?cs ! j)"
      by (auto simp only: in_set_conv_nth)
    show "\<not> has_name (m_sender m) c"
    proof
      assume h: "has_name (m_sender m) c"
      with j(2) have "has_name (m_sender m) (?cs ! j)" "\<not> c_awaiting (?cs ! j)"
        by (auto simp: has_name_def sweep_client_def split: if_splits)
      moreover from this(1) have "j = i"
        using unique_names_has_name [of ?cs j i] wf j(1) slot has by (simp add: wf_table_def)
      ultimately show False using slot assms(9) by simp
    qed
  qed
  moreover define st2 where "st2 = fold close_fd (dead_sockets ?cs) (emit evs (st\<lparr>clients := map sweep_client ?cs\<rparr>))"
  moreover from this have "server_step h Sweep ?st1 = Inr st2"
    using assms(3) by (simp add: sweep_result)
  moreover from st2_def have "clients st2 = map sweep_client ?cs" "trace st2 = trace st @ evs @ map Closed (dead_sockets ?cs)"
    by (simp_all add: fold_close_fd)
  ultimately show ?thesis
    using st1 by (intro exI [of _ ?st1] exI [of _ st2]) (simp add: evs_def)
qed

text \<open>The slot is left so by a client that stops between the two halves of a round.\<close>

lemma ann_stops_after_mark:
  "\<exists>st. server_run [(sample_host Little, Mark), (sample_host Little,
       Event 5 EPOLLIN (Some (sent_record (sample_host Little) (text_message CLIENT_STOP ''ann'' ''''))))]
     ann_bob_server = Inr st \<and> wf_table (clients st) \<and> \<not> locked st \<and>
     find_free (clients st) = Some 0 \<and> c_awaiting (clients st ! 0) \<and> key_map (clients st) (array64 ''eve'') = None"
proof -
  let ?cs = "map mark_client (clients ann_bob_server)"
  let ?m = "text_message CLIENT_STOP ''ann'' ''''"
  have wf: "wf_table ?cs" by (simp add: wf_mark)
  have fi: "first_index (has_name (array64 ''ann'')) ?cs = Some 0"
    by (simp add: ann_bob_server_def has_name_def)
  have ok: "ok_name (array64 ''ann'')" by (simp add: readable_terminated)
  have rem: "registry_remove ?cs (array64 ''ann'') = ?cs[0 := (?cs ! 0)\<lparr>c_valid := False,
      c_name := (c_name (?cs ! 0))[0 := NUL], c_socket := -1\<rparr>]"
    by (rule registry_remove_slot [OF wf ok fi])
  have eve: "key_map ?cs (array64 ''eve'') = None"
    by (auto simp: key_map_None has_name_def ann_bob_server_def)
  have "key_map (registry_remove ?cs (array64 ''ann'')) (array64 ''eve'') = None"
    using key_map_remove [OF wf ok, of "array64 ''eve''"] eve by simp
  moreover have "wf_table (registry_remove ?cs (array64 ''ann''))"
    using wf ok by (rule wf_registry_remove)
  moreover have "find_free (registry_remove ?cs (array64 ''ann'')) = Some 0"
    "c_awaiting (registry_remove ?cs (array64 ''ann'') ! 0)"
    unfolding rem by (simp_all add: ann_bob_server_def)
  ultimately show ?thesis
    using wf ok
    by (simp add: mark_result step_of_record dispatch_message_def print_sender_def delete_result Let_def
        close_fd_def del: server_step.simps(2))
qed

theorem inherited_heartbeat_drops_client_witness:
  "\<exists>st st1 st2. server_run [(sample_host Little, Mark), (sample_host Little,
       Event 5 EPOLLIN (Some (sent_record (sample_host Little) (text_message CLIENT_STOP ''ann'' ''''))))]
     ann_bob_server = Inr st \<and>
     dispatch_message (sample_host Little) 9 (text_message CLIENT_NEW ''eve'' '''') st = Inr st1 \<and>
     key_map (clients st1) (array64 ''eve'') = Some 9 \<and>
     server_step (sample_host Little) Sweep st1 = Inr st2 \<and> key_map (clients st2) (array64 ''eve'') = None"
proof -
  obtain st where st: "server_run [(sample_host Little, Mark), (sample_host Little,
       Event 5 EPOLLIN (Some (sent_record (sample_host Little) (text_message CLIENT_STOP ''ann'' ''''))))]
      ann_bob_server = Inr st" "wf_table (clients st)" "\<not> locked st" "find_free (clients st) = Some 0"
      "c_awaiting (clients st ! 0)" "key_map (clients st) (array64 ''eve'') = None"
    using ann_stops_after_mark by blast
  show ?thesis
    using inherited_heartbeat_drops_client [of "sample_host Little" st "text_message CLIENT_NEW ''eve'' ''''" 0 9] st
    by (simp del: server_run.simps) blast
qed

text \<open>
  The \<open>SIGINT\<close> cleanup sends every registered client a \<open>SERVER_SHUTDOWN\<close> and then closes
  its socket, in slot order, whether or not some thread holds the mutex, and then closes
  the server's own descriptors.
\<close>

theorem cleanup_notifies_everyone:
  assumes "server_host h"
  shows "\<exists>st'. cleanup h server_socket epoll_fd st = Inr st' \<and>
     trace st' = trace st @
       concat (map (\<lambda>c. [server_says h SERVER_SHUTDOWN (lit h '''') (c_socket c), Closed (c_socket c)])
         (filter c_valid (clients st))) @
       [Shutdown server_socket, Closed server_socket, Closed epoll_fd]"
proof -
  have "cleanup_clients h cs = Inr (concat (map (\<lambda>c. [server_says h SERVER_SHUTDOWN (lit h '''') (c_socket c),
      Closed (c_socket c)]) (filter c_valid cs)))" for cs
    using assms by (induction cs) (simp_all add: handler_results server_says_def)
  then show ?thesis by (simp add: cleanup_def Let_def)
qed

theorem cleanup_notifies_everyone_witness:
  "\<exists>st' e1 e2. cleanup (sample_host Little) 3 4 (ann_bob_server\<lparr>locked := True\<rparr>) = Inr st' \<and>
     trace st' = [e1, Closed 5, e2, Closed 6, Shutdown 3, Closed 3, Closed 4]"
  using cleanup_notifies_everyone [of "sample_host Little" 3 4 "ann_bob_server\<lparr>locked := True\<rparr>"]
  by (auto simp: ann_bob_server_def)

end
