(* ===== verification/Chat_Net.thy ===== *)
theory Chat_Net
  imports Wire
begin

text \<open>
  Addresses and sockets of the chat of \<^verbatim>\<open>cw11\<close>: \<open>init_ipv4_address\<close> and
  \<open>create_ipv4_socket\<close> (\<^verbatim>\<open>socket_utils.c\<close>), \<open>setup_server_socket\<close> (\<^verbatim>\<open>server.c\<close>) and
  \<open>connect_to_server\<close> (\<^verbatim>\<open>client.c\<close>), with every error path. What the kernel and
  \<open>inet_pton\<close> answer is the record \<open>net_calls\<close>; what the functions ask of it is their trace.
\<close>

section \<open>Addresses\<close>

definition AF_INET :: "16 word" where "AF_INET = 2"
definition INADDR_ANY :: "32 word" where "INADDR_ANY = 0"

record sockaddr_in =
  sin_family :: "16 word"
  sin_port :: "16 word"
  sin_addr :: "32 word"

record net_calls =
  inet_pton :: "string \<Rightarrow> 32 word option"
  socket_result :: int
  fcntl_works :: bool
  bind_works :: bool
  listen_works :: bool
  connect_works :: bool

text \<open>\<open>htons\<close>, as \<open>htonl\<close>; its parameter is a \<open>uint16_t\<close>, so an \<open>int\<close> is cut to 16 bits.\<close>

definition htons :: "endian \<Rightarrow> 16 word \<Rightarrow> 16 word" where
  "htons e w = word_of_nat (host_value e (rev (le_bytes 2 (unat w))))"

text \<open>The result and the address, with what it held before where nothing is stored.\<close>

definition init_ipv4_address :: "endian \<Rightarrow> net_calls \<Rightarrow> sockaddr_in \<Rightarrow> string option \<Rightarrow> int \<Rightarrow> int \<times> sockaddr_in" where
  "init_ipv4_address e net address ipv4 port =
     (let a = address\<lparr>sin_family := AF_INET, sin_port := htons e (word_of_int port)\<rparr>
      in case ipv4 of
           None \<Rightarrow> (0, a\<lparr>sin_addr := INADDR_ANY\<rparr>)
         | Some s \<Rightarrow>
             (case inet_pton net s of
                None \<Rightarrow> (-1, a)
              | Some bits \<Rightarrow> (0, a\<lparr>sin_addr := bits\<rparr>)))"

text \<open>The port other hosts see: the two bytes of \<open>sin_port\<close> in network order.\<close>

definition net_port :: "endian \<Rightarrow> sockaddr_in \<Rightarrow> nat" where
  "net_port e a = le_value (rev (host_bytes e 2 (unat (sin_port a))))"

section \<open>Sockets\<close>

datatype net_event =
    Opened int
  | Nonblocking int
  | Bound int sockaddr_in
  | Listening int nat
  | Connected int sockaddr_in

definition create_ipv4_socket :: "net_calls \<Rightarrow> int" where
  "create_ipv4_socket net = socket_result net"

definition setup_server_socket ::
    "endian \<Rightarrow> net_calls \<Rightarrow> sockaddr_in \<Rightarrow> string \<Rightarrow> int \<Rightarrow> int \<times> net_event list" where
  "setup_server_socket e net junk address port =
     (case init_ipv4_address e net junk (Some address) port of (r, server_address) \<Rightarrow>
        if r = -1 then (-1, [])
        else
          let socket_fd = create_ipv4_socket net
          in if socket_fd = -1 then (-1, [])
             else if \<not> fcntl_works net then (-1, [Opened socket_fd])
             else if \<not> bind_works net then (-1, [Opened socket_fd, Nonblocking socket_fd])
             else if \<not> listen_works net
             then (-1, [Opened socket_fd, Nonblocking socket_fd, Bound socket_fd server_address])
             else (socket_fd, [Opened socket_fd, Nonblocking socket_fd, Bound socket_fd server_address,
                               Listening socket_fd 10]))"

text \<open>The result, what happened, and the global \<open>socket_fd\<close>, which keeps its value on the first error.\<close>

definition connect_to_server ::
    "endian \<Rightarrow> net_calls \<Rightarrow> sockaddr_in \<Rightarrow> int \<Rightarrow> string \<Rightarrow> int \<Rightarrow> int \<times> net_event list \<times> int" where
  "connect_to_server e net junk socket_fd server_ip server_port =
     (case init_ipv4_address e net junk (Some server_ip) server_port of (r, server_address) \<Rightarrow>
        if r = -1 then (-1, [], socket_fd)
        else
          let socket_fd = create_ipv4_socket net
          in if socket_fd = -1 then (-1, [], socket_fd)
             else if \<not> connect_works net then (-1, [Opened socket_fd], socket_fd)
             else (0, [Opened socket_fd, Connected socket_fd server_address], socket_fd))"

section \<open>The port on the wire\<close>

lemma htons_bytes: "host_bytes e 2 (unat (htons e w)) = rev (le_bytes 2 (unat w))"
proof -
  have "host_value e (rev (le_bytes 2 (unat w))) < 2 ^ LENGTH(16)"
    using host_value_less [of e "rev (le_bytes 2 (unat w))"] by simp
  then have "unat (htons e w) = host_value e (rev (le_bytes 2 (unat w)))"
    by (simp add: htons_def unsigned_of_nat take_bit_nat_eq_self)
  then show ?thesis by (simp add: host_bytes_value)
qed

lemma net_port_htons: "net_port e (a\<lparr>sin_port := htons e w\<rparr>) = unat w"
proof -
  have "unat w < 2 ^ LENGTH(16)" by (rule unsigned_less)
  then show ?thesis by (simp add: net_port_def htons_bytes le_value_bytes)
qed

lemma unat_port: "unat (word_of_int port :: 16 word) = nat (port mod 65536)"
  by (simp add: unsigned_of_int take_bit_eq_mod)

lemma net_port_init:
  "init_ipv4_address e net junk ipv4 port = (r, a) \<Longrightarrow> net_port e a = nat (port mod 65536)"
  using net_port_htons [where e = e and w = "word_of_int port"]
  by (auto simp: init_ipv4_address_def unat_port net_port_def Let_def split: option.splits)

text \<open>What a socket has been through, when the set-up succeeds.\<close>

lemma setup_server_socket_success:
  assumes "setup_server_socket e net junk address port = (fd, evs)" "fd \<noteq> -1"
  shows "\<exists>a bits. inet_pton net address = Some bits \<and> sin_addr a = bits \<and> sin_family a = AF_INET \<and>
    net_port e a = nat (port mod 65536) \<and> evs = [Opened fd, Nonblocking fd, Bound fd a, Listening fd 10]"
proof -
  obtain r a where i: "init_ipv4_address e net junk (Some address) port = (r, a)" by fastforce
  with assms have "r = 0" "evs = [Opened fd, Nonblocking fd, Bound fd a, Listening fd 10]"
    by (auto simp: setup_server_socket_def init_ipv4_address_def Let_def split: option.splits if_splits)
  with i net_port_init [OF i] show ?thesis
    by (auto simp: init_ipv4_address_def Let_def split: option.splits)
qed

text \<open>
  A failure after \<open>socket\<close> leaves the socket open: the functions have no \<open>close\<close>, and their
  callers do not learn its number.
\<close>

lemma setup_server_socket_leaks:
  "setup_server_socket e net junk address port = (-1, evs) \<Longrightarrow> inet_pton net address \<noteq> None \<Longrightarrow>
   socket_result net \<noteq> -1 \<Longrightarrow> Opened (socket_result net) \<in> set evs"
  by (auto simp: setup_server_socket_def init_ipv4_address_def create_ipv4_socket_def Let_def
      split: option.splits if_splits)

lemma connect_to_server_success:
  assumes "connect_to_server e net junk fd0 server_ip server_port = (0, evs, fd)"
  shows "\<exists>a bits. inet_pton net server_ip = Some bits \<and> sin_addr a = bits \<and> sin_family a = AF_INET \<and>
    net_port e a = nat (server_port mod 65536) \<and> evs = [Opened fd, Connected fd a] \<and> fd \<noteq> -1"
proof -
  obtain r a where i: "init_ipv4_address e net junk (Some server_ip) server_port = (r, a)" by fastforce
  with assms have "r = 0" "evs = [Opened fd, Connected fd a]" "fd \<noteq> -1"
    by (auto simp: connect_to_server_def init_ipv4_address_def Let_def split: option.splits if_splits)
  with i net_port_init [OF i] show ?thesis
    by (auto simp: init_ipv4_address_def Let_def split: option.splits)
qed

end
