(* ===== verification/Chat_Client.thy ===== *)
theory Chat_Client
  imports Chat_Props Chat_Net
begin

text \<open>
  The client of the chat (\<^verbatim>\<open>cw11/client.c\<close>): registration, the command loop on the standard
  input, the reactions to the server's messages, and the checks of \<open>main\<close>. \<open>client_id\<close>
  points into the program's arguments; \<open>ident\<close> is the memory it can read.
\<close>

section \<open>Operations\<close>

definition MAX_COMMAND_LENGTH :: nat where "MAX_COMMAND_LENGTH = 10"

text \<open>\<open>clean_exit\<close>, which is also the \<open>SIGINT\<close> handler: what it sends before the exit.\<close>

definition clean_exit :: "host \<Rightarrow> int \<Rightarrow> char list \<Rightarrow> event list cres" where
  "clean_exit h socket_fd ident =
     cbind (init_message_t h ident CLIENT_STOP (lit h '''')) (\<lambda>message.
     cbind (send_message h socket_fd message) (\<lambda>(r, ev). Inr [ev, Closed socket_fd]))"

text \<open>\<open>register_on_server\<close> with the bytes of the reply: the result and what was sent.\<close>

definition register_on_server :: "host \<Rightarrow> int \<Rightarrow> char list \<Rightarrow> char list option \<Rightarrow> (int \<times> event list) cres" where
  "register_on_server h socket_fd ident reply =
     cbind (init_message_t h ident CLIENT_NEW (lit h '''')) (\<lambda>new_client_request.
     cbind (send_message h socket_fd new_client_request) (\<lambda>(r, ev).
       if r = -1 then Inr (-1, [ev])
       else cbind (receive_message h reply) (\<lambda>(r2, response).
         case response of
           None \<Rightarrow> Inr (-1, [ev])
         | Some m \<Rightarrow>
             if m_type m = type_word SERVER_FAILURE_REGISTER then Inr (-1, [ev])
             else if m_type m \<noteq> type_word SERVER_OK_REGISTER then Inr (-1, [ev])
             else Inr (0, [ev]))))"

text \<open>What \<open>strtok(line, " ")\<close> leaves of the array: a NUL after the first word.\<close>

definition strtok_cut :: "char list \<Rightarrow> char list" where
  "strtok_cut line =
     (let s = cstr line; k = length (takeWhile (\<lambda>c. c = CHR '' '') s);
          e = k + length (takeWhile (\<lambda>c. c \<noteq> CHR '' '') (drop k s))
      in if e < length s then line[e := NUL] else line)"

datatype command = List_Command | To_All | To_One | Stop | Unknown

text \<open>The chain of comparisons; \<open>NULL\<close> (an empty line) is dereferenced by the first.\<close>

definition parse_command :: "char list option \<Rightarrow> command cres" where
  "parse_command cmd =
     (case cmd of None \<Rightarrow> Inl Null_Deref
      | Some w \<Rightarrow>
          cbind (strncmp_eq (c_lit w) (c_lit ''list'') MAX_COMMAND_LENGTH) (\<lambda>is_list.
          if is_list then Inr List_Command else
          cbind (strncmp_eq (c_lit w) (c_lit ''to_all'') MAX_COMMAND_LENGTH) (\<lambda>is_all.
          if is_all then Inr To_All else
          cbind (strncmp_eq (c_lit w) (c_lit ''to_one'') MAX_COMMAND_LENGTH) (\<lambda>is_one.
          if is_one then Inr To_One else
          cbind (strncmp_eq (c_lit w) (c_lit ''stop'') MAX_COMMAND_LENGTH) (\<lambda>is_stop.
          if is_stop then Inr Stop else Inr Unknown)))))"

text \<open>
  One iteration of the loop of \<open>handle_user_input\<close>: it goes on with the array \<open>line\<close> and the
  rest of the input, or the function returns. \<open>past\<close> is the memory after the array.
\<close>

datatype input_result = Goes_On "event list" "char list" "char list" | Returns "event list"

definition send_command :: "host \<Rightarrow> int \<Rightarrow> char list \<Rightarrow> message_type_t \<Rightarrow> char list option \<Rightarrow> event list cres" where
  "send_command h socket_fd ident ty txt_ptr =
     (case txt_ptr of None \<Rightarrow> Inl Null_Deref
      | Some t \<Rightarrow> cbind (init_message_t h ident ty t) (\<lambda>message.
          cbind (send_message h socket_fd message) (\<lambda>(r, ev). Inr [ev])))"

definition user_input_step ::
    "host \<Rightarrow> int \<Rightarrow> char list \<Rightarrow> char list \<Rightarrow> char list \<Rightarrow> char list \<Rightarrow> input_result cres" where
  "user_input_step h socket_fd ident past line inp =
     (let (line1, rest) = (case fgets MAX_MESSAGE_TEXT line inp of None \<Rightarrow> (line, inp) | Some r \<Rightarrow> r)
      in cbind (strlen line1) (\<lambda>len.
           if len = 0 then Inl Oob_Write
           else
             let line2 = line1[len - 1 := NUL]
             in cbind (split_request line2) (\<lambda>(word, off).
                cbind (parse_command word) (\<lambda>cmd.
                let line3 = strtok_cut line2; txt_ptr = map_option (\<lambda>k. drop k line3 @ past) off;
                    go = (\<lambda>ty t. cbind (send_command h socket_fd ident ty t) (\<lambda>evs. Inr (Goes_On evs line3 rest)))
                in case cmd of
                     List_Command \<Rightarrow> go CLIENT_LIST (Some (lit h ''''))
                   | To_All \<Rightarrow> go CLIENT_TO_ALL txt_ptr
                   | To_One \<Rightarrow> go CLIENT_TO_ONE txt_ptr
                   | Stop \<Rightarrow> cbind (send_command h socket_fd ident CLIENT_STOP (Some (lit h ''''))) (\<lambda>evs. Inr (Returns evs))
                   | Unknown \<Rightarrow> Inr (Goes_On [] line3 rest)))))"

text \<open>The first \<open>n\<close> iterations: what was sent and whether the function has returned.\<close>

fun handle_user_input ::
    "nat \<Rightarrow> host \<Rightarrow> int \<Rightarrow> char list \<Rightarrow> char list \<Rightarrow> char list \<Rightarrow> char list \<Rightarrow> (event list \<times> bool) cres" where
  "handle_user_input 0 h socket_fd ident past line inp = Inr ([], False)"
| "handle_user_input (Suc n) h socket_fd ident past line inp =
     cbind (user_input_step h socket_fd ident past line inp) (\<lambda>r.
       case r of
         Returns evs \<Rightarrow> Inr (evs, True)
       | Goes_On evs line' rest \<Rightarrow>
           cbind (handle_user_input n h socket_fd ident past line' rest) (\<lambda>(evs', done). Inr (evs @ evs', done)))"

text \<open>
  One iteration of \<open>wait_for_messages\<close>, with the \<open>switch\<close> on the type and \<open>ctime_r\<close> as a
  parameter: what it prints and sends, and whether the program exits.
\<close>

datatype client_line =
    Chat_Line "char list" "char list" "char list"
  | Client_List "char list"
  | Shutting_Down
  | Unexpected_Type
  | Receive_Failed

definition wait_for_message ::
    "host \<Rightarrow> (64 word \<Rightarrow> char list) \<Rightarrow> int \<Rightarrow> char list \<Rightarrow> char list option \<Rightarrow>
     (client_line list \<times> event list \<times> bool) cres" where
  "wait_for_message h ctime_r socket_fd ident received =
     cbind (receive_message h received) (\<lambda>(r, response).
       case response of
         None \<Rightarrow> cbind (clean_exit h socket_fd ident) (\<lambda>evs. Inr ([Receive_Failed], evs, True))
       | Some m \<Rightarrow>
           (case type_of_word (m_type m) of
              Some SERVER_CHAT_MESSAGE \<Rightarrow>
                if terminated (m_sender m) \<and> terminated (m_text m)
                then Inr ([Chat_Line (butlast (cstr (ctime_r (m_time m)))) (cstr (m_sender m)) (cstr (m_text m))], [], False)
                else Inl Oob_Read
            | Some SERVER_LIST_MESSAGE \<Rightarrow>
                if terminated (m_text m) then Inr ([Client_List (cstr (m_text m))], [], False) else Inl Oob_Read
            | Some SERVER_CHECK_ALIVE \<Rightarrow>
                cbind (init_message_t h ident CLIENT_ALIVE (lit h '''')) (\<lambda>alive_response.
                cbind (send_message h socket_fd alive_response) (\<lambda>(r, ev). Inr ([], [ev], False)))
            | Some SERVER_SHUTDOWN \<Rightarrow> cbind (clean_exit h socket_fd ident) (\<lambda>evs. Inr ([Shutting_Down], evs, True))
            | _ \<Rightarrow> cbind (clean_exit h socket_fd ident) (\<lambda>evs. Inr ([Unexpected_Type], evs, True))))"

text \<open>
  \<open>main\<close>: \<open>reply\<close> is the answer to the registration, \<open>env\<close> the memory after the first argument,
  \<open>thread_works\<close> the result of \<open>pthread_create\<close>. \<open>n\<close> cuts the command loop, whose array holds
  \<open>line\<close> at first: without an exit status the client is still running.
\<close>

definition client_main ::
    "nat \<Rightarrow> host \<Rightarrow> net_calls \<Rightarrow> sockaddr_in \<Rightarrow> char list option \<Rightarrow> bool \<Rightarrow> char list \<Rightarrow> char list \<Rightarrow> char list \<Rightarrow>
     string list \<Rightarrow> char list \<Rightarrow> (exit_code option \<times> net_event list \<times> event list) cres" where
  "client_main n h net junk reply thread_works env past line argv inp =
     (if length argv < 4 then Inr (Some EXIT_FAILURE, [], [])
      else
        let client_id = argv ! 1; server_port = atoi (argv ! 3)
        in if MAX_CLIENT_NAME \<le> length client_id then Inr (Some EXIT_FAILURE, [], [])
           else case connect_to_server (byte_order h) net junk (-1) (argv ! 2) server_port of (r, nevs, socket_fd) \<Rightarrow>
             if r = -1 then Inr (Some EXIT_FAILURE, nevs, [])
             else
               let ident = c_lit client_id @ env
               in cbind (register_on_server h socket_fd ident reply) (\<lambda>(r, evs).
                    if r = -1 then Inr (Some EXIT_FAILURE, nevs, evs)
                    else if \<not> thread_works then Inr (Some EXIT_FAILURE, nevs, evs)
                    else cbind (handle_user_input n h socket_fd ident past line inp) (\<lambda>(evs', done).
                      if done then Inr (Some EXIT_SUCCESS, nevs, evs @ evs' @ [Closed socket_fd])
                      else Inr (None, nevs, evs @ evs'))))"

section \<open>Lines and commands\<close>

lemma cstr_update_NUL: "e \<le> length (cstr l) \<Longrightarrow> e < length l \<Longrightarrow> cstr (l[e := NUL]) = take e (cstr l)"
proof (induction l arbitrary: e)
  case (Cons c l)
  then show ?case by (cases e) (auto split: if_splits)
qed simp

lemma terminated_update_NUL: "e < length l \<Longrightarrow> terminated (l[e := NUL])"
  by (simp add: terminated_def set_update_memI)

lemma cstr_length_le: "length (cstr l) \<le> length l"
  by (simp add: cstr_def length_takeWhile_le)

lemma strtok_cut_shortens:
  assumes "terminated l"
  shows "terminated (strtok_cut l) \<and> length (cstr (strtok_cut l)) \<le> length (cstr l)"
proof -
  let ?s = "cstr l"
  let ?k = "length (takeWhile (\<lambda>c. c = CHR '' '') ?s)"
  let ?e = "?k + length (takeWhile (\<lambda>c. c \<noteq> CHR '' '') (drop ?k ?s))"
  show ?thesis
  proof (cases "?e < length ?s")
    case True
    with cstr_length_le [of l] have "?e < length l" by linarith
    with True show ?thesis
      by (simp add: strtok_cut_def Let_def cstr_update_NUL terminated_update_NUL)
  next
    case False
    with assms show ?thesis by (simp add: strtok_cut_def Let_def)
  qed
qed

lemma parse_command_word:
  "NUL \<notin> set w \<Longrightarrow> parse_command (Some w) =
     Inr (if w = ''list'' then List_Command else if w = ''to_all'' then To_All else if w = ''to_one'' then To_One
          else if w = ''stop'' then Stop else Unknown)"
proof -
  assume w: "NUL \<notin> set w"
  have "strncmp_eq (c_lit w) (c_lit v) MAX_COMMAND_LENGTH = Inr (w = v)" if "NUL \<notin> set v" "length v < MAX_COMMAND_LENGTH" for v
  proof -
    have "strncmp_eq (c_lit w) (c_lit v) MAX_COMMAND_LENGTH =
        Inr (take MAX_COMMAND_LENGTH w = take MAX_COMMAND_LENGTH v)"
      using w that(1) by (subst strncmp_eq_readable) (simp_all add: readable_terminated)
    moreover have "take MAX_COMMAND_LENGTH w = take MAX_COMMAND_LENGTH v \<longleftrightarrow> w = v"
    proof
      assume eq: "take MAX_COMMAND_LENGTH w = take MAX_COMMAND_LENGTH v"
      then have "length (take MAX_COMMAND_LENGTH w) < MAX_COMMAND_LENGTH" using that(2) by simp
      then have "length w < MAX_COMMAND_LENGTH" by simp
      with eq that(2) show "w = v" by simp
    qed simp
    ultimately show ?thesis by simp
  qed
  then show ?thesis by (simp add: parse_command_def MAX_COMMAND_LENGTH_def)
qed

text \<open>An iteration at the end of the input works on what the last one left in the array.\<close>

lemma user_input_eof_step:
  assumes "terminated line" "user_input_step h fd ident past line [] = Inr (Goes_On evs line' rest)"
  shows "terminated line' \<and> length (cstr line') < length (cstr line) \<and> rest = []"
proof -
  let ?n = "length (cstr line)"
  let ?line2 = "line[?n - 1 := NUL]"
  have n: "?n \<noteq> 0" and l': "line' = strtok_cut ?line2" "rest = []"
    using assms by (auto simp: user_input_step_def fgets_def strlen_def Let_def cbind_eq_Inr
        split: if_splits command.splits prod.splits) (metis command.exhaust)+
  have "?n - 1 < length line" using n cstr_length_le [of line] by linarith
  then have "terminated ?line2" "length (cstr ?line2) = ?n - 1"
    by (simp_all add: terminated_update_NUL cstr_update_NUL)
  moreover have "?n - 1 < ?n" using n by simp
  ultimately show ?thesis using strtok_cut_shortens [of ?line2] unfolding l' by simp
qed

lemma user_input_eof_ends:
  assumes "terminated line" "length (cstr line) \<le> n"
  shows "case handle_user_input (Suc n) h fd ident past line [] of Inl e \<Rightarrow> True | Inr (evs, done) \<Rightarrow> done"
  using assms
proof (induction n arbitrary: line)
  case 0
  then show ?case by (simp add: user_input_step_def fgets_def strlen_def)
next
  case (Suc n)
  show ?case
  proof (cases "user_input_step h fd ident past line []")
    case (Inl e)
    then show ?thesis by simp
  next
    case (Inr r)
    show ?thesis
    proof (cases r)
      case (Returns evs)
      with Inr show ?thesis by simp
    next
      case (Goes_On evs line' rest)
      with user_input_eof_step [OF Suc.prems(1)] Inr have "terminated line'" "length (cstr line') \<le> n" "rest = []"
        using Suc.prems(2) by fastforce+
      with Suc.IH [of line'] Inr Goes_On show ?thesis
        by (subst handle_user_input.simps) (auto split: sum.splits simp del: handle_user_input.simps)
    qed
  qed
qed

text \<open>A line with a command and a text.\<close>

lemma user_input_text_step:
  assumes "length line = MAX_MESSAGE_TEXT" "w = ''to_all'' \<or> w = ''to_one''"
    and "t \<noteq> []" "CHR 0x0A \<notin> set t" "NUL \<notin> set t" "length w + length t + 3 \<le> MAX_MESSAGE_TEXT"
  shows "\<exists>line' junk. user_input_step h fd ident past line (w @ CHR '' '' # t @ CHR 0x0A # rest) =
    cbind (send_command h fd ident (if w = ''to_all'' then CLIENT_TO_ALL else CLIENT_TO_ONE) (Some (c_lit t @ junk @ past)))
      (\<lambda>evs. Inr (Goes_On evs line' rest))"
proof -
  let ?l = "w @ CHR '' '' # t"
  let ?junk = "drop (length ?l + 2) line"
  have w: "CHR '' '' \<notin> set w" "NUL \<notin> set w" "CHR 0x0A \<notin> set w" "w \<noteq> []" using assms(2) by auto
  have l: "CHR 0x0A \<notin> set ?l" "NUL \<notin> set ?l" using w assms(4,5) by auto
  have "read_line (MAX_MESSAGE_TEXT - 1) (?l @ CHR 0x0A # rest) = (?l @ [CHR 0x0A], rest)"
    using l(1) assms(6) by (intro read_line_newline) (auto simp: MAX_MESSAGE_TEXT_def)
  then have fg: "fgets MAX_MESSAGE_TEXT line (w @ CHR '' '' # t @ CHR 0x0A # rest) =
      Some (?l @ CHR 0x0A # NUL # ?junk, rest)"
    by (simp add: fgets_def)
  have "cstr (?l @ CHR 0x0A # NUL # ?junk) = ?l @ [CHR 0x0A]"
    using l(2) cstr_append [of "?l @ [CHR 0x0A]" ?junk] by simp
  then have len: "strlen (?l @ CHR 0x0A # NUL # ?junk) = Inr (length ?l + 1)"
    by (simp add: strlen_def terminated_def)
  have cut: "(?l @ CHR 0x0A # NUL # ?junk)[length ?l + 1 - 1 := NUL] = ?l @ NUL # NUL # ?junk"
    by (simp add: list_update_append)
  have split: "split_request (?l @ NUL # NUL # ?junk) = Inr (Some w, Some (Suc (length w)))"
    using split_request_word [OF w(1,2,4) assms(5,3), of "NUL # ?junk"] by simp
  have tok: "drop (Suc (length w)) (strtok_cut (?l @ NUL # NUL # ?junk)) = t @ NUL # NUL # ?junk"
  proof -
    have c: "cstr (?l @ NUL # NUL # ?junk) = ?l" using l(2) by (rule cstr_append)
    have k: "takeWhile (\<lambda>c. c = CHR '' '') ?l = []" using w by (cases w) auto
    have e: "takeWhile (\<lambda>c. c \<noteq> CHR '' '') ?l = w" using w(1) by (simp add: takeWhile_append)
    have "strtok_cut (?l @ NUL # NUL # ?junk) = (?l @ NUL # NUL # ?junk)[length w := NUL]"
      unfolding strtok_cut_def Let_def c k list.size drop_0 e by simp
    also have "\<dots> = w @ NUL # t @ NUL # NUL # ?junk" by simp
    finally show ?thesis by (simp only:) simp
  qed
  have cmd: "parse_command (Some w) = Inr (if w = ''to_all'' then To_All else To_One)"
    using assms(2) w(2) by (auto simp: parse_command_word)
  have "user_input_step h fd ident past line (w @ CHR '' '' # t @ CHR 0x0A # rest) =
      cbind (send_command h fd ident (if w = ''to_all'' then CLIENT_TO_ALL else CLIENT_TO_ONE)
          (Some (c_lit t @ (NUL # ?junk) @ past)))
        (\<lambda>evs. Inr (Goes_On evs (strtok_cut (?l @ NUL # NUL # ?junk)) rest))"
    unfolding user_input_step_def fg Let_def
    by (simp only: option.case prod.case len cbind_Inr cut split cmd option.map tok) (simp add: c_lit_def)
  then show ?thesis by blast
qed

text \<open>
  The message a client builds of its identifier and a text, when the memory behind both can be
  read, and the record it sends.
\<close>

lemma client_message:
  assumes "wf_host h" "NUL \<notin> set ident" "length ident < MAX_CLIENT_NAME" "MAX_CLIENT_NAME \<le> length env"
    and "NUL \<notin> set t" "length t < MAX_MESSAGE_TEXT" "MAX_MESSAGE_TEXT \<le> length past"
  obtains m where "init_message_t h (c_lit ident @ env) ty (c_lit t @ past) = Inr m" "wf_message m"
    "terminated (m_sender m)" "terminated (m_text m)" "cstr (m_sender m) = ident" "cstr (m_text m) = t"
    "m_type m = type_word ty" "m_time m = now h"
    "send_message h fd m = Inr (if sent_bytes h fd = None then -1 else 0, deliver h m fd)"
proof -
  have len: "MAX_CLIENT_NAME \<le> length (c_lit ident @ env)" "MAX_MESSAGE_TEXT \<le> length (c_lit t @ past)"
    using assms(4,7) by simp_all
  let ?m = "built_message h (c_lit ident @ env) ty (c_lit t @ past)"
  have s: "take MAX_CLIENT_NAME (c_lit ident @ env) = ident @ NUL # take (MAX_CLIENT_NAME - Suc (length ident)) env"
    using assms(3) by (simp add: c_lit_def take_Cons')
  have t: "take MAX_MESSAGE_TEXT (c_lit t @ past) = t @ NUL # take (MAX_MESSAGE_TEXT - Suc (length t)) past"
    using assms(6) by (simp add: c_lit_def take_Cons')
  have wf: "wf_message ?m" using len by simp
  show thesis
  proof (rule that)
    show "init_message_t h (c_lit ident @ env) ty (c_lit t @ past) = Inr ?m"
      using len by (rule init_message_built)
    show "send_message h fd ?m = Inr (if sent_bytes h fd = None then -1 else 0, deliver h ?m fd)"
      using wf assms(1) by (rule send_message_deliver)
  qed (use wf assms(2,5) in \<open>simp_all add: built_message_def s t cstr_append terminated_def del: take_append\<close>)
qed

text \<open>A typed line, as the record the client sends and the message in it.\<close>

lemma typed_line_record:
  assumes "wf_host h" "send_ok h fd"
    and "NUL \<notin> set ident" "length ident < MAX_CLIENT_NAME" "MAX_CLIENT_NAME \<le> length env" "MAX_MESSAGE_TEXT \<le> length past"
    and "length line = MAX_MESSAGE_TEXT" "w = ''to_all'' \<or> w = ''to_one''"
    and "t \<noteq> []" "CHR 0x0A \<notin> set t" "NUL \<notin> set t" "length w + length t + 3 \<le> MAX_MESSAGE_TEXT"
  obtains m line' where
    "user_input_step h fd (c_lit ident @ env) past line (w @ CHR '' '' # t @ CHR 0x0A # rest) =
      Inr (Goes_On [Sent fd (sent_record h m)] line' rest)"
    "wf_message m" "terminated (m_sender m)" "terminated (m_text m)" "cstr (m_sender m) = ident" "cstr (m_text m) = t"
    "m_type m = type_word (if w = ''to_all'' then CLIENT_TO_ALL else CLIENT_TO_ONE)"
proof -
  let ?ty = "if w = ''to_all'' then CLIENT_TO_ALL else CLIENT_TO_ONE"
  obtain line' junk where step: "user_input_step h fd (c_lit ident @ env) past line (w @ CHR '' '' # t @ CHR 0x0A # rest) =
    cbind (send_command h fd (c_lit ident @ env) ?ty (Some (c_lit t @ junk @ past))) (\<lambda>evs. Inr (Goes_On evs line' rest))"
    using user_input_text_step [OF assms(7-12)] by blast
  have t: "length t < MAX_MESSAGE_TEXT" "MAX_MESSAGE_TEXT \<le> length (junk @ past)" using assms(6,12) by simp_all
  obtain m where m: "init_message_t h (c_lit ident @ env) ?ty (c_lit t @ junk @ past) = Inr m" "wf_message m"
    "terminated (m_sender m)" "terminated (m_text m)" "cstr (m_sender m) = ident" "cstr (m_text m) = t"
    "m_type m = type_word ?ty"
    "send_message h fd m = Inr (if sent_bytes h fd = None then -1 else 0, deliver h m fd)"
    using client_message [OF assms(1,3,4,5,11) t, of ?ty fd] by blast
  from m(2) assms(1,2) have "deliver h m fd = Sent fd (sent_record h m)" by (rule deliver_whole)
  with m(1,8) step
  have "user_input_step h fd (c_lit ident @ env) past line (w @ CHR '' '' # t @ CHR 0x0A # rest) =
      Inr (Goes_On [Sent fd (sent_record h m)] line' rest)"
    by (simp add: send_command_def)
  with m(2-7) that show thesis by blast
qed

text \<open>The command \<open>stop\<close>.\<close>

lemma user_input_stop_step:
  assumes "length line = MAX_MESSAGE_TEXT" "init_message_t h ident CLIENT_STOP (lit h '''') = Inr m"
    and "send_message h fd m = Inr (r, ev)"
  shows "user_input_step h fd ident past line (''stop'' @ CHR 0x0A # rest) = Inr (Returns [ev])"
proof -
  let ?junk = "drop 6 line"
  have "read_line (MAX_MESSAGE_TEXT - 1) (''stop'' @ CHR 0x0A # rest) = (''stop'' @ [CHR 0x0A], rest)"
    by (intro read_line_newline) (simp_all add: MAX_MESSAGE_TEXT_def)
  then have fg: "fgets MAX_MESSAGE_TEXT line (''stop'' @ CHR 0x0A # rest) = Some (''stop'' @ CHR 0x0A # NUL # ?junk, rest)"
    by (simp add: fgets_def eval_nat_numeral)
  have len: "strlen (''stop'' @ CHR 0x0A # NUL # ?junk) = Inr 5" by (simp add: strlen_def terminated_def)
  have cut: "(''stop'' @ CHR 0x0A # NUL # ?junk)[5 - 1 := NUL] = ''stop'' @ NUL # NUL # ?junk" by simp
  have split: "split_request (''stop'' @ NUL # NUL # ?junk) = Inr (Some ''stop'', None)"
    by (simp add: split_request_def terminated_def Let_def)
  have cmd: "parse_command (Some ''stop'') = Inr Stop" by (simp add: parse_command_word)
  show ?thesis
    unfolding user_input_step_def fg Let_def
    by (simp only: option.case prod.case len cbind_Inr cut split cmd) (simp add: send_command_def lit_def assms(2,3) [unfolded lit_def])
qed

section \<open>Properties\<close>

text \<open>
  A line \<open>to_all text\<close> or \<open>to_one text\<close> on the client reaches the server as one message
  of that type, with the client's identifier as its sender and exactly the text of the line,
  when both hosts have the same byte order and the memory behind the identifier, the array
  and the literals can be read.
\<close>

theorem typed_line_reaches_server:
  assumes "wf_host h" "wf_host h'" "byte_order h' = byte_order h" "send_ok h fd"
    and "NUL \<notin> set ident" "length ident < MAX_CLIENT_NAME" "MAX_CLIENT_NAME \<le> length env" "MAX_MESSAGE_TEXT \<le> length past"
    and "length line = MAX_MESSAGE_TEXT" "w = ''to_all'' \<or> w = ''to_one''"
    and "t \<noteq> []" "CHR 0x0A \<notin> set t" "NUL \<notin> set t" "length w + length t + 3 \<le> MAX_MESSAGE_TEXT"
  shows "\<exists>bytes line' m.
    user_input_step h fd (c_lit ident @ env) past line (w @ CHR '' '' # t @ CHR 0x0A # rest) =
      Inr (Goes_On [Sent fd bytes] line' rest) \<and>
    receive_message h' (Some bytes) = Inr (0, Some m) \<and>
    cstr (m_sender m) = ident \<and> cstr (m_text m) = t \<and>
    m_type m = type_word (if w = ''to_all'' then CLIENT_TO_ALL else CLIENT_TO_ONE)"
proof -
  obtain m line' where m: "user_input_step h fd (c_lit ident @ env) past line (w @ CHR '' '' # t @ CHR 0x0A # rest) =
      Inr (Goes_On [Sent fd (sent_record h m)] line' rest)"
    "wf_message m" "cstr (m_sender m) = ident" "cstr (m_text m) = t"
    "m_type m = type_word (if w = ''to_all'' then CLIENT_TO_ALL else CLIENT_TO_ONE)"
    using typed_line_record [OF assms(1,4-14)] by blast
  have "receive_message h' (Some (sent_record h m)) = Inr (0, Some (received_as m))"
    using m(2) assms(1-3) by (rule receive_sent)
  with m show ?thesis
    by (intro exI [of _ "sent_record h m"] exI [of _ line'] exI [of _ "received_as m"]) simp
qed

theorem typed_line_reaches_server_witness:
  "\<exists>bytes line' m.
    user_input_step (sample_host Little) 3 (c_lit ''ann'' @ replicate 64 NUL) (replicate 512 NUL) (replicate 512 NUL)
      (''to_all hi'' @ [CHR 0x0A]) = Inr (Goes_On [Sent 3 bytes] line' []) \<and>
    receive_message (sample_host Little) (Some bytes) = Inr (0, Some m) \<and>
    cstr (m_sender m) = ''ann'' \<and> cstr (m_text m) = ''hi'' \<and> m_type m = type_word CLIENT_TO_ALL"
  using typed_line_reaches_server [of "sample_host Little" "sample_host Little" 3 "''ann''" "replicate 64 NUL"
      "replicate 512 NUL" "replicate 512 NUL" "''to_all''" "''hi''" "[]"]
  by (simp add: wire_sizes)

text \<open>
  The client does not survive the end of its input. The result of \<open>fgets\<close> is not checked,
  so each further iteration cuts the last character of what is left in the array, and after at
  most one more iteration than it has characters the loop is over: it dereferences a null
  pointer, writes before the array, or takes the remains for \<open>stop\<close>.
\<close>

theorem client_end_of_input:
  assumes "terminated line"
  shows "case handle_user_input (Suc (length (cstr line))) h fd ident past line [] of
      Inl e \<Rightarrow> True | Inr (evs, done) \<Rightarrow> done"
  using assms by (rule user_input_eof_ends) simp

theorem client_end_of_input_witness:
  "case handle_user_input (Suc 2) (sample_host Little) 3 [] [] (''hi'' @ [NUL]) [] of
     Inl e \<Rightarrow> True | Inr (evs, done) \<Rightarrow> done"
proof -
  have "terminated (''hi'' @ [NUL])" by (simp add: terminated_def)
  from client_end_of_input [OF this, of "sample_host Little" 3 "[]" "[]"] show ?thesis
    by (simp add: numeral_2_eq_2 del: handle_user_input.simps)
qed

end
