(* ===== verification/Chat_Main.thy ===== *)
theory Chat_Main
  imports Chat_Props Chat_Net
begin

text \<open>
  \<open>main\<close> of the chat server (\<^verbatim>\<open>cw11/server.c\<close>): the checks and the set-up with every early
  return, the epoll loop over what \<open>epoll_wait\<close> returns, and the heartbeat thread, whose halves
  fall anywhere between the handlers of the loop. Every name in the table keeps its NUL, and
  where \<open>send\<close> takes all it is given, every record sent has the length the receivers read.
\<close>

section \<open>Set-up\<close>

record server_env =
  net :: net_calls
  epoll_create_result :: int
  epoll_add_works :: bool
  thread_works :: bool

text \<open>
  \<open>main\<close> up to the loop: the exit status of an early return, or the server's socket, with the
  state of the program.
\<close>

definition server_main ::
    "endian \<Rightarrow> server_env \<Rightarrow> sockaddr_in \<Rightarrow> string list \<Rightarrow> ((exit_code + int) \<times> net_event list \<times> server) cres" where
  "server_main e env junk argv =
     (if length argv < 3 then Inr (Inl EXIT_FAILURE, [], boot_server)
      else
        let port = atoi (argv ! 2); (server_socket, evs) = setup_server_socket e (net env) junk (argv ! 1) port
        in if server_socket = -1 then Inr (Inl EXIT_FAILURE, evs, boot_server)
           else cbind (init_clients boot_server) (\<lambda>st.
             if epoll_create_result env = -1 then Inr (Inl EXIT_FAILURE, evs, st)
             else if \<not> epoll_add_works env then Inr (Inl EXIT_FAILURE, evs, st)
             else if \<not> thread_works env then Inr (Inl EXIT_FAILURE, evs, st)
             else Inr (Inr server_socket, evs, st)))"

section \<open>The loop and the thread\<close>

text \<open>
  One ready descriptor, with the answers to the \<open>accept\<close> calls it leads to, or the bytes
  \<open>recv\<close> stores. \<open>epoll_wait\<close> returns -1 (\<open>None\<close>) or a list of them.
\<close>

record ready_event =
  ready_fd :: int
  ready_events :: "32 word"
  accept_results :: "accept_result list"
  recv_result :: "char list option"

definition epoll_input :: "int \<Rightarrow> ready_event \<Rightarrow> input" where
  "epoll_input server_socket r =
     (if ready_fd r = server_socket then Accepting (accept_results r)
      else Event (ready_fd r) (ready_events r) (recv_result r))"

definition epoll_loop :: "int \<Rightarrow> ready_event list option list \<Rightarrow> input list" where
  "epoll_loop server_socket waits =
     concat (map (\<lambda>w. case w of None \<Rightarrow> [] | Some events \<Rightarrow> map (epoll_input server_socket) events) waits)"

text \<open>The loop of \<open>check_if_clients_are_alive\<close>, \<open>n\<close> times.\<close>

definition heartbeat_loop :: "nat \<Rightarrow> input list" where
  "heartbeat_loop n = concat (replicate n [Mark, Sweep])"

text \<open>
  Two threads under a scheduler: \<open>True\<close> lets the first make its next step, \<open>False\<close> the
  second; a thread with nothing left to do is passed over. Each thread keeps its order, and a
  schedule may stop anywhere.
\<close>

fun interleave :: "bool list \<Rightarrow> 'a list \<Rightarrow> 'a list \<Rightarrow> 'a list" where
  "interleave [] xs ys = []"
| "interleave (True # sched) [] ys = interleave sched [] ys"
| "interleave (True # sched) (x # xs) ys = x # interleave sched xs ys"
| "interleave (False # sched) xs [] = interleave sched xs []"
| "interleave (False # sched) xs (y # ys) = y # interleave sched xs ys"

text \<open>
  A run of the program: \<open>main\<close> starts and returns early, or the handlers of its loop, for what
  \<open>epoll_wait\<close> returns, and the halves of the heartbeat happen as scheduled, each on the next
  of the given machines. The heartbeat never comes to its end: it has a round for each step
  of the schedule.
\<close>

definition server_program ::
    "endian \<Rightarrow> server_env \<Rightarrow> sockaddr_in \<Rightarrow> string list \<Rightarrow> host list \<Rightarrow> ready_event list option list \<Rightarrow> bool list \<Rightarrow>
     ((exit_code + int) \<times> server) cres" where
  "server_program e env junk argv hosts waits sched =
     cbind (server_main e env junk argv) (\<lambda>(r, evs, st).
       case r of
         Inl code \<Rightarrow> Inr (Inl code, st)
       | Inr server_socket \<Rightarrow>
           cbind (server_run (zip hosts (interleave sched (epoll_loop server_socket waits)
                    (heartbeat_loop (length sched)))) st) (\<lambda>st'. Inr (Inr server_socket, st')))"

section \<open>What the program sends\<close>

text \<open>
  Every record sent is as long as the receivers' buffer, on machines where \<open>send\<close> fails or takes
  all it is given.
\<close>

definition whole_sends :: "host \<Rightarrow> bool" where
  "whole_sends h \<longleftrightarrow> wf_host h \<and> (\<forall>s. sent_bytes h s = None \<or> sent_bytes h s = Some MAX_MSG_NET_BUF)"

definition whole_records :: "event list \<Rightarrow> bool" where
  "whole_records evs \<longleftrightarrow> (\<forall>ev\<in>set evs. case ev of Sent s bs \<Rightarrow> length bs = MAX_MSG_NET_BUF | _ \<Rightarrow> True)"

lemma whole_records_simps [simp]:
  "whole_records []"
  "whole_records (evs @ evs') \<longleftrightarrow> whole_records evs \<and> whole_records evs'"
  "whole_records (ev # evs) \<longleftrightarrow> (case ev of Sent s bs \<Rightarrow> length bs = MAX_MSG_NET_BUF | _ \<Rightarrow> True) \<and> whole_records evs"
  by (auto simp: whole_records_def)

lemma write_at_length: "write_at buf off bs = Inr buf' \<Longrightarrow> length buf' = length buf"
  by (auto simp: write_at_def split: if_splits)

lemma serialize_length: "serialize_message_t e m buf = Inr b \<Longrightarrow> length b = length buf"
  by (auto simp: serialize_message_t_def cbind_eq_Inr Let_def dest!: write_at_length)

lemma send_message_whole:
  assumes "whole_sends h" "send_message h s m = Inr (r, ev)"
  shows "whole_records [ev]"
proof -
  obtain b where b: "serialize_message_t (byte_order h) m (stack h) = Inr b"
      "(case sent_bytes h s of None \<Rightarrow> (-1, Send_Failed s) | Some n \<Rightarrow> (0, Sent s (take n b))) = (r, ev)"
    using assms(2) by (auto simp: send_message_def cbind_eq_Inr split: option.splits)
  have "length b = MAX_MSG_NET_BUF"
    using serialize_length [OF b(1)] assms(1) by (simp add: whole_sends_def wf_host_def)
  moreover have "sent_bytes h s = None \<or> sent_bytes h s = Some MAX_MSG_NET_BUF"
    using assms(1) by (simp add: whole_sends_def)
  ultimately show ?thesis using b(2) by auto
qed

lemmas send_message_record = send_message_whole [rotated, simplified]

text \<open>An operation of the server only adds whole records to the trace.\<close>

definition adds_whole :: "server \<Rightarrow> server \<Rightarrow> bool" where
  "adds_whole st st' \<longleftrightarrow> (\<exists>evs. trace st' = trace st @ evs \<and> whole_records evs)"

lemma adds_whole_refl [simp]: "trace st' = trace st \<Longrightarrow> adds_whole st st'"
  by (simp add: adds_whole_def)

lemma adds_whole_append [simp]: "trace st' = trace st @ evs \<Longrightarrow> whole_records evs \<Longrightarrow> adds_whole st st'"
  by (auto simp: adds_whole_def)

lemma adds_whole_trans: "adds_whole st st' \<Longrightarrow> adds_whole st' st'' \<Longrightarrow> adds_whole st st''"
  by (fastforce simp: adds_whole_def)

lemma trace_changes [simp]:
  "trace (unlock st) = trace st" "trace (close_fd fd st) = trace st @ [Closed fd]"
  by (simp_all add: unlock_def close_fd_def)

lemma lock_trace: "lock st = Inr st' \<Longrightarrow> trace st' = trace st"
  by (auto simp: lock_def split: if_splits)

lemma send_to_others_whole:
  "whole_sends h \<Longrightarrow> send_to_others h sender m cs = Inr evs \<Longrightarrow> whole_records evs"
proof (induction cs arbitrary: evs)
  case (Cons c cs)
  then show ?case
    by (fastforce simp: cbind_eq_Inr dest: send_message_whole split: if_splits)
qed simp

lemma mark_alive_whole: "whole_sends h \<Longrightarrow> mark_alive h cs = Inr (cs', evs) \<Longrightarrow> whole_records evs"
proof (induction cs arbitrary: cs' evs)
  case (Cons c cs)
  then show ?case
    by (fastforce simp: cbind_eq_Inr dest: send_message_whole split: if_splits)
qed simp

lemma add_client_trace: "add_client name s st = Inr (r, st') \<Longrightarrow> trace st' = trace st"
  by (auto simp: add_client_def cbind_eq_Inr dest: lock_trace split: option.splits)

lemma new_client_whole:
  "whole_sends h \<Longrightarrow> handle_new_client h s fd st = Inr st' \<Longrightarrow> adds_whole st st'"
  by (auto simp: handle_new_client_def cbind_eq_Inr Let_def intro!: adds_whole_append
      dest!: add_client_trace dest: send_message_whole)

lemma delete_whole: "handle_client_delete name st = Inr st' \<Longrightarrow> adds_whole st st'"
  by (auto simp: handle_client_delete_def cbind_eq_Inr Let_def adds_whole_def dest!: lock_trace
      split: prod.splits if_splits)

lemma to_all_whole:
  "whole_sends h \<Longrightarrow> handle_to_all_message h s t st = Inr st' \<Longrightarrow> adds_whole st st'"
  by (auto simp: handle_to_all_message_def cbind_eq_Inr dest!: lock_trace dest: send_to_others_whole
      intro!: adds_whole_append)

lemma to_one_whole:
  "whole_sends h \<Longrightarrow> handle_to_one_message h s t st = Inr st' \<Longrightarrow> adds_whole st st'"
  by (auto simp: handle_to_one_message_def cbind_eq_Inr adds_whole_def dest!: lock_trace
      send_message_record split: option.splits)

lemma list_whole: "whole_sends h \<Longrightarrow> handle_list_request h fd st = Inr st' \<Longrightarrow> adds_whole st st'"
  by (auto simp: handle_list_request_def cbind_eq_Inr Let_def dest!: lock_trace dest: send_message_whole
      intro!: adds_whole_append)

lemma alive_whole: "handle_got_alive_message fd st = Inr st' \<Longrightarrow> adds_whole st st'"
  by (auto simp: handle_got_alive_message_def cbind_eq_Inr dest!: lock_trace)

lemma dispatch_whole:
  "whole_sends h \<Longrightarrow> dispatch_message h fd m st = Inr st' \<Longrightarrow> adds_whole st st'"
  by (auto simp: dispatch_message_def print_sender_def
      intro: new_client_whole delete_whole to_all_whole to_one_whole list_whole alive_whole
      split: option.splits message_type_t.splits if_splits)

lemma mark_whole: "whole_sends h \<Longrightarrow> heartbeat_mark h st = Inr st' \<Longrightarrow> adds_whole st st'"
  by (auto simp: heartbeat_mark_def cbind_eq_Inr dest!: lock_trace dest: mark_alive_whole
      intro!: adds_whole_append)

lemma sweep_whole: "heartbeat_sweep st = Inr st' \<Longrightarrow> adds_whole st st'"
  by (auto simp: sweep_result fold_close_fd whole_records_def adds_whole_def split: if_splits)

lemma server_step_whole:
  assumes "whole_sends h" "server_step h i st = Inr st'"
  shows "adds_whole st st'"
proof (cases i)
  case (Event fd evs received)
  with assms show ?thesis
    by (auto simp: on_epoll_event_def handle_client_message_def cbind_eq_Inr
        intro: dispatch_whole split: if_splits option.splits)
qed (use assms mark_whole sweep_whole in auto)

lemma server_run_whole:
  "list_all (\<lambda>(h, i). whole_sends h) is \<Longrightarrow> server_run is st = Inr st' \<Longrightarrow> adds_whole st st'"
proof (induction "is" st rule: server_run.induct)
  case (2 h i "is" st)
  then obtain st1 where "server_step h i st = Inr st1" "server_run is st1 = Inr st'"
    by (auto simp: cbind_eq_Inr)
  with 2 server_step_whole show ?case by (fastforce intro: adds_whole_trans)
qed simp

section \<open>Terminated names\<close>

text \<open>
  The name of every slot ends within its array: \<open>init_clients\<close> and \<open>handle_client_delete\<close> put a NUL
  into it, and a name that is copied in has just been printed.
\<close>

definition named :: "client_t list \<Rightarrow> bool" where
  "named cs \<longleftrightarrow> list_all (\<lambda>c. length (c_name c) = MAX_CLIENT_NAME \<and> terminated (c_name c)) cs"

lemma named_update: "named cs \<Longrightarrow> i < length cs \<longrightarrow> length nm = MAX_CLIENT_NAME \<and> terminated nm \<Longrightarrow> c_name c = nm \<Longrightarrow>
    named (cs[i := c])"
  by (cases "i < length cs") (auto simp: named_def list_all_length nth_list_update)

lemma named_map: "named cs \<Longrightarrow> (\<And>c. c_name (f c) = c_name c) \<Longrightarrow> named (map f cs)"
  by (simp add: named_def list_all_length)

lemma named_clear: "named cs \<Longrightarrow> named (clear_awaiting fd cs)"
  by (simp add: named_def list_all_length)

lemma named_insert:
  "named cs \<Longrightarrow> length nm = MAX_CLIENT_NAME \<Longrightarrow> terminated nm \<Longrightarrow> named (registry_insert cs nm s)"
  by (cases "find_free cs")
     (auto simp: registry_insert_slot registry_insert_full has_room_def intro!: named_update)

lemma named_remove:
  assumes "named cs" "wf_table cs" "ok_name nm"
  shows "named (registry_remove cs nm)"
proof (cases "first_index (has_name nm) cs")
  case None
  with assms show ?thesis by (simp add: registry_remove_absent key_map_def)
next
  case (Some i)
  have i: "i < length cs" using first_index_SomeD [OF Some] by simp
  with assms(1) have "length (c_name (cs ! i)) = MAX_CLIENT_NAME" by (simp add: named_def list_all_length)
  with assms Some show ?thesis
    by (simp add: registry_remove_slot) (rule named_update, auto simp: terminated_def set_update_memI wire_sizes)
qed

lemma dispatch_named:
  assumes "wf_table (clients st)" "named (clients st)" "wf_message m" "dispatch_message h fd m st = Inr st'"
  shows "named (clients st')"
proof -
  have len: "length (m_sender m) = MAX_CLIENT_NAME" using assms(3) by (simp add: wf_message_def)
  have new: "named (clients st')" if "handle_new_client h (m_sender m) fd st = Inr st'" "terminated (m_sender m)"
    using new_client_clients [OF that(1)] that(2) assms(1,2) len
    by (auto simp: add_client_result named_insert split: if_splits)
  have stop: "named (clients st')" if "handle_client_delete (m_sender m) st = Inr st'"
    using that assms(1,2) len
    by (auto simp: delete_result ok_name_array named_remove Let_def split: if_splits)
  have alive: "named (clients st')" if "handle_got_alive_message fd st = Inr st'"
    using that assms(2) by (auto simp: got_alive_result named_clear split: if_splits)
  show ?thesis
    using assms(2,4) new stop alive
    by (auto simp: dispatch_message_def print_sender_def
        dest: to_one_clients to_all_clients list_clients
        split: option.splits message_type_t.splits if_splits)
qed

lemma server_step_named:
  assumes "wf_host h" "wf_table (clients st)" "named (clients st)" "server_step h i st = Inr st'"
  shows "named (clients st')"
proof (cases i)
  case (Event fd evs received)
  show ?thesis
  proof (cases rule: receive_message_wf [OF assms(1), of received])
    case 1
    with Event assms show ?thesis
      by (auto simp: on_epoll_event_def handle_client_message_def split: if_splits)
  next
    case (2 m)
    with Event assms show ?thesis
      by (auto simp: on_epoll_event_def handle_client_message_def intro: dispatch_named split: if_splits)
  qed
next
  case Mark
  with assms show ?thesis
    by (auto simp: heartbeat_mark_def lock_def unlock_def emit_def cbind_eq_Inr named_map
        dest!: mark_alive_shape split: if_splits)
qed (use assms in \<open>auto simp: sweep_result fold_close_fd named_map split: if_splits\<close>)

lemma server_run_named:
  "list_all (\<lambda>(h, i). wf_host h) is \<Longrightarrow> wf_table (clients st) \<Longrightarrow> named (clients st) \<Longrightarrow>
   server_run is st = Inr st' \<Longrightarrow> named (clients st')"
  by (induction "is" st rule: server_run.induct)
     (auto simp: cbind_eq_Inr intro: server_step_named server_step_wf)

text \<open>The state in which \<open>main\<close> leaves the set-up, or returns from it.\<close>

lemma server_main_state:
  assumes "server_main e env junk argv = Inr (r, evs, st)"
  shows "wf_table (clients st)" "named (clients st)" "trace st = []" "\<forall>c\<in>set (clients st). \<not> c_valid c"
    "\<forall>code. r = Inl code \<longrightarrow> code = EXIT_FAILURE"
proof -
  have "st = boot_server \<or> init_clients boot_server = Inr st"
    using assms by (auto simp: server_main_def cbind_eq_Inr Let_def split: if_splits prod.splits)
  moreover have "wf_table (clients boot_server)" "named (clients boot_server)" "trace boot_server = []"
    "\<forall>c\<in>set (clients boot_server). \<not> c_valid c"
    by (simp_all add: boot_server_def zero_client_def named_def wf_table_def unique_names_def wf_client_def
        terminated_def list_all_iff wire_sizes)
  moreover have "wf_table (clients st)" "named (clients st)" "trace st = []" "\<forall>c\<in>set (clients st). \<not> c_valid c"
    if "init_clients boot_server = Inr st"
  proof -
    have "named (clients st)" "trace st = []"
      using that by (auto simp: init_clients_def boot_server_def lock_def unlock_def init_client_def zero_client_def
          named_def terminated_def list_all_iff wire_sizes set_update_memI)
    moreover have "wf_table (clients st)" "\<forall>c\<in>set (clients st). \<not> c_valid c"
      using that init_clients_result by auto
    ultimately show "wf_table (clients st)" "named (clients st)" "trace st = []" "\<forall>c\<in>set (clients st). \<not> c_valid c"
      by simp_all
  qed
  ultimately show "wf_table (clients st)" "named (clients st)" "trace st = []" "\<forall>c\<in>set (clients st). \<not> c_valid c"
    by blast+
  show "\<forall>code. r = Inl code \<longrightarrow> code = EXIT_FAILURE"
    using assms by (auto simp: server_main_def cbind_eq_Inr Let_def split: if_splits prod.splits)
qed

section \<open>Properties\<close>

text \<open>
  C13: the program keeps its types: however it is started, whatever it receives and wherever the
  schedule of its two threads stops, the table has its 100 slots, and the name of every slot, used
  or not, is an array of 64 bytes with its NUL inside, so that no \<open>strcat\<close> of \<open>handle_list_request\<close>
  reads past a name. An early return of \<open>main\<close> is a failure with nothing registered and
  nothing sent; and where \<open>send\<close> fails or takes all it is given, every record sent has the 1024
  bytes the receivers read.
\<close>

theorem server_program_well_typed:
  assumes "list_all wf_host hosts" "server_program e env junk argv hosts waits sched = Inr (r, st)"
  shows "length (clients st) = MAX_CLIENTS \<and>
    list_all (\<lambda>c. length (c_name c) = MAX_CLIENT_NAME \<and> terminated (c_name c)) (clients st) \<and>
    (\<forall>code. r = Inl code \<longrightarrow> code = EXIT_FAILURE \<and> list_all (\<lambda>c. \<not> c_valid c) (clients st) \<and> trace st = []) \<and>
    (list_all whole_sends hosts \<longrightarrow> whole_records (trace st))"
proof -
  obtain r0 evs st0 where main: "server_main e env junk argv = Inr (r0, evs, st0)"
      "(case r0 of Inl code \<Rightarrow> Inr (Inl code, st0)
        | Inr s \<Rightarrow> cbind (server_run (zip hosts (interleave sched (epoll_loop s waits) (heartbeat_loop (length sched)))) st0)
            (\<lambda>st'. Inr (Inr s, st'))) = Inr (r, st)"
    using assms(2) by (auto simp: server_program_def cbind_eq_Inr)
  note start = server_main_state [OF main(1)]
  show ?thesis
  proof (cases r0)
    case (Inl code)
    with main(2) have "r = Inl code" "st = st0" by auto
    with Inl start show ?thesis by (simp add: wf_table_def named_def list_all_iff)
  next
    case (Inr s)
    let ?is = "zip hosts (interleave sched (epoll_loop s waits) (heartbeat_loop (length sched)))"
    have run: "server_run ?is st0 = Inr st" "r = Inr s" using Inr main(2) by (auto simp: cbind_eq_Inr)
    have zipped: "list_all (\<lambda>(h, i). P h) ?is" if "list_all P hosts" for P
      using that by (auto simp: list_all_iff dest: set_zip_leftD)
    from zipped [OF assms(1)] start(1) run(1) have "wf_table (clients st)" by (rule server_run_wf)
    moreover from zipped [OF assms(1)] start(1,2) run(1) have "named (clients st)" by (rule server_run_named)
    moreover have "whole_records (trace st)" if "list_all whole_sends hosts"
      using server_run_whole [OF zipped [OF that] run(1)] start(3) by (auto simp: adds_whole_def)
    ultimately show ?thesis using run(2) by (simp add: wf_table_def named_def)
  qed
qed

text \<open>Arguments, kernel and host of a small run.\<close>

definition sample_net :: net_calls where
  "sample_net = \<lparr>inet_pton = (\<lambda>s. if s = ''127.0.0.1'' then Some 0x7F000001 else None), socket_result = 3,
     fcntl_works = True, bind_works = True, listen_works = True, connect_works = True\<rparr>"

definition sample_env :: server_env where
  "sample_env = \<lparr>net = sample_net, epoll_create_result = 4, epoll_add_works = True, thread_works = True\<rparr>"

definition blank_address :: sockaddr_in where
  "blank_address = \<lparr>sin_family = 0, sin_port = 0, sin_addr = 0\<rparr>"

lemma sample_setup:
  "\<exists>evs. setup_server_socket e sample_net junk ''127.0.0.1'' port = (3, evs)"
  by (simp add: setup_server_socket_def init_ipv4_address_def create_ipv4_socket_def sample_net_def Let_def)

lemma sample_main:
  "\<exists>evs st. server_main e sample_env junk [''server'', ''127.0.0.1'', port] = Inr (Inr 3, evs, st) \<and>
     init_clients boot_server = Inr st"
proof -
  obtain evs where "setup_server_socket e sample_net junk ''127.0.0.1'' (atoi port) = (3, evs)"
    using sample_setup by blast
  moreover obtain st where "init_clients boot_server = Inr st" using init_clients_result by blast
  ultimately show ?thesis by (simp add: server_main_def sample_env_def Let_def)
qed

theorem server_program_well_typed_witness:
  "(\<exists>st. server_program Little sample_env blank_address [''server'', ''127.0.0.1'', ''8080'']
       (replicate 3 (sample_host Little))
       [None, Some [\<lparr>ready_fd = 3, ready_events = EPOLLIN, accept_results = [Accept_Failed], recv_result = None\<rparr>]]
       [False, True, False] = Inr (Inr 3, st) \<and>
     length (clients st) = 100 \<and> list_all (\<lambda>c. terminated (c_name c)) (clients st) \<and> whole_records (trace st)) \<and>
   (\<exists>st. server_program Little sample_env blank_address [''server''] [] [] [] = Inr (Inl EXIT_FAILURE, st) \<and>
     list_all (\<lambda>c. \<not> c_valid c) (clients st))"
proof -
  let ?h = "sample_host Little"
  let ?waits = "[None, Some [\<lparr>ready_fd = 3, ready_events = EPOLLIN, accept_results = [Accept_Failed], recv_result = None\<rparr>]]"
  obtain evs st0 where main: "server_main Little sample_env blank_address [''server'', ''127.0.0.1'', ''8080''] = Inr (Inr 3, evs, st0)"
    "init_clients boot_server = Inr st0" using sample_main by blast
  then have "\<not> locked st0" "\<forall>c\<in>set (clients st0). \<not> c_valid c" using init_clients_result by auto
  then obtain st where "server_run [(?h, Mark), (?h, Accepting [Accept_Failed]), (?h, Sweep)] st0 = Inr st"
    by (auto simp: handler_results emit_def fold_close_fd)
  moreover have "zip (replicate 3 ?h) (interleave [False, True, False] (epoll_loop 3 ?waits) (heartbeat_loop (length [False, True, False]))) =
      [(?h, Mark), (?h, Accepting [Accept_Failed]), (?h, Sweep)]"
    by (simp add: epoll_loop_def heartbeat_loop_def epoll_input_def numeral_3_eq_3)
  ultimately have run: "server_program Little sample_env blank_address [''server'', ''127.0.0.1'', ''8080'']
      (replicate 3 ?h) ?waits [False, True, False] = Inr (Inr 3, st)"
    unfolding server_program_def main(1) by (simp only: cbind_Inr prod.case sum.case)
  have early: "server_program Little sample_env blank_address [''server''] [] [] [] = Inr (Inl EXIT_FAILURE, boot_server)"
    by (simp add: server_program_def server_main_def)
  have "list_all wf_host (replicate 3 ?h)" "list_all whole_sends (replicate 3 ?h)"
    by (simp_all add: whole_sends_def list_all_iff) (simp add: sample_host_def wire_sizes)
  with server_program_well_typed [OF _ run] server_program_well_typed [OF _ early] run early
  show ?thesis by (auto simp: wire_sizes list_all_iff)
qed

text \<open>
  The port a server listens on, and a client connects to, is the argument modulo
  \<open>2 ^ 16\<close>: \<open>htons\<close> cuts the \<open>int\<close>, and no check rejects a number that is no port. So client
  and server meet exactly when their arguments are the same modulo \<open>2 ^ 16\<close> and their
  addresses parse to the same 32 bits, on hosts of any byte order.
\<close>

theorem ports_are_cut:
  assumes "server_main e env junk argv = Inr (Inr s, evs, st)"
    and "connect_to_server e' net' junk' fd0 ip (atoi port') = (0, evs', fd)"
  shows "\<exists>a b. Bound s a \<in> set evs \<and> Listening s 10 \<in> set evs \<and> Connected fd b \<in> set evs' \<and>
    net_port e a = nat (atoi (argv ! 2) mod 2 ^ 16) \<and> net_port e' b = nat (atoi port' mod 2 ^ 16) \<and>
    Some (sin_addr a) = inet_pton (net env) (argv ! 1) \<and> Some (sin_addr b) = inet_pton net' ip"
proof -
  have listens: "setup_server_socket e (net env) junk (argv ! 1) (atoi (argv ! 2)) = (s, evs)" "s \<noteq> -1"
    using assms(1) by (auto simp: server_main_def cbind_eq_Inr Let_def split: if_splits prod.splits)
  from setup_server_socket_success [OF this] connect_to_server_success [OF assms(2)]
  show ?thesis by fastforce
qed

theorem ports_are_cut_witness:
  "\<exists>evs st evs' fd a b. server_main Little sample_env blank_address [''server'', ''127.0.0.1'', ''8080''] = Inr (Inr 3, evs, st) \<and>
     connect_to_server Big sample_net blank_address (-1) ''127.0.0.1'' (atoi ''73616'') = (0, evs', fd) \<and>
     Bound 3 a \<in> set evs \<and> Connected fd b \<in> set evs' \<and> net_port Little a = 8080 \<and> net_port Big b = 8080"
proof -
  obtain evs st where main: "server_main Little sample_env blank_address [''server'', ''127.0.0.1'', ''8080''] = Inr (Inr 3, evs, st)"
    using sample_main by blast
  obtain evs' fd where con: "connect_to_server Big sample_net blank_address (-1) ''127.0.0.1'' (atoi ''73616'') = (0, evs', fd)"
    by (simp add: connect_to_server_def init_ipv4_address_def create_ipv4_socket_def sample_net_def Let_def)
  have "atoi ''8080'' = 8080" "atoi ''73616'' = 73616" by code_simp+
  with ports_are_cut [OF main con] main con show ?thesis by fastforce
qed

end
