(* ===== verification/Chat_System.thy ===== *)
theory Chat_System
  imports Chat_Client Chat_Main
begin

text \<open>
  Clients and server of the chat together (\<^verbatim>\<open>cw11\<close>): what one client sends is what the server
  handles, and what the server sends is what other clients react to. All hosts have the same
  byte order, and the memory behind identifiers, arrays and literals can be read, as the
  programs rely on.
\<close>

section \<open>Between the programs\<close>

text \<open>A client's record in the server, and a server's record in a client.\<close>

lemma server_gets_record:
  assumes "wf_message m" "wf_host h" "wf_host hs" "byte_order hs = byte_order h"
  shows "handle_client_message hs s (Some (sent_record h m)) st = dispatch_message hs s (received_as m) st"
  using receive_sent [OF assms] by (simp add: handle_client_message_def)

lemma client_gets_chat:
  assumes "wf_message m" "wf_host hs" "wf_host h" "byte_order h = byte_order hs"
    and "m_type m = type_word SERVER_CHAT_MESSAGE" "terminated (m_sender m)" "terminated (m_text m)"
  shows "wait_for_message h ctime_r fd ident (Some (sent_record hs m)) =
    Inr ([Chat_Line (butlast (cstr (ctime_r (m_time (received_as m))))) (cstr (m_sender m)) (cstr (m_text m))], [], False)"
  using receive_sent [OF assms(1-4)] assms(5-7) by (simp add: wait_for_message_def)

lemma name_key_cstr: "length nm = MAX_CLIENT_NAME \<Longrightarrow> terminated nm \<Longrightarrow> name_key nm = cstr nm"
  using terminated_length [of nm] by (simp add: name_key_def)

text \<open>The time a chat line is printed with: the server's, modulo \<open>2 ^ 32\<close>.\<close>

definition line_time :: "host \<Rightarrow> (64 word \<Rightarrow> char list) \<Rightarrow> char list" where
  "line_time hs ctime_r = butlast (cstr (ctime_r (ucast (ucast (now hs) :: 32 word))))"

lemma received_as_time [simp]: "m_time (received_as m) = ucast (ucast (m_time m) :: 32 word)"
  by (simp add: received_as_def)

section \<open>Properties\<close>

text \<open>
  C14: a line \<open>to_all text\<close> typed into one client is printed by every other registered client,
  and sent to no one else, as one line with the sender's identifier and exactly the text.
\<close>

theorem to_all_line_is_printed:
  assumes "server_host hs" "\<forall>s. send_ok hs s" "wf_table (clients st)" "\<not> locked st"
    and "wf_host h" "send_ok h fd" "byte_order hs = byte_order h"
    and "NUL \<notin> set ident" "length ident < MAX_CLIENT_NAME" "MAX_CLIENT_NAME \<le> length env" "MAX_MESSAGE_TEXT \<le> length past"
    and "length line = MAX_MESSAGE_TEXT" "t \<noteq> []" "CHR 0x0A \<notin> set t" "NUL \<notin> set t" "length t + 9 \<le> MAX_MESSAGE_TEXT"
    and "wf_host h2" "byte_order h2 = byte_order h"
  shows "\<exists>bytes line' st' record sockets.
    user_input_step h fd (c_lit ident @ env) past line (''to_all'' @ CHR '' '' # t @ CHR 0x0A # rest) =
      Inr (Goes_On [Sent fd bytes] line' rest) \<and>
    handle_client_message hs s (Some bytes) st = Inr st' \<and> clients st' = clients st \<and>
    trace st' = trace st @ map (\<lambda>s. Sent s record) sockets \<and>
    sockets = map c_socket (filter (\<lambda>c. c_valid c \<and> name_key (c_name c) \<noteq> ident) (clients st)) \<and>
    set sockets = {s. \<exists>nm. key_map (clients st) nm = Some s \<and> name_key nm \<noteq> ident} \<and>
    wait_for_message h2 ctime_r fd2 ident2 (Some record) = Inr ([Chat_Line (line_time hs ctime_r) ident t], [], False)"
proof -
  have fits: "length ''to_all'' + length t + 3 \<le> MAX_MESSAGE_TEXT" using assms(16) by simp
  obtain m line' where step: "user_input_step h fd (c_lit ident @ env) past line (''to_all'' @ CHR '' '' # t @ CHR 0x0A # rest) =
      Inr (Goes_On [Sent fd (sent_record h m)] line' rest)"
    and m: "wf_message m" "terminated (m_sender m)" "terminated (m_text m)" "cstr (m_sender m) = ident" "cstr (m_text m) = t"
    and ty: "m_type m = type_word (if ''to_all'' = ''to_all'' then CLIENT_TO_ALL else CLIENT_TO_ONE)"
    by (rule typed_line_record [OF assms(5,6,8-12) disjI1 [OF refl] assms(13-15) fits])
  let ?m = "received_as m"
  let ?msg = "built_message hs (m_sender m) SERVER_CHAT_MESSAGE (m_text m)"
  let ?sockets = "map c_socket (filter (\<lambda>c. c_valid c \<and> name_key (c_name c) \<noteq> ident) (clients st))"
  have key: "name_key (m_sender m) = ident"
    using m name_key_cstr [of "m_sender m"] by (simp add: wf_message_def)
  have len: "length (m_sender m) = MAX_CLIENT_NAME" "length (m_text m) = MAX_MESSAGE_TEXT"
    using m(1) by (simp_all add: wf_message_def)
  have "deliver hs ?msg = (\<lambda>s. Sent s (sent_record hs ?msg))"
    using assms(1,2) len by (intro ext deliver_whole) simp_all
  moreover have "handle_client_message hs s (Some (sent_record h m)) st = dispatch_message hs s ?m st"
    using m(1) assms(1,5,7) by (intro server_gets_record) simp_all
  moreover have "dispatch_message hs s ?m st =
      Inr (emit (map (deliver hs ?msg) ?sockets) st)"
    using to_all_dispatch [of hs st ?m s] assms(1,3,4) m ty key by simp
  moreover have "wait_for_message h2 ctime_r fd2 ident2 (Some (sent_record hs ?msg)) =
      Inr ([Chat_Line (line_time hs ctime_r) ident t], [], False)"
    using client_gets_chat [of ?msg hs h2 ctime_r fd2 ident2] assms(1,7,17,18) m len
    by (simp add: built_message_def line_time_def wf_message_def)
  moreover have "set ?sockets = {s. \<exists>nm. key_map (clients st) nm = Some s \<and> name_key nm \<noteq> ident}"
    using key_map_sockets [of "clients st" _ ident] assms(3) by (auto simp: wf_table_def)
  ultimately show ?thesis using step
    by (intro exI [of _ "sent_record h m"] exI [of _ line'] exI [of _ "emit (map (deliver hs ?msg) ?sockets) st"]
        exI [of _ "sent_record hs ?msg"] exI [of _ ?sockets]) simp
qed

text \<open>
  C15: a line \<open>to_one name text\<close> is printed by the client registered under that name, with the
  sender's identifier and the text after the name, and sent to no one else; to an unknown name
  nothing is sent.
\<close>

theorem to_one_line_is_printed:
  assumes "server_host hs" "\<forall>s. send_ok hs s" "wf_table (clients st)" "\<not> locked st"
    and "wf_host h" "send_ok h fd" "byte_order hs = byte_order h"
    and "NUL \<notin> set ident" "length ident < MAX_CLIENT_NAME" "MAX_CLIENT_NAME \<le> length env" "MAX_MESSAGE_TEXT \<le> length past"
    and "length line = MAX_MESSAGE_TEXT" "nm \<noteq> []" "t \<noteq> []" "CHR '' '' \<notin> set nm"
    and "CHR 0x0A \<notin> set nm" "NUL \<notin> set nm" "CHR 0x0A \<notin> set t" "NUL \<notin> set t"
    and "length nm + length t + 10 \<le> MAX_MESSAGE_TEXT" "wf_host h2" "byte_order h2 = byte_order h"
  shows "\<exists>bytes line' st' record.
    user_input_step h fd (c_lit ident @ env) past line (''to_one'' @ CHR '' '' # (nm @ CHR '' '' # t) @ CHR 0x0A # rest) =
      Inr (Goes_On [Sent fd bytes] line' rest) \<and>
    handle_client_message hs s (Some bytes) st = Inr st' \<and> clients st' = clients st \<and>
    trace st' = trace st @ (case key_map (clients st) (c_lit nm) of None \<Rightarrow> [] | Some s2 \<Rightarrow> [Sent s2 record]) \<and>
    wait_for_message h2 ctime_r fd2 ident2 (Some record) = Inr ([Chat_Line (line_time hs ctime_r) ident t], [], False)"
proof -
  have tx: "nm @ CHR '' '' # t \<noteq> []" "CHR 0x0A \<notin> set (nm @ CHR '' '' # t)" "NUL \<notin> set (nm @ CHR '' '' # t)"
    and fits: "length ''to_one'' + length (nm @ CHR '' '' # t) + 3 \<le> MAX_MESSAGE_TEXT"
    using assms(16-20) by auto
  obtain m line' where step: "user_input_step h fd (c_lit ident @ env) past line
      (''to_one'' @ CHR '' '' # (nm @ CHR '' '' # t) @ CHR 0x0A # rest) = Inr (Goes_On [Sent fd (sent_record h m)] line' rest)"
    and m: "wf_message m" "terminated (m_sender m)" "terminated (m_text m)" "cstr (m_sender m) = ident"
      "cstr (m_text m) = nm @ CHR '' '' # t"
    and ty: "m_type m = type_word (if ''to_one'' = ''to_all'' then CLIENT_TO_ALL else CLIENT_TO_ONE)"
    by (rule typed_line_record [OF assms(5,6,8-12) disjI2 [OF refl] tx fits])
  let ?m = "received_as m"
  let ?msg = "forwarded hs ?m nm"
  let ?evs = "case key_map (clients st) (c_lit nm) of None \<Rightarrow> [] | Some s2 \<Rightarrow> [deliver hs ?msg s2]"
  obtain junk where junk: "m_text m = nm @ CHR '' '' # t @ NUL # junk"
    using terminated_split [OF m(3)] m(5) by auto
  have "wf_message ?m" "m_type ?m = type_word CLIENT_TO_ONE" "terminated (m_sender ?m)"
    "m_text ?m = nm @ CHR '' '' # t @ NUL # junk"
    using m ty junk by simp_all
  note one = to_one_dispatch [OF assms(1,3,4) this assms(15,17,13,19,14)]
  have short: "length t < MAX_MESSAGE_TEXT" using assms(20) by linarith
  have handled: "handle_client_message hs s (Some (sent_record h m)) st = Inr (emit ?evs st)"
    using server_gets_record [of m h hs s st] m(1) assms(1,5,7) one(1) by simp
  have evs: "?evs = (case key_map (clients st) (c_lit nm) of None \<Rightarrow> [] | Some s2 \<Rightarrow> [Sent s2 (sent_record hs ?msg)])"
    using assms(1,2) one(2) by (simp add: deliver_whole split: option.split)
  have "terminated (m_text ?msg)"
    using short by (simp add: forwarded_def built_message_def junk terminated_def take_Cons')
  moreover have "m_type ?msg = type_word SERVER_CHAT_MESSAGE" "m_time ?msg = now hs"
    by (simp_all add: forwarded_def built_message_def)
  ultimately have "wait_for_message h2 ctime_r fd2 ident2 (Some (sent_record hs ?msg)) =
      Inr ([Chat_Line (line_time hs ctime_r) ident t], [], False)"
    using client_gets_chat [of ?msg hs h2 ctime_r fd2 ident2] assms(1,7,21,22) m(2,4) one(2)
    by (simp add: line_time_def)
  with step handled evs show ?thesis
    by (intro exI [of _ "sent_record h m"] exI [of _ line'] exI [of _ "emit ?evs st"] exI [of _ "sent_record hs ?msg"]) simp
qed

section \<open>Registration and departure\<close>

text \<open>What a client sends of its own accord, without a text.\<close>

lemma client_notice:
  assumes "wf_host h" "roomy h" "NUL \<notin> set ident" "length ident < MAX_CLIENT_NAME" "MAX_CLIENT_NAME \<le> length env"
  obtains m where "init_message_t h (c_lit ident @ env) ty (lit h '''') = Inr m" "wf_message m"
    "terminated (m_sender m)" "cstr (m_sender m) = ident" "m_type m = type_word ty"
    "send_message h fd m = Inr (if sent_bytes h fd = None then -1 else 0, deliver h m fd)"
proof -
  have "MAX_MESSAGE_TEXT \<le> length (rodata h '''')" using assms(2) by (simp add: roomy_def)
  then show thesis
    using that client_message [of h ident env "''''" "rodata h ''''" ty fd thesis] assms
    by (simp add: lit_def wire_sizes)
qed

text \<open>The answer of the server to a registration, as \<open>register_on_server\<close> reads it.\<close>

lemma register_reply:
  assumes "server_host hs" "wf_host h" "byte_order h = byte_order hs"
    and "init_message_t h ident CLIENT_NEW (lit h '''') = Inr m" "send_message h fd m = Inr (0, Sent fd bytes)"
    and "ty = SERVER_OK_REGISTER \<or> ty = SERVER_FAILURE_REGISTER"
  shows "register_on_server h fd ident
      (Some (sent_record hs (built_message hs (lit hs ''SERVER'') ty (lit hs answer)))) =
    Inr (if ty = SERVER_OK_REGISTER then 0 else -1, [Sent fd bytes])"
proof -
  let ?r = "built_message hs (lit hs ''SERVER'') ty (lit hs answer)"
  have "wf_message ?r" using assms(1) by simp
  then have "receive_message h (Some (sent_record hs ?r)) = Inr (0, Some (received_as ?r))"
    using assms(1-3) by (intro receive_sent) simp_all
  moreover have "m_type ?r = type_word ty" by (simp add: built_message_def)
  ultimately show ?thesis using assms(4-6) by (auto simp: register_on_server_def)
qed

text \<open>
  C31: the registration of a client. On a free name the server binds the name to the
  connection and the client goes on; on a taken name the client gives up, the table is
  unchanged, and the server is left with its mutex locked.
\<close>

theorem registration_handshake:
  assumes "server_host hs" "send_ok hs s" "wf_table (clients st)" "\<not> locked st" "has_room (clients st)"
    and "wf_host h" "roomy h" "send_ok h fd" "byte_order h = byte_order hs"
    and "NUL \<notin> set ident" "length ident < MAX_CLIENT_NAME" "MAX_CLIENT_NAME \<le> length env"
    and "free = (key_map (clients st) (c_lit ident) = None)"
  shows "\<exists>bytes reply st'.
    register_on_server h fd (c_lit ident @ env) (Some reply) = Inr (if free then 0 else -1, [Sent fd bytes]) \<and>
    handle_client_message hs s (Some bytes) st = Inr st' \<and> trace st' = trace st @ [Sent s reply] \<and>
    (\<forall>nm. key_map (clients st') nm = (if free \<and> name_key nm = ident then Some s else key_map (clients st) nm)) \<and>
    (locked st' \<longleftrightarrow> \<not> free)"
proof -
  obtain m where m: "init_message_t h (c_lit ident @ env) CLIENT_NEW (lit h '''') = Inr m" "wf_message m"
    "terminated (m_sender m)" "cstr (m_sender m) = ident" "m_type m = type_word CLIENT_NEW"
    "send_message h fd m = Inr (if sent_bytes h fd = None then -1 else 0, deliver h m fd)"
    by (rule client_notice [OF assms(6,7,10-12)])
  have sent: "send_message h fd m = Inr (0, Sent fd (sent_record h m))"
    using m(2) assms(6,8) by (rule send_message_whole_record)
  have len: "length (m_sender m) = MAX_CLIENT_NAME" using m(2) by (simp add: wf_message_def)
  have key: "name_key (m_sender m) = ident" using m(3,4) len by (simp add: name_key_cstr)
  then have free: "free = (key_map (clients st) (m_sender m) = None)"
    using key_map_cong [of "m_sender m" "c_lit ident" "clients st"] assms(10,11,13) by (simp add: wire_sizes)
  let ?ty = "if free then SERVER_OK_REGISTER else SERVER_FAILURE_REGISTER"
  let ?answer = "if free then ''successfully registered'' else ''identifier already taken''"
  let ?reply = "sent_record hs (built_message hs (lit hs ''SERVER'') ?ty (lit hs ?answer))"
  let ?st = "if free then st\<lparr>clients := registry_insert (clients st) (m_sender m) s\<rparr> else st\<lparr>locked := True\<rparr>"
  have "register_on_server h fd (c_lit ident @ env) (Some ?reply) =
      Inr (if ?ty = SERVER_OK_REGISTER then 0 else -1, [Sent fd (sent_record h m)])"
    using assms(1,6,9) m(1) sent by (rule register_reply) auto
  moreover have "handle_client_message hs s (Some (sent_record h m)) st = Inr (emit [Sent s ?reply] ?st)"
    using server_gets_record [of m h hs s st] m assms(1-4,6,9) len free
    by (simp add: dispatch_message_def print_sender_def new_client_result server_says_def deliver_whole)
  moreover have "key_map (registry_insert (clients st) (m_sender m) s) nm =
      (if name_key nm = ident then Some s else key_map (clients st) nm)" if free for nm
    using registry.lookup_insert [of "clients st" "m_sender m"] that free assms(3,5) len key by simp
  ultimately show ?thesis using assms(4)
    by (intro exI [of _ "sent_record h m"] exI [of _ ?reply] exI [of _ "emit [Sent s ?reply] ?st"]) auto
qed

text \<open>
  A client that leaves, by the command \<open>stop\<close> or by \<open>SIGINT\<close>, is unregistered by the
  server, which closes its socket; all other names stay.
\<close>

theorem departure_unregisters:
  assumes "server_host hs" "wf_table (clients st)" "\<not> locked st" "key_map (clients st) (c_lit ident) = Some s" "s \<noteq> -1"
    and "wf_host h" "roomy h" "send_ok h fd" "byte_order h = byte_order hs"
    and "NUL \<notin> set ident" "length ident < MAX_CLIENT_NAME" "MAX_CLIENT_NAME \<le> length env" "length line = MAX_MESSAGE_TEXT"
  shows "\<exists>bytes st'.
    user_input_step h fd (c_lit ident @ env) past line (''stop'' @ CHR 0x0A # rest) = Inr (Returns [Sent fd bytes]) \<and>
    clean_exit h fd (c_lit ident @ env) = Inr [Sent fd bytes, Closed fd] \<and>
    handle_client_message hs s (Some bytes) st = Inr st' \<and> trace st' = trace st @ [Closed s] \<and> \<not> locked st' \<and>
    (\<forall>nm. key_map (clients st') nm = (if name_key nm = ident then None else key_map (clients st) nm))"
proof -
  obtain m where m: "init_message_t h (c_lit ident @ env) CLIENT_STOP (lit h '''') = Inr m" "wf_message m"
    "terminated (m_sender m)" "cstr (m_sender m) = ident" "m_type m = type_word CLIENT_STOP"
    "send_message h fd m = Inr (if sent_bytes h fd = None then -1 else 0, deliver h m fd)"
    by (rule client_notice [OF assms(6,7,10-12)])
  have sent: "send_message h fd m = Inr (0, Sent fd (sent_record h m))"
    using m(2) assms(6,8) by (rule send_message_whole_record)
  have len: "length (m_sender m) = MAX_CLIENT_NAME" using m(2) by (simp add: wf_message_def)
  have key: "name_key (m_sender m) = ident" using m(3,4) len by (simp add: name_key_cstr)
  then have at: "key_map (clients st) (m_sender m) = Some s"
    using key_map_cong [of "m_sender m" "c_lit ident" "clients st"] assms(4,10,11) by (simp add: wire_sizes)
  have "user_input_step h fd (c_lit ident @ env) past line (''stop'' @ CHR 0x0A # rest) = Inr (Returns [Sent fd (sent_record h m)])"
    using assms(13) m(1) sent by (rule user_input_stop_step)
  moreover have "clean_exit h fd (c_lit ident @ env) = Inr [Sent fd (sent_record h m), Closed fd]"
    using m(1) sent by (simp add: clean_exit_def)
  moreover have "handle_client_message hs s (Some (sent_record h m)) st =
      Inr (close_fd s (st\<lparr>clients := registry_remove (clients st) (m_sender m)\<rparr>))"
    using server_gets_record [of m h hs s st] m assms(1,2,3,5,6,9) len at
    by (simp add: dispatch_message_def print_sender_def delete_result ok_name_array)
  moreover have "key_map (registry_remove (clients st) (m_sender m)) nm =
      (if name_key nm = ident then None else key_map (clients st) nm)" for nm
    using registry.lookup_remove [OF assms(2) len] key by simp
  ultimately show ?thesis using assms(3)
    by (intro exI [of _ "sent_record h m"] exI [of _ "close_fd s (st\<lparr>clients := registry_remove (clients st) (m_sender m)\<rparr>)"])
       (simp add: close_fd_def)
qed

section \<open>The heartbeat between the programs\<close>

text \<open>The record by which the server asks, and a client program's answer to it.\<close>

definition check_record :: "host \<Rightarrow> char list" where
  "check_record hs = sent_record hs (built_message hs (lit hs ''SERVER'') SERVER_CHECK_ALIVE (lit hs ''''))"

definition client_answer :: "host \<Rightarrow> char list \<Rightarrow> bool" where
  "client_answer hs bytes \<longleftrightarrow>
     (\<exists>h ctime_r fd ident env. wf_host h \<and> roomy h \<and> byte_order h = byte_order hs \<and> NUL \<notin> set ident \<and>
        length ident < MAX_CLIENT_NAME \<and> MAX_CLIENT_NAME \<le> length env \<and> send_ok h fd \<and>
        wait_for_message h ctime_r fd (c_lit ident @ env) (Some (check_record hs)) = Inr ([], [Sent fd bytes], False))"

lemma client_answerI:
  "wait_for_message h ctime_r fd (c_lit ident @ env) (Some (check_record hs)) = Inr ([], [Sent fd bytes], False) \<Longrightarrow>
   wf_host h \<Longrightarrow> roomy h \<Longrightarrow> byte_order h = byte_order hs \<Longrightarrow> NUL \<notin> set ident \<Longrightarrow>
   length ident < MAX_CLIENT_NAME \<Longrightarrow> MAX_CLIENT_NAME \<le> length env \<Longrightarrow> send_ok h fd \<Longrightarrow> client_answer hs bytes"
  unfolding client_answer_def by blast

lemma client_answers_check:
  assumes "server_host hs" "wf_host h" "roomy h" "byte_order h = byte_order hs" "NUL \<notin> set ident"
    and "length ident < MAX_CLIENT_NAME" "MAX_CLIENT_NAME \<le> length env"
  obtains m where "wf_message m" "terminated (m_sender m)" "m_type m = type_word CLIENT_ALIVE"
    "wait_for_message h ctime_r fd (c_lit ident @ env) (Some (check_record hs)) =
       Inr ([], [deliver h m fd], False)"
proof -
  let ?r = "built_message hs (lit hs ''SERVER'') SERVER_CHECK_ALIVE (lit hs '''')"
  obtain m where m: "init_message_t h (c_lit ident @ env) CLIENT_ALIVE (lit h '''') = Inr m" "wf_message m"
    "terminated (m_sender m)" "cstr (m_sender m) = ident" "m_type m = type_word CLIENT_ALIVE"
    "send_message h fd m = Inr (if sent_bytes h fd = None then -1 else 0, deliver h m fd)"
    by (rule client_notice [OF assms(2,3,5-7)])
  have "receive_message h (Some (check_record hs)) = Inr (0, Some (received_as ?r))"
    unfolding check_record_def using assms(1,2,4) by (intro receive_sent) simp_all
  moreover have "m_type ?r = type_word SERVER_CHECK_ALIVE" by (simp add: built_message_def)
  ultimately show thesis
    using that [OF m(2,3,5)] m(1,6) by (simp add: wait_for_message_def)
qed

lemma client_answer_shows_alive:
  assumes "server_host hs" "client_answer hs bytes" "wf_host hr" "byte_order hr = byte_order hs"
  shows "shows_alive (hr, Event s EPOLLIN (Some bytes)) s"
proof -
  obtain h ctime_r fd ident env where c: "wf_host h" "roomy h" "byte_order h = byte_order hs" "NUL \<notin> set ident"
      "length ident < MAX_CLIENT_NAME" "MAX_CLIENT_NAME \<le> length env" "send_ok h fd"
      "wait_for_message h ctime_r fd (c_lit ident @ env) (Some (check_record hs)) = Inr ([], [Sent fd bytes], False)"
    using assms(2) by (auto simp: client_answer_def)
  obtain m where m: "wf_message m" "terminated (m_sender m)" "m_type m = type_word CLIENT_ALIVE"
    "wait_for_message h ctime_r fd (c_lit ident @ env) (Some (check_record hs)) = Inr ([], [deliver h m fd], False)"
    by (rule client_answers_check [OF assms(1) c(1-6)])
  with c(1,7,8) have "bytes = sent_record h m" by (simp add: deliver_whole)
  then show ?thesis
    using server_gets_record [of m h hr s] m c(1,3) assms(3,4)
    by (simp add: shows_alive_def on_epoll_event_def EPOLLIN_def EPOLLERR_def EPOLLHUP_def dispatch_alive)
qed

text \<open>
  C20: a round of the heartbeat with client programs on the other side. Every registered client
  is sent the check. A client stays registered, with its name and socket, exactly when a client
  program's answer to the check has arrived on its connection when the sweep comes and no
  earlier slot of the array, used or left behind, has its descriptor number; a client that
  answered behind such a slot is unregistered all the same.
\<close>

theorem answering_clients_stay:
  assumes "server_host hs" "\<forall>s. send_ok hs s" "\<not> locked st"
    and "list_all (\<lambda>(hr, s, bytes). wf_host hr \<and> byte_order hr = byte_order hs \<and> client_answer hs bytes) answers"
    and "answered = (\<lambda>(hr, s, bytes). s) ` set answers"
  shows "\<exists>st1 st2. server_step hs Mark st = Inr st1 \<and>
    trace st1 = trace st @ map (\<lambda>c. Sent (c_socket c) (check_record hs)) (filter c_valid (clients st)) \<and>
    server_run (map (\<lambda>(hr, s, bytes). (hr, Event s EPOLLIN (Some bytes))) answers @ [(h', Sweep)]) st1 = Inr st2 \<and>
    (\<forall>i<length (clients st).
       c_name (clients st2 ! i) = c_name (clients st ! i) \<and> c_socket (clients st2 ! i) = c_socket (clients st ! i) \<and>
       (c_valid (clients st2 ! i) \<longleftrightarrow> c_valid (clients st ! i) \<and> c_socket (clients st ! i) \<in> answered \<and>
          (\<forall>j<i. c_socket (clients st ! j) \<noteq> c_socket (clients st ! i))))"
proof -
  let ?ins = "map (\<lambda>(hr, s, bytes). (hr, Event s EPOLLIN (Some bytes))) answers"
  let ?fds = "map (\<lambda>(hr, s, bytes). s) answers"
  have "list_all2 shows_alive ?ins ?fds"
    using assms(4) by (induction answers) (auto intro: client_answer_shows_alive [OF assms(1)])
  from heartbeat_keeps [OF assms(1,3) this, of h', unfolded set_map, folded assms(5)] obtain st2 where
    run: "server_run ((hs, Mark) # ?ins @ [(h', Sweep)]) st = Inr st2" and st2: "heartbeat_outcome hs answered st st2"
    by blast
  let ?st1 = "emit (map (\<lambda>c. server_says hs SERVER_CHECK_ALIVE (lit hs '''') (c_socket c)) (filter c_valid (clients st)))
      (st\<lparr>clients := map mark_client (clients st)\<rparr>)"
  have mark: "server_step hs Mark st = Inr ?st1" using assms(1,3) by (simp add: mark_result)
  have "server_says hs SERVER_CHECK_ALIVE (lit hs '''') s = Sent s (check_record hs)" for s
    using assms(1,2) by (simp add: server_says_def deliver_whole check_record_def)
  then have "trace ?st1 = trace st @ map (\<lambda>c. Sent (c_socket c) (check_record hs)) (filter c_valid (clients st))"
    by simp
  moreover have "server_run (?ins @ [(h', Sweep)]) ?st1 = Inr st2"
    using mark run by (simp del: server_step.simps)
  ultimately show ?thesis
    using mark st2 by (intro exI [of _ ?st1] exI [of _ st2]) (simp add: heartbeat_outcome_def stays_def shadowed_def)
qed

section \<open>A conversation\<close>

text \<open>
  The properties on the concrete server with \<open>ann\<close> on connection 5 and \<open>bob\<close> on 6, a client
  \<open>ann\<close> whose socket is 3, and a client \<open>eve\<close> who joins.
\<close>

lemma sample_conditions [simp]:
  "roomy (sample_host e)" "send_ok (sample_host e) s" "byte_order (sample_host e) = e"
  by (auto simp: roomy_def sample_host_def send_ok_def wire_sizes)

theorem to_all_line_is_printed_witness:
  "\<exists>bytes line' st' record.
    user_input_step (sample_host Little) 3 (c_lit ''ann'' @ replicate 64 NUL) (replicate 512 NUL) (replicate 512 NUL)
      (''to_all hi'' @ [CHR 0x0A]) = Inr (Goes_On [Sent 3 bytes] line' []) \<and>
    handle_client_message (sample_host Little) 5 (Some bytes) ann_bob_server = Inr st' \<and>
    trace st' = [Sent 6 record] \<and>
    wait_for_message (sample_host Little) (\<lambda>_. ''now!'' @ [NUL]) 3 [] (Some record) =
      Inr ([Chat_Line ''now'' ''ann'' ''hi''], [], False)"
proof -
  have "line_time (sample_host Little) (\<lambda>_. ''now!'' @ [NUL]) = ''now''" by (simp add: line_time_def)
  then show ?thesis
    using to_all_line_is_printed [of "sample_host Little" ann_bob_server "sample_host Little" 3 "''ann''" "replicate 64 NUL"
        "replicate 512 NUL" "replicate 512 NUL" "''hi''" "sample_host Little" "[]" 5 "\<lambda>_. ''now!'' @ [NUL]" 3 "[]"]
    by (fastforce simp: wire_sizes ann_bob_others)
qed

theorem to_one_line_is_printed_witness:
  "\<exists>bytes line' st' record.
    user_input_step (sample_host Big) 3 (c_lit ''ann'' @ replicate 64 NUL) (replicate 512 NUL) (replicate 512 NUL)
      (''to_one bob hi'' @ [CHR 0x0A]) = Inr (Goes_On [Sent 3 bytes] line' []) \<and>
    handle_client_message (sample_host Big) 5 (Some bytes) ann_bob_server = Inr st' \<and>
    trace st' = [Sent 6 record] \<and>
    wait_for_message (sample_host Big) (\<lambda>_. ''now!'' @ [NUL]) 3 [] (Some record) =
      Inr ([Chat_Line ''now'' ''ann'' ''hi''], [], False)"
proof -
  have "line_time (sample_host Big) (\<lambda>_. ''now!'' @ [NUL]) = ''now''" by (simp add: line_time_def)
  then show ?thesis
    using to_one_line_is_printed [of "sample_host Big" ann_bob_server "sample_host Big" 3 "''ann''" "replicate 64 NUL"
        "replicate 512 NUL" "replicate 512 NUL" "''bob''" "''hi''" "sample_host Big" "[]" 5 "\<lambda>_. ''now!'' @ [NUL]" 3 "[]"]
    by (fastforce simp: wire_sizes)
qed

theorem registration_handshake_witness:
  "\<exists>bytes reply st'. register_on_server (sample_host Little) 3 (c_lit ''eve'' @ replicate 64 NUL) (Some reply) = Inr (0, [Sent 3 bytes]) \<and>
     handle_client_message (sample_host Little) 9 (Some bytes) ann_bob_server = Inr st' \<and>
     key_map (clients st') (c_lit ''eve'') = Some 9 \<and> key_map (clients st') (c_lit ''bob'') = Some 6"
  using registration_handshake [of "sample_host Little" 9 ann_bob_server "sample_host Little" 3 "''eve''" "replicate 64 NUL" True]
  by (fastforce simp: wire_sizes)

theorem departure_unregisters_witness:
  "\<exists>bytes st'. user_input_step (sample_host Little) 3 (c_lit ''ann'' @ replicate 64 NUL) [] (replicate 512 NUL)
      (''stop'' @ [CHR 0x0A]) = Inr (Returns [Sent 3 bytes]) \<and>
     handle_client_message (sample_host Little) 5 (Some bytes) ann_bob_server = Inr st' \<and>
     key_map (clients st') (c_lit ''ann'') = None \<and> key_map (clients st') (c_lit ''bob'') = Some 6"
  using departure_unregisters [of "sample_host Little" ann_bob_server "''ann''" 5 "sample_host Little" 3 "replicate 64 NUL"
      "replicate 512 NUL" "[]" "[]"]
  by (fastforce simp: wire_sizes)

theorem answering_clients_stay_witness:
  "\<exists>bytes st1 st2. client_answer (sample_host Little) bytes \<and> server_step (sample_host Little) Mark ann_bob_server = Inr st1 \<and>
     server_run [(sample_host Little, Event 6 EPOLLIN (Some bytes)), (sample_host Little, Sweep)] st1 = Inr st2 \<and>
     \<not> c_valid (clients st2 ! 0) \<and> c_valid (clients st2 ! 1)"
proof -
  let ?h = "sample_host Little"
  have cs: "2 \<le> length (clients ann_bob_server)" "clients ann_bob_server \<noteq> []" "c_valid (clients ann_bob_server ! 1)"
    "c_socket (clients ann_bob_server ! 0) = 5" "c_socket (clients ann_bob_server ! 1) = 6"
    by (simp_all add: ann_bob_server_def)
  obtain m where m: "wf_message m"
    "wait_for_message ?h (\<lambda>_. []) 3 (c_lit ''bob'' @ replicate 64 NUL) (Some (check_record ?h)) = Inr ([], [deliver ?h m 3], False)"
    by (rule client_answers_check [of ?h ?h "''bob''" "replicate 64 NUL" "\<lambda>_. []" 3]) (simp_all add: wire_sizes)
  have "deliver ?h m 3 = Sent 3 (sent_record ?h m)" using m(1) by (intro deliver_whole) simp_all
  with m(2) have ans: "client_answer ?h (sent_record ?h m)"
    by (intro client_answerI [where h = ?h and ident = "''bob''" and env = "replicate 64 NUL"]) (simp_all add: wire_sizes)
  obtain st1 st2 where run: "server_step ?h Mark ann_bob_server = Inr st1"
     "server_run [(?h, Event 6 EPOLLIN (Some (sent_record ?h m))), (?h, Sweep)] st1 = Inr st2"
     "\<forall>i<length (clients ann_bob_server). (c_valid (clients st2 ! i) \<longleftrightarrow> c_valid (clients ann_bob_server ! i) \<and>
        c_socket (clients ann_bob_server ! i) = 6 \<and> (\<forall>j<i. c_socket (clients ann_bob_server ! j) \<noteq> c_socket (clients ann_bob_server ! i)))"
    using answering_clients_stay [of ?h ann_bob_server "[(?h, 6, sent_record ?h m)]" "{6}" ?h] ans
    by (auto simp del: server_step.simps server_run.simps)
  have "\<not> c_valid (clients st2 ! 0)" "c_valid (clients st2 ! 1)"
    using run(3) [rule_format, of 0] run(3) [rule_format, of 1] cs by auto
  with ans run(1,2) show ?thesis by blast
qed

end
