(* ===== verification/Print_Queue.thy ===== *)
theory Print_Queue
  imports C_Base
begin

text \<open>
  The shared queue of print jobs of \<^verbatim>\<open>cw08\<close> (\<^verbatim>\<open>shared_memory_spec.h\<close>, and the sequential
  parts of \<^verbatim>\<open>printers_server.c\<close> and \<^verbatim>\<open>users_client.c\<close>): the ring buffer in the shared
  segment, the code of the two critical sections, its setup, and the generation of a job.
  The ring is shown to implement a bounded FIFO queue.
\<close>

section \<open>\<^verbatim>\<open>shared_memory_spec.h\<close>\<close>

definition PRINTER_BUFFER_SIZE :: nat where "PRINTER_BUFFER_SIZE = 3"
definition MAX_PRINTERS :: int where "MAX_PRINTERS = 50"
definition MAX_JOBS :: nat where "MAX_JOBS = 10"

type_synonym job = "char list"

text \<open>A semaphore is its value. \<open>head\<close> and \<open>tail\<close> never leave \<open>0 .. MAX_JOBS - 1\<close>.\<close>

record print_queue_t =
  jobs :: "job list"
  head :: nat
  tail :: nat
  mutex :: nat
  empty :: nat
  full :: nat

section \<open>Operations\<close>

text \<open>
  The three \<open>sem_init\<close> calls succeed or fail; on a failure the queue in shared memory is
  not written.
\<close>

definition fresh_queue :: print_queue_t where
  "fresh_queue = \<lparr>jobs = replicate MAX_JOBS (replicate PRINTER_BUFFER_SIZE NUL), head = 0, tail = 0,
     mutex = 1, empty = MAX_JOBS, full = 0\<rparr>"

definition setup_printer_queue ::
    "bool \<Rightarrow> bool \<Rightarrow> bool \<Rightarrow> print_queue_t \<Rightarrow> int \<times> print_queue_t" where
  "setup_printer_queue mutex_ok empty_ok full_ok queue =
     (if \<not> mutex_ok then (-1, queue)
      else if \<not> empty_ok then (-1, queue)
      else if \<not> full_ok then (-1, queue)
      else (0, fresh_queue))"

text \<open>\<open>memcpy(queue->jobs[queue->tail], buf, PRINTER_BUFFER_SIZE)\<close>, and the advance of \<open>tail\<close>.\<close>

definition store_job :: "job \<Rightarrow> print_queue_t \<Rightarrow> print_queue_t" where
  "store_job buf q = q\<lparr>jobs := (jobs q)[tail q := buf]\<rparr>"

definition advance_tail :: "print_queue_t \<Rightarrow> print_queue_t" where
  "advance_tail q = q\<lparr>tail := (tail q + 1) mod MAX_JOBS\<rparr>"

text \<open>\<open>memcpy(job, queue->jobs[queue->head], PRINTER_BUFFER_SIZE)\<close>, and the advance of \<open>head\<close>.\<close>

definition load_job :: "print_queue_t \<Rightarrow> job" where
  "load_job q = jobs q ! head q"

definition advance_head :: "print_queue_t \<Rightarrow> print_queue_t" where
  "advance_head q = q\<lparr>head := (head q + 1) mod MAX_JOBS\<rparr>"

text \<open>\<open>generate_random_text(buf, size)\<close>, with the results of the calls of \<open>rand\<close>.\<close>

definition generate_random_text :: "(nat \<Rightarrow> nat) \<Rightarrow> nat \<Rightarrow> job" where
  "generate_random_text rand sz = map (\<lambda>i. char_of (of_char (CHR ''a'') + rand i mod 26)) [0..<sz - 1] @ [NUL]"

section \<open>The ring as a list\<close>

text \<open>
  The struct does not record how many jobs it holds (\<open>head = tail\<close> means empty or full);
  the count is the semaphores' business. \<open>ring_items n q\<close> are the \<open>n\<close> jobs from \<open>head\<close> on.
\<close>

definition ring_items :: "nat \<Rightarrow> print_queue_t \<Rightarrow> job list" where
  "ring_items n q = map (\<lambda>i. jobs q ! ((head q + i) mod MAX_JOBS)) [0..<n]"

definition wf_ring :: "nat \<Rightarrow> print_queue_t \<Rightarrow> bool" where
  "wf_ring n q \<longleftrightarrow> length (jobs q) = MAX_JOBS \<and> head q < MAX_JOBS \<and> n \<le> MAX_JOBS \<and>
     tail q = (head q + n) mod MAX_JOBS"

lemma ring_items_length [simp]: "length (ring_items n q) = n"
  by (simp add: ring_items_def)

lemma wf_ring_tail: "wf_ring n q \<Longrightarrow> tail q < MAX_JOBS"
  by (simp add: wf_ring_def MAX_JOBS_def)

lemma ring_slot_distinct:
  assumes "n < MAX_JOBS" "i < n"
  shows "(h + i) mod MAX_JOBS \<noteq> (h + n) mod MAX_JOBS"
proof
  assume "(h + i) mod MAX_JOBS = (h + n) mod MAX_JOBS"
  then have "MAX_JOBS dvd n - i"
    using assms(2) mod_eq_dvd_iff_nat [of "h + i" "h + n" MAX_JOBS] by simp
  with assms show False by (auto dest: dvd_imp_le)
qed

lemma ring_items_store: "wf_ring n q \<Longrightarrow> n < MAX_JOBS \<Longrightarrow> ring_items n (store_job buf q) = ring_items n q"
  by (auto simp: ring_items_def store_job_def wf_ring_def ring_slot_distinct [THEN not_sym])

lemma wf_ring_store [inv_intros]: "wf_ring n q \<Longrightarrow> wf_ring n (store_job buf q)"
  by (simp add: wf_ring_def store_job_def)

lemma ring_items_advance_tail:
  "wf_ring n q \<Longrightarrow> ring_items (Suc n) (advance_tail q) = ring_items n q @ [jobs q ! tail q]"
  by (simp add: ring_items_def advance_tail_def wf_ring_def)

lemma wf_ring_advance_tail [inv_intros]: "wf_ring n q \<Longrightarrow> n < MAX_JOBS \<Longrightarrow> wf_ring (Suc n) (advance_tail q)"
  by (simp add: wf_ring_def advance_tail_def mod_Suc_eq)

lemma load_job_hd: "wf_ring n q \<Longrightarrow> 0 < n \<Longrightarrow> load_job q = hd (ring_items n q)"
  by (simp add: load_job_def ring_items_def hd_map wf_ring_def)

lemma ring_items_advance_head:
  assumes "wf_ring (Suc n) q"
  shows "ring_items n (advance_head q) = tl (ring_items (Suc n) q)"
proof -
  have "((head q + 1) mod MAX_JOBS + i) mod MAX_JOBS = (head q + Suc i) mod MAX_JOBS" for i
    by (simp add: mod_add_left_eq)
  moreover have "[0..<Suc n] = 0 # map Suc [0..<n]" by (simp add: upt_conv_Cons map_Suc_upt)
  ultimately show ?thesis by (simp add: ring_items_def advance_head_def comp_def del: upt_Suc)
qed

lemma wf_ring_advance_head [inv_intros]: "wf_ring (Suc n) q \<Longrightarrow> wf_ring n (advance_head q)"
  by (simp add: wf_ring_def advance_head_def mod_add_left_eq MAX_JOBS_def)

lemma wf_fresh_queue: "wf_ring 0 fresh_queue"
  by (simp add: wf_ring_def fresh_queue_def MAX_JOBS_def)

lemma ring_items_0 [simp]: "ring_items 0 q = []"
  by (simp add: ring_items_def)

section \<open>A bounded FIFO queue\<close>

locale bounded_fifo =
  fixes enq :: "'a \<Rightarrow> 'q \<Rightarrow> 'q"
    and front :: "'q \<Rightarrow> 'a"
    and deq :: "'q \<Rightarrow> 'q"
    and items :: "'q \<Rightarrow> 'a list"
    and inv :: "'q \<Rightarrow> bool"
    and capacity :: nat
  assumes inv_enq: "inv q \<Longrightarrow> length (items q) < capacity \<Longrightarrow> inv (enq x q)"
    and items_enq: "inv q \<Longrightarrow> length (items q) < capacity \<Longrightarrow> items (enq x q) = items q @ [x]"
    and inv_deq: "inv q \<Longrightarrow> items q \<noteq> [] \<Longrightarrow> inv (deq q)"
    and items_deq: "inv q \<Longrightarrow> items q \<noteq> [] \<Longrightarrow> items q = front q # items (deq q)"
begin

text \<open>
  A schedule of insertions (\<open>Some x\<close>) and removals (\<open>None\<close>); \<open>serve\<close> returns what the
  removals took and the final queue, or nothing if an insertion found the queue full or a
  removal found it empty.
\<close>

fun serve :: "'a option list \<Rightarrow> 'q \<Rightarrow> ('a list \<times> 'q) option" where
  "serve [] q = Some ([], q)"
| "serve (Some x # ops) q = (if length (items q) < capacity then serve ops (enq x q) else None)"
| "serve (None # ops) q =
     (if items q = [] then None
      else map_option (\<lambda>(out, q'). (front q # out, q')) (serve ops (deq q)))"

definition inserted :: "'a option list \<Rightarrow> 'a list" where
  "inserted ops = List.map_filter id ops"

lemma serve_fifo:
  "serve ops q = Some (out, q') \<Longrightarrow> inv q \<Longrightarrow> inv q' \<and> items q @ inserted ops = out @ items q'"
proof (induction ops q arbitrary: out q' rule: serve.induct)
  case (1 q)
  then show ?case by (simp add: inserted_def)
next
  case (2 x ops q)
  then show ?case by (auto simp: inserted_def items_enq inv_enq split: if_splits)
next
  case (3 ops q)
  then obtain out2 where "serve ops (deq q) = Some (out2, q')" "out = front q # out2" "items q \<noteq> []"
    by (auto split: if_splits)
  moreover from this have "inv q' \<and> items (deq q) @ inserted ops = out2 @ items q'"
    using 3 by (intro 3(1)) (simp_all add: inv_deq)
  moreover have "items q = front q # items (deq q)"
    using 3 \<open>items q \<noteq> []\<close> by (intro items_deq)
  ultimately show ?case by (simp add: inserted_def)
qed

lemma serve_succeeds:
  assumes "inv q" "length (items q) + length (filter (\<lambda>x. x \<noteq> None) ops) \<le> capacity"
    "None \<notin> set ops"
  shows "\<exists>q'. serve ops q = Some ([], q')"
  using assms
proof (induction ops arbitrary: q)
  case (Cons a ops)
  then obtain x where "a = Some x" by (cases a) auto
  with Cons.prems Cons.IH [of "enq x q"] show ?case by (simp add: inv_enq items_enq)
qed simp

end

text \<open>The ring with the number of its jobs, and the two critical sections as wholes.\<close>

type_synonym counted_ring = "nat \<times> print_queue_t"

definition put_job :: "job \<Rightarrow> counted_ring \<Rightarrow> counted_ring" where
  "put_job buf = (\<lambda>(n, q). (Suc n, advance_tail (store_job buf q)))"

definition front_job :: "counted_ring \<Rightarrow> job" where
  "front_job = (\<lambda>(n, q). load_job q)"

definition drop_job :: "counted_ring \<Rightarrow> counted_ring" where
  "drop_job = (\<lambda>(n, q). (n - 1, advance_head q))"

lemma store_job_tail [simp]: "wf_ring n q \<Longrightarrow> jobs (store_job buf q) ! tail (store_job buf q) = buf"
  by (simp add: store_job_def wf_ring_def MAX_JOBS_def)

interpretation ring: bounded_fifo put_job front_job drop_job
  "\<lambda>(n, q). ring_items n q" "\<lambda>(n, q). wf_ring n q" MAX_JOBS
proof (unfold_locales, goal_cases)
  case (1 c x)
  then show ?case by (cases c) (simp add: put_job_def inv_intros)
next
  case (2 c x)
  then show ?case
    by (cases c) (simp add: put_job_def ring_items_advance_tail [OF wf_ring_store] ring_items_store)
next
  case (3 c)
  then show ?case by (cases c; cases "fst c") (simp_all add: drop_job_def inv_intros)
next
  case (4 c)
  obtain n q where c: "c = (n, q)" by (cases c)
  with 4 obtain m where n: "n = Suc m" by (cases n) auto
  with 4 c have "ring_items n q = hd (ring_items n q) # tl (ring_items n q)"
    by (intro hd_Cons_tl [symmetric]) auto
  with 4 c n show ?case
    by (simp add: front_job_def drop_job_def ring_items_advance_head load_job_hd del: upt_Suc)
qed

end
