(* ===== verification/Transition.thy ===== *)
theory Transition
  imports C_Base
begin

text \<open>
  Transition systems, for the programs whose processes or threads interleave: the
  reachable states of a step relation, inductive invariants and progress as locales, and
  counting of the processes at given program points.
\<close>

section \<open>Reachable states\<close>

inductive reach :: "('s \<Rightarrow> bool) \<Rightarrow> ('s \<Rightarrow> 's \<Rightarrow> bool) \<Rightarrow> 's \<Rightarrow> bool"
  for init :: "'s \<Rightarrow> bool" and step :: "'s \<Rightarrow> 's \<Rightarrow> bool" where
  reach_init: "init s \<Longrightarrow> reach init step s"
| reach_step: "reach init step s \<Longrightarrow> step s t \<Longrightarrow> reach init step t"

lemma reach_steps: "reach init step s \<Longrightarrow> step\<^sup>*\<^sup>* s t \<Longrightarrow> reach init step t"
  by (rotate_tac, induction rule: rtranclp_induct) (auto intro: reach_step)

locale inductive_invariant =
  fixes init :: "'s \<Rightarrow> bool"
    and step :: "'s \<Rightarrow> 's \<Rightarrow> bool"
    and inv :: "'s \<Rightarrow> bool"
  assumes inv_init: "init s \<Longrightarrow> inv s"
    and inv_step: "inv s \<Longrightarrow> step s t \<Longrightarrow> inv t"
begin

lemma reachable_inv: "reach init step s \<Longrightarrow> inv s"
  by (induction rule: reach.induct) (auto intro: inv_init inv_step)

lemma steps_inv: "step\<^sup>*\<^sup>* s t \<Longrightarrow> inv s \<Longrightarrow> inv t"
  by (induction rule: rtranclp_induct) (auto intro: inv_step)

end

text \<open>A system that moves from every good state: no reachable state is a deadlock.\<close>

locale live_system = inductive_invariant +
  assumes inv_enabled: "inv s \<Longrightarrow> \<exists>t. step s t"
begin

lemma no_deadlock: "reach init step s \<Longrightarrow> \<exists>t. step s t"
  by (blast intro: inv_enabled reachable_inv)

end

section \<open>Counting processes\<close>

definition count_where :: "('a \<Rightarrow> bool) \<Rightarrow> 'a list \<Rightarrow> nat" where
  "count_where P xs = length (filter P xs)"

lemma count_where_simps [simp]:
  "count_where P [] = 0"
  "count_where P (x # xs) = (if P x then 1 else 0) + count_where P xs"
  by (simp_all add: count_where_def)

lemma count_where_update:
  "i < length xs \<Longrightarrow>
   count_where P (xs[i := x]) + (if P (xs ! i) then 1 else 0) = count_where P xs + (if P x then 1 else 0)"
proof (induction xs arbitrary: i)
  case (Cons y ys)
  then show ?case by (cases i) auto
qed simp

lemma count_where_pos: "i < length xs \<Longrightarrow> P (xs ! i) \<Longrightarrow> 0 < count_where P xs"
  by (auto simp: count_where_def filter_empty_conv)

lemma count_where_0: "count_where P xs = 0 \<longleftrightarrow> (\<forall>x\<in>set xs. \<not> P x)"
  by (auto simp: count_where_def filter_empty_conv)

lemma count_where_two:
  assumes "i < length xs" "j < length xs" "i \<noteq> j" "P (xs ! i)" "P (xs ! j)"
  shows "2 \<le> count_where P xs"
  using assms
proof (induction xs arbitrary: i j)
  case (Cons y ys)
  then show ?case
    using count_where_pos [of "i - 1" ys P] count_where_pos [of "j - 1" ys P]
    by (cases i; cases j) auto
qed simp

lemma count_where_mono: "(\<And>x. P x \<Longrightarrow> Q x) \<Longrightarrow> count_where P xs \<le> count_where Q xs"
  by (induction xs) auto

lemma count_where_split:
  "(\<And>x. Q x \<Longrightarrow> P x) \<Longrightarrow> count_where P xs = count_where (\<lambda>x. P x \<and> \<not> Q x) xs + count_where Q xs"
  by (induction xs) auto

lemma count_where_replicate [simp]: "count_where P (replicate n x) = (if P x then n else 0)"
  by (simp add: count_where_def filter_replicate)

end
