(* ===== verification/Print_Conc.thy ===== *)
theory Print_Conc
  imports Print_Queue Transition
begin

text \<open>
  The user and printer processes of \<^verbatim>\<open>cw08\<close> (\<open>user_process\<close>, \<open>printer_process\<close>) on the
  shared queue, interleaved at every statement that touches shared memory. \<open>sem_wait\<close> is a
  step that is not enabled at value 0, \<open>sem_post\<close> one that always is. Signals are steps of
  their own: the handler clears \<open>keep_running\<close>, and a process blocked in \<open>sem_wait\<close> returns
  from it without the semaphore, which the code does not check; a second signal ends it. \<open>sent\<close> and \<open>got\<close> record the
  jobs in the order in which \<open>tail\<close> and \<open>head\<close> passed them.
\<close>

section \<open>Processes\<close>

datatype user_pc =
    U_Loop | U_Wait_Empty | U_Wait_Mutex | U_Store | U_Advance | U_Post_Full | U_Post_Mutex
  | U_Sent | U_Done

datatype printer_pc =
    P_Loop | P_Wait_Full | P_Wait_Mutex | P_Load | P_Advance | P_Post_Mutex | P_Post_Empty
  | P_Print | P_Done

record user =
  u_pc :: user_pc
  u_buf :: job
  u_keep :: bool

record printer =
  p_pc :: printer_pc
  p_job :: job
  p_keep :: bool

text \<open>
  One statement of \<open>user_process\<close>: the process and the queue after it, and the jobs it
  passed on; \<open>None\<close> while it cannot move.
\<close>

definition user_step :: "(nat \<Rightarrow> nat) \<Rightarrow> user \<Rightarrow> print_queue_t \<Rightarrow> (user \<times> print_queue_t \<times> job list) option" where
  "user_step rand u q =
     (case u_pc u of
        U_Loop \<Rightarrow> (if u_keep u
                   then Some (u\<lparr>u_buf := generate_random_text rand PRINTER_BUFFER_SIZE, u_pc := U_Wait_Empty\<rparr>, q, [])
                   else Some (u\<lparr>u_pc := U_Done\<rparr>, q, []))
      | U_Wait_Empty \<Rightarrow> (if 0 < empty q
                   then Some (u\<lparr>u_pc := U_Wait_Mutex\<rparr>, q\<lparr>empty := empty q - 1\<rparr>, []) else None)
      | U_Wait_Mutex \<Rightarrow> (if 0 < mutex q
                   then Some (u\<lparr>u_pc := U_Store\<rparr>, q\<lparr>mutex := mutex q - 1\<rparr>, []) else None)
      | U_Store \<Rightarrow> Some (u\<lparr>u_pc := U_Advance\<rparr>, store_job (u_buf u) q, [])
      | U_Advance \<Rightarrow> Some (u\<lparr>u_pc := U_Post_Full\<rparr>, advance_tail q, [jobs q ! tail q])
      | U_Post_Full \<Rightarrow> Some (u\<lparr>u_pc := U_Post_Mutex\<rparr>, q\<lparr>full := full q + 1\<rparr>, [])
      | U_Post_Mutex \<Rightarrow> Some (u\<lparr>u_pc := U_Sent\<rparr>, q\<lparr>mutex := mutex q + 1\<rparr>, [])
      | U_Sent \<Rightarrow> Some (u\<lparr>u_pc := U_Loop\<rparr>, q, [])
      | U_Done \<Rightarrow> None)"

definition printer_step :: "printer \<Rightarrow> print_queue_t \<Rightarrow> (printer \<times> print_queue_t \<times> job list) option" where
  "printer_step p q =
     (case p_pc p of
        P_Loop \<Rightarrow> (if p_keep p then Some (p\<lparr>p_pc := P_Wait_Full\<rparr>, q, [])
                   else Some (p\<lparr>p_pc := P_Done\<rparr>, q, []))
      | P_Wait_Full \<Rightarrow> (if 0 < full q
                   then Some (p\<lparr>p_pc := P_Wait_Mutex\<rparr>, q\<lparr>full := full q - 1\<rparr>, []) else None)
      | P_Wait_Mutex \<Rightarrow> (if 0 < mutex q
                   then Some (p\<lparr>p_pc := P_Load, p_job := replicate PRINTER_BUFFER_SIZE NUL\<rparr>,
                              q\<lparr>mutex := mutex q - 1\<rparr>, []) else None)
      | P_Load \<Rightarrow> Some (p\<lparr>p_pc := P_Advance, p_job := load_job q\<rparr>, q, [])
      | P_Advance \<Rightarrow> Some (p\<lparr>p_pc := P_Post_Mutex\<rparr>, advance_head q, [p_job p])
      | P_Post_Mutex \<Rightarrow> Some (p\<lparr>p_pc := P_Post_Empty\<rparr>, q\<lparr>mutex := mutex q + 1\<rparr>, [])
      | P_Post_Empty \<Rightarrow> Some (p\<lparr>p_pc := P_Print\<rparr>, q\<lparr>empty := empty q + 1\<rparr>, [])
      | P_Print \<Rightarrow> Some (p\<lparr>p_pc := P_Loop\<rparr>, q, [])
      | P_Done \<Rightarrow> None)"

text \<open>
  \<open>sig_handler\<close>, and a signal that arrives while the process is blocked in \<open>sem_wait\<close>. The sources
  ask for \<open>_XOPEN_SOURCE 700\<close>, under which \<open>signal\<close> resets the handler when it runs and restarts no
  call: the same signal a second time ends the process wherever it is, with what it holds.
\<close>

definition user_signal :: "user \<Rightarrow> user" where
  "user_signal u = u\<lparr>u_keep := False\<rparr>"

definition printer_signal :: "printer \<Rightarrow> printer" where
  "printer_signal p = p\<lparr>p_keep := False\<rparr>"

definition user_killed :: "user \<Rightarrow> user option" where
  "user_killed u = (if u_keep u then None else Some (u\<lparr>u_pc := U_Done\<rparr>))"

definition printer_killed :: "printer \<Rightarrow> printer option" where
  "printer_killed p = (if p_keep p then None else Some (p\<lparr>p_pc := P_Done\<rparr>))"

definition user_eintr :: "user \<Rightarrow> print_queue_t \<Rightarrow> user option" where
  "user_eintr u q =
     (if u_pc u = U_Wait_Empty \<and> empty q = 0 then Some ((user_signal u)\<lparr>u_pc := U_Wait_Mutex\<rparr>)
      else if u_pc u = U_Wait_Mutex \<and> mutex q = 0 then Some ((user_signal u)\<lparr>u_pc := U_Store\<rparr>)
      else None)"

definition printer_eintr :: "printer \<Rightarrow> print_queue_t \<Rightarrow> printer option" where
  "printer_eintr p q =
     (if p_pc p = P_Wait_Full \<and> full q = 0 then Some ((printer_signal p)\<lparr>p_pc := P_Wait_Mutex\<rparr>)
      else if p_pc p = P_Wait_Mutex \<and> mutex q = 0
      then Some ((printer_signal p)\<lparr>p_pc := P_Load, p_job := replicate PRINTER_BUFFER_SIZE NUL\<rparr>)
      else None)"

section \<open>The system\<close>

record shop =
  queue :: print_queue_t
  users :: "user list"
  printers :: "printer list"
  sent :: "job list"
  got :: "job list"

definition init_shop :: "nat \<Rightarrow> nat \<Rightarrow> shop" where
  "init_shop n m = \<lparr>queue = fresh_queue,
     users = replicate n \<lparr>u_pc = U_Loop, u_buf = [], u_keep = True\<rparr>,
     printers = replicate m \<lparr>p_pc = P_Loop, p_job = [], p_keep = True\<rparr>, sent = [], got = []\<rparr>"

text \<open>\<open>signals\<close> says whether signals arrive at all.\<close>

inductive shop_step :: "bool \<Rightarrow> shop \<Rightarrow> shop \<Rightarrow> bool" where
  user_moves: "i < length (users s) \<Longrightarrow> user_step rand (users s ! i) (queue s) = Some (u, q, js) \<Longrightarrow>
     shop_step signals s (s\<lparr>users := (users s)[i := u], queue := q, sent := sent s @ js\<rparr>)"
| printer_moves: "i < length (printers s) \<Longrightarrow> printer_step (printers s ! i) (queue s) = Some (p, q, js) \<Longrightarrow>
     shop_step signals s (s\<lparr>printers := (printers s)[i := p], queue := q, got := got s @ js\<rparr>)"
| user_signalled: "signals \<Longrightarrow> i < length (users s) \<Longrightarrow>
     shop_step signals s (s\<lparr>users := (users s)[i := user_signal (users s ! i)]\<rparr>)"
| printer_signalled: "signals \<Longrightarrow> i < length (printers s) \<Longrightarrow>
     shop_step signals s (s\<lparr>printers := (printers s)[i := printer_signal (printers s ! i)]\<rparr>)"
| user_interrupted: "signals \<Longrightarrow> i < length (users s) \<Longrightarrow> user_eintr (users s ! i) (queue s) = Some u \<Longrightarrow>
     shop_step signals s (s\<lparr>users := (users s)[i := u]\<rparr>)"
| printer_interrupted: "signals \<Longrightarrow> i < length (printers s) \<Longrightarrow> printer_eintr (printers s ! i) (queue s) = Some p \<Longrightarrow>
     shop_step signals s (s\<lparr>printers := (printers s)[i := p]\<rparr>)"
| user_dies: "signals \<Longrightarrow> i < length (users s) \<Longrightarrow> user_killed (users s ! i) = Some u \<Longrightarrow>
     shop_step signals s (s\<lparr>users := (users s)[i := u]\<rparr>)"
| printer_dies: "signals \<Longrightarrow> i < length (printers s) \<Longrightarrow> printer_killed (printers s ! i) = Some p \<Longrightarrow>
     shop_step signals s (s\<lparr>printers := (printers s)[i := p]\<rparr>)"

inductive_cases quiet_step_cases: "shop_step False s t"

section \<open>The invariant without signals\<close>

definition u_holds :: "user \<Rightarrow> bool" where
  "u_holds u \<longleftrightarrow> u_pc u \<in> {U_Store, U_Advance, U_Post_Full, U_Post_Mutex}"

definition p_holds :: "printer \<Rightarrow> bool" where
  "p_holds p \<longleftrightarrow> p_pc p \<in> {P_Load, P_Advance, P_Post_Mutex}"

definition u_reserved :: "user \<Rightarrow> bool" where
  "u_reserved u \<longleftrightarrow> u_pc u \<in> {U_Wait_Mutex, U_Store, U_Advance, U_Post_Full}"

definition p_reserved :: "printer \<Rightarrow> bool" where
  "p_reserved p \<longleftrightarrow> p_pc p \<in> {P_Wait_Mutex, P_Load, P_Advance, P_Post_Mutex, P_Post_Empty}"

definition u_late :: "user \<Rightarrow> bool" where
  "u_late u \<longleftrightarrow> u_pc u = U_Post_Full"

definition p_early :: "printer \<Rightarrow> bool" where
  "p_early p \<longleftrightarrow> p_pc p \<in> {P_Wait_Mutex, P_Load, P_Advance}"

lemmas pc_classes = u_holds_def p_holds_def u_reserved_def p_reserved_def u_late_def p_early_def

text \<open>The number of jobs between \<open>head\<close> and \<open>tail\<close>.\<close>

definition stock :: "shop \<Rightarrow> nat" where
  "stock s = full (queue s) + count_where p_early (printers s) + count_where u_late (users s)"

definition shop_inv :: "shop \<Rightarrow> bool" where
  "shop_inv s \<longleftrightarrow>
     mutex (queue s) + count_where u_holds (users s) + count_where p_holds (printers s) = 1 \<and>
     empty (queue s) + full (queue s) + count_where u_reserved (users s) +
       count_where p_reserved (printers s) = MAX_JOBS \<and>
     wf_ring (stock s) (queue s) \<and>
     sent s = got s @ ring_items (stock s) (queue s) \<and>
     (\<forall>u\<in>set (users s). u_pc u = U_Advance \<longrightarrow> jobs (queue s) ! tail (queue s) = u_buf u) \<and>
     (\<forall>p\<in>set (printers s). p_pc p = P_Advance \<longrightarrow> p_job p = load_job (queue s))"

text \<open>A process that holds the mutex is the only one.\<close>

lemma user_holds_alone:
  assumes "shop_inv s" "i < length (users s)" "u_holds (users s ! i)"
  shows "mutex (queue s) = 0" "\<forall>p\<in>set (printers s). \<not> p_holds p"
    "\<And>j. j < length (users s) \<Longrightarrow> j \<noteq> i \<Longrightarrow> \<not> u_holds (users s ! j)"
proof -
  have one: "mutex (queue s) + count_where u_holds (users s) + count_where p_holds (printers s) = 1"
    using assms(1) by (simp add: shop_inv_def)
  have "0 < count_where u_holds (users s)" using assms(2,3) by (rule count_where_pos)
  with one have "mutex (queue s) = 0" "count_where p_holds (printers s) = 0" "count_where u_holds (users s) = 1"
    by linarith+
  then show "mutex (queue s) = 0" "\<forall>p\<in>set (printers s). \<not> p_holds p"
    "\<And>j. j < length (users s) \<Longrightarrow> j \<noteq> i \<Longrightarrow> \<not> u_holds (users s ! j)"
    using count_where_two [where P = u_holds, OF assms(2) _ _ assms(3)] by (auto simp: count_where_0)
qed

lemma printer_holds_alone:
  assumes "shop_inv s" "i < length (printers s)" "p_holds (printers s ! i)"
  shows "mutex (queue s) = 0" "\<forall>u\<in>set (users s). \<not> u_holds u"
    "\<And>j. j < length (printers s) \<Longrightarrow> j \<noteq> i \<Longrightarrow> \<not> p_holds (printers s ! j)"
proof -
  have one: "mutex (queue s) + count_where u_holds (users s) + count_where p_holds (printers s) = 1"
    using assms(1) by (simp add: shop_inv_def)
  have "0 < count_where p_holds (printers s)" using assms(2,3) by (rule count_where_pos)
  with one have "mutex (queue s) = 0" "count_where u_holds (users s) = 0" "count_where p_holds (printers s) = 1"
    by linarith+
  then show "mutex (queue s) = 0" "\<forall>u\<in>set (users s). \<not> u_holds u"
    "\<And>j. j < length (printers s) \<Longrightarrow> j \<noteq> i \<Longrightarrow> \<not> p_holds (printers s ! j)"
    using count_where_two [where P = p_holds, OF assms(2) _ _ assms(3)] by (auto simp: count_where_0)
qed

text \<open>The counts after one user, or one printer, has changed.\<close>

lemma user_counts:
  assumes "i < length us"
  shows "count_where u_holds (us[i := u]) + (if u_holds (us ! i) then 1 else 0) =
           count_where u_holds us + (if u_holds u then 1 else 0)"
    "count_where u_reserved (us[i := u]) + (if u_reserved (us ! i) then 1 else 0) =
           count_where u_reserved us + (if u_reserved u then 1 else 0)"
    "count_where u_late (us[i := u]) + (if u_late (us ! i) then 1 else 0) =
           count_where u_late us + (if u_late u then 1 else 0)"
  using assms by (simp_all only: count_where_update)

lemma printer_counts:
  assumes "i < length ps"
  shows "count_where p_holds (ps[i := p]) + (if p_holds (ps ! i) then 1 else 0) =
           count_where p_holds ps + (if p_holds p then 1 else 0)"
    "count_where p_reserved (ps[i := p]) + (if p_reserved (ps ! i) then 1 else 0) =
           count_where p_reserved ps + (if p_reserved p then 1 else 0)"
    "count_where p_early (ps[i := p]) + (if p_early (ps ! i) then 1 else 0) =
           count_where p_early ps + (if p_early p then 1 else 0)"
  using assms by (simp_all only: count_where_update)

text \<open>The two facts about process contents survive the step of a process that does not hold the mutex.\<close>

lemma user_contents_step:
  assumes inv: "shop_inv s" and i: "i < length (users s)"
    and st: "user_step rand (users s ! i) (queue s) = Some (u, q, js)"
  shows "\<forall>v\<in>set ((users s)[i := u]). u_pc v = U_Advance \<longrightarrow> jobs q ! tail q = u_buf v"
    "\<forall>p\<in>set (printers s). p_pc p = P_Advance \<longrightarrow> p_job p = load_job q"
proof -
  have ring: "wf_ring (stock s) (queue s)" using inv by (simp add: shop_inv_def)
  have others: "\<not> u_holds (users s ! j)" if "j < length (users s)" "j \<noteq> i" "u_holds (users s ! i)" for j
    using user_holds_alone(3) [OF inv i that(3) that(1,2)] .
  have same: "jobs q = jobs (queue s) \<and> tail q = tail (queue s) \<and> head q = head (queue s)"
    if "\<not> u_holds (users s ! i)"
    using st that by (auto simp: user_step_def pc_classes split: user_pc.splits if_splits)
  show "\<forall>v\<in>set ((users s)[i := u]). u_pc v = U_Advance \<longrightarrow> jobs q ! tail q = u_buf v"
  proof (intro ballI impI)
    fix v assume v: "v \<in> set ((users s)[i := u])" "u_pc v = U_Advance"
    from v(1) show "jobs q ! tail q = u_buf v"
    proof (cases rule: set_list_update_cases)
      case 1
      with v(2) st ring show ?thesis
        by (auto simp: user_step_def split: user_pc.splits if_splits)
    next
      case (2 j)
      with v(2) have "u_holds (users s ! j)" by (simp add: u_holds_def)
      with 2 others have "\<not> u_holds (users s ! i)" by blast
      with same 2 v(2) inv show ?thesis by (simp add: shop_inv_def)
    qed
  qed
  show "\<forall>p\<in>set (printers s). p_pc p = P_Advance \<longrightarrow> p_job p = load_job q"
  proof (intro ballI impI)
    fix p assume p: "p \<in> set (printers s)" "p_pc p = P_Advance"
    then have "p_holds p" by (simp add: p_holds_def)
    with p(1) user_holds_alone(2) [OF inv i] have "\<not> u_holds (users s ! i)" by blast
    with same p inv show "p_job p = load_job q" by (simp add: shop_inv_def load_job_def)
  qed
qed

lemma printer_contents_step:
  assumes inv: "shop_inv s" and i: "i < length (printers s)"
    and st: "printer_step (printers s ! i) (queue s) = Some (p, q, js)"
  shows "\<forall>v\<in>set (users s). u_pc v = U_Advance \<longrightarrow> jobs q ! tail q = u_buf v"
    "\<forall>r\<in>set ((printers s)[i := p]). p_pc r = P_Advance \<longrightarrow> p_job r = load_job q"
proof -
  have same: "jobs q = jobs (queue s) \<and> tail q = tail (queue s)"
    using st by (auto simp: printer_step_def advance_head_def split: printer_pc.splits if_splits)
  have head: "head q = head (queue s)" if "\<not> p_holds (printers s ! i)"
    using st that by (auto simp: printer_step_def pc_classes split: printer_pc.splits if_splits)
  show "\<forall>v\<in>set (users s). u_pc v = U_Advance \<longrightarrow> jobs q ! tail q = u_buf v"
    using same inv by (simp add: shop_inv_def)
  show "\<forall>r\<in>set ((printers s)[i := p]). p_pc r = P_Advance \<longrightarrow> p_job r = load_job q"
  proof (intro ballI impI)
    fix r assume r: "r \<in> set ((printers s)[i := p])" "p_pc r = P_Advance"
    from r(1) show "p_job r = load_job q"
    proof (cases rule: set_list_update_cases)
      case 1
      with r(2) st show ?thesis
        by (auto simp: printer_step_def split: printer_pc.splits if_splits)
    next
      case (2 j)
      with r(2) have "p_holds (printers s ! j)" by (simp add: p_holds_def)
      with 2 printer_holds_alone(3) [OF inv i] have "\<not> p_holds (printers s ! i)" by blast
      with same head 2 r(2) inv show ?thesis by (simp add: shop_inv_def load_job_def)
    qed
  qed
qed

text \<open>A user on its way to the ring has a free slot reserved.\<close>

lemma stock_room:
  assumes inv: "shop_inv s" and i: "i < length (users s)"
    and pc: "u_pc (users s ! i) \<in> {U_Wait_Mutex, U_Store, U_Advance}"
  shows "stock s < MAX_JOBS"
proof -
  have "0 < count_where (\<lambda>u. u_reserved u \<and> \<not> u_late u) (users s)"
    using i by (rule count_where_pos) (use pc in \<open>auto simp: pc_classes\<close>)
  moreover have "count_where u_reserved (users s) =
      count_where (\<lambda>u. u_reserved u \<and> \<not> u_late u) (users s) + count_where u_late (users s)"
    by (rule count_where_split) (simp add: pc_classes)
  moreover have "count_where p_early (printers s) \<le> count_where p_reserved (printers s)"
    by (rule count_where_mono) (auto simp: pc_classes)
  ultimately show ?thesis
    using inv by (simp add: stock_def shop_inv_def)
qed

lemma user_moves_inv:
  assumes inv: "shop_inv s" and i: "i < length (users s)"
    and st: "user_step rand (users s ! i) (queue s) = Some (u, q, js)"
  shows "shop_inv (s\<lparr>users := (users s)[i := u], queue := q, sent := sent s @ js\<rparr>)"
proof -
  let ?t = "s\<lparr>users := (users s)[i := u], queue := q, sent := sent s @ js\<rparr>"
  note counts = user_counts [OF i, of u]
  note inv' = inv [unfolded shop_inv_def]
  have "mutex q + count_where u_holds ((users s)[i := u]) + count_where p_holds (printers s) = 1"
    using inv' counts(1) st
    by (auto simp: user_step_def pc_classes store_job_def advance_tail_def split: user_pc.splits if_splits)
  moreover have "empty q + full q + count_where u_reserved ((users s)[i := u]) +
       count_where p_reserved (printers s) = MAX_JOBS"
    using inv' counts(2) st
    by (auto simp: user_step_def pc_classes store_job_def advance_tail_def split: user_pc.splits if_splits)
  moreover have stock: "stock ?t = stock s + length js"
    using counts(3) st
    by (auto simp: stock_def user_step_def pc_classes store_job_def advance_tail_def split: user_pc.splits if_splits)
  moreover have "wf_ring (stock ?t) q \<and> sent s @ js = got s @ ring_items (stock ?t) q"
  proof (cases "u_pc (users s ! i) = U_Advance")
    case True
    then have qjs: "q = advance_tail (queue s)" "js = [jobs (queue s) ! tail (queue s)]"
      using st by (auto simp: user_step_def)
    have "stock s < MAX_JOBS" using inv i by (rule stock_room) (simp add: True)
    with inv' qjs stock show ?thesis
      by (simp add: wf_ring_advance_tail ring_items_advance_tail)
  next
    case False
    then have js: "js = []"
      using st by (auto simp: user_step_def split: user_pc.splits if_splits)
    have "wf_ring (stock s) q \<and> ring_items (stock s) q = ring_items (stock s) (queue s)"
    proof (cases "u_pc (users s ! i) = U_Store")
      case True
      then have "q = store_job (u_buf (users s ! i)) (queue s)" using st by (simp add: user_step_def)
      moreover have "stock s < MAX_JOBS" using inv i by (rule stock_room) (simp add: True)
      ultimately show ?thesis using inv' by (simp add: ring_items_store wf_ring_store)
    next
      case not_store: False
      with False st inv' show ?thesis
        by (auto simp: user_step_def wf_ring_def ring_items_def split: user_pc.splits if_splits)
    qed
    with js stock inv' show ?thesis by simp
  qed
  ultimately show ?thesis
    using user_contents_step [OF inv i st] unfolding shop_inv_def by simp
qed

lemma printer_moves_inv:
  assumes inv: "shop_inv s" and i: "i < length (printers s)"
    and st: "printer_step (printers s ! i) (queue s) = Some (p, q, js)"
  shows "shop_inv (s\<lparr>printers := (printers s)[i := p], queue := q, got := got s @ js\<rparr>)"
proof -
  let ?t = "s\<lparr>printers := (printers s)[i := p], queue := q, got := got s @ js\<rparr>"
  note counts = printer_counts [OF i, of p]
  note inv' = inv [unfolded shop_inv_def]
  have "mutex q + count_where u_holds (users s) + count_where p_holds ((printers s)[i := p]) = 1"
    using inv' counts(1) st
    by (auto simp: printer_step_def pc_classes advance_head_def split: printer_pc.splits if_splits)
  moreover have "empty q + full q + count_where u_reserved (users s) +
       count_where p_reserved ((printers s)[i := p]) = MAX_JOBS"
    using inv' counts(2) st
    by (auto simp: printer_step_def pc_classes advance_head_def split: printer_pc.splits if_splits)
  moreover have stock: "stock s = stock ?t + length js"
    using counts(3) st
    by (auto simp: stock_def printer_step_def pc_classes advance_head_def split: printer_pc.splits if_splits)
  moreover have "wf_ring (stock ?t) q \<and> sent s = (got s @ js) @ ring_items (stock ?t) q"
  proof (cases "p_pc (printers s ! i) = P_Advance")
    case True
    then have qjs: "q = advance_head (queue s)" "js = [load_job (queue s)]"
      using st i inv' by (auto simp: printer_step_def)
    then have n: "stock s = Suc (stock ?t)" using stock by simp
    have "ring_items (stock s) (queue s) = load_job (queue s) # ring_items (stock ?t) q"
      using inv' qjs n load_job_hd [of "stock s" "queue s"]
      by (simp add: ring_items_advance_head) (metis hd_Cons_tl length_0_conv nat.distinct(1) ring_items_length)
    with inv' qjs n show ?thesis by (simp add: wf_ring_advance_head)
  next
    case False
    then have "js = []" "wf_ring (stock s) q \<and> ring_items (stock s) q = ring_items (stock s) (queue s)"
      using st inv' by (auto simp: printer_step_def wf_ring_def ring_items_def split: printer_pc.splits if_splits)
    with stock inv' show ?thesis by simp
  qed
  ultimately show ?thesis
    using printer_contents_step [OF inv i st] unfolding shop_inv_def by simp
qed

lemma init_shop_inv: "shop_inv (init_shop n m)"
proof -
  have "stock (init_shop n m) = 0"
    by (simp add: stock_def init_shop_def fresh_queue_def pc_classes)
  then show ?thesis
    using wf_fresh_queue by (simp add: shop_inv_def) (simp add: init_shop_def fresh_queue_def pc_classes)
qed

text \<open>
  A user whose step is not enabled waits for a semaphore at 0 or has left its loop, and
  without signals no one leaves the loop.
\<close>

definition all_running :: "shop \<Rightarrow> bool" where
  "all_running s \<longleftrightarrow> (\<forall>u\<in>set (users s). u_keep u \<and> u_pc u \<noteq> U_Done) \<and>
     (\<forall>p\<in>set (printers s). p_keep p \<and> p_pc p \<noteq> P_Done)"

lemma user_step_running:
  "user_step rand u q = Some (u', q', js) \<Longrightarrow> u_keep u \<Longrightarrow> u_keep u' \<and> u_pc u' \<noteq> U_Done"
  by (auto simp: user_step_def split: user_pc.splits if_splits)

lemma printer_step_running:
  "printer_step p q = Some (p', q', js) \<Longrightarrow> p_keep p \<Longrightarrow> p_keep p' \<and> p_pc p' \<noteq> P_Done"
  by (auto simp: printer_step_def split: printer_pc.splits if_splits)

lemma user_blocked:
  "user_step rand u q = None \<Longrightarrow> u_pc u \<noteq> U_Done \<Longrightarrow>
   (u_pc u = U_Wait_Empty \<and> empty q = 0) \<or> (u_pc u = U_Wait_Mutex \<and> mutex q = 0)"
  by (auto simp: user_step_def split: user_pc.splits if_splits)

lemma printer_blocked:
  "printer_step p q = None \<Longrightarrow> p_pc p \<noteq> P_Done \<Longrightarrow>
   (p_pc p = P_Wait_Full \<and> full q = 0) \<or> (p_pc p = P_Wait_Mutex \<and> mutex q = 0)"
  by (auto simp: printer_step_def split: printer_pc.splits if_splits)

definition manned :: "shop \<Rightarrow> bool" where
  "manned s \<longleftrightarrow> users s \<noteq> [] \<and> printers s \<noteq> []"

lemma shop_enabled:
  assumes inv: "shop_inv s" and run: "all_running s" and some: "manned s"
  shows "\<exists>t. shop_step False s t"
proof (rule ccontr)
  assume stuck: "\<nexists>t. shop_step False s t"
  have us: "user_step (\<lambda>_. 0) (users s ! i) (queue s) = None" if "i < length (users s)" for i
    using stuck that user_moves [of i s "\<lambda>_. 0" _ _ _ False]
    by (cases "user_step (\<lambda>_. 0) (users s ! i) (queue s)") auto
  have ps: "printer_step (printers s ! i) (queue s) = None" if "i < length (printers s)" for i
    using stuck that printer_moves [of i s _ _ _ False]
    by (cases "printer_step (printers s ! i) (queue s)") auto
  have u: "(u_pc u = U_Wait_Empty \<and> empty (queue s) = 0) \<or> (u_pc u = U_Wait_Mutex \<and> mutex (queue s) = 0)"
    if "u \<in> set (users s)" for u
    using that us run user_blocked [of "\<lambda>_. 0" u "queue s"] by (auto simp: in_set_conv_nth all_running_def)
  have p: "(p_pc p = P_Wait_Full \<and> full (queue s) = 0) \<or> (p_pc p = P_Wait_Mutex \<and> mutex (queue s) = 0)"
    if "p \<in> set (printers s)" for p
    using that ps run printer_blocked [of p "queue s"] by (auto simp: in_set_conv_nth all_running_def)
  have "count_where u_holds (users s) = 0" "count_where p_holds (printers s) = 0"
    using u p by (fastforce simp: count_where_0 pc_classes)+
  then have free: "mutex (queue s) = 1" using inv by (simp add: shop_inv_def)
  with u p have "u_pc u = U_Wait_Empty \<and> empty (queue s) = 0" "p_pc p = P_Wait_Full \<and> full (queue s) = 0"
    if "u \<in> set (users s)" "p \<in> set (printers s)" for u p
    using that by fastforce+
  moreover have "hd (users s) \<in> set (users s)" "hd (printers s) \<in> set (printers s)"
    using some by (simp_all add: manned_def)
  ultimately have "count_where u_reserved (users s) = 0" "count_where p_reserved (printers s) = 0"
    "empty (queue s) = 0" "full (queue s) = 0"
    by (auto simp: count_where_0 pc_classes)
  with inv show False by (simp add: shop_inv_def MAX_JOBS_def)
qed

text \<open>The jobs users make: two lower-case letters and a NUL.\<close>

definition lower :: "char \<Rightarrow> bool" where
  "lower c \<longleftrightarrow> 97 \<le> (of_char c :: nat) \<and> (of_char c :: nat) \<le> 122"

definition text_job :: "job \<Rightarrow> bool" where
  "text_job j \<longleftrightarrow> length j = PRINTER_BUFFER_SIZE \<and> (\<forall>c\<in>set (butlast j). lower c) \<and> last j = NUL"

lemma generate_random_text_job: "text_job (generate_random_text rand PRINTER_BUFFER_SIZE)"
proof -
  have "lower (char_of (97 + rand i mod 26))" for i
  proof -
    have "rand i mod 26 < 26" by simp
    then have "(of_char (char_of (97 + rand i mod 26) :: char) :: nat) = 97 + rand i mod 26"
      by (simp only: of_char_of) simp
    with \<open>rand i mod 26 < 26\<close> show ?thesis by (simp add: lower_def)
  qed
  then show ?thesis
    by (auto simp: text_job_def generate_random_text_def PRINTER_BUFFER_SIZE_def)
qed

definition jobs_inv :: "shop \<Rightarrow> bool" where
  "jobs_inv s \<longleftrightarrow> (\<forall>u\<in>set (users s). u_pc u \<notin> {U_Loop, U_Done} \<longrightarrow> text_job (u_buf u)) \<and>
     (\<forall>j\<in>set (sent s). text_job j)"

text \<open>The invariant of a shop with at least one user and one printer and no signals.\<close>

definition quiet_inv :: "shop \<Rightarrow> bool" where
  "quiet_inv s \<longleftrightarrow> shop_inv s \<and> all_running s \<and> manned s \<and> jobs_inv s"

lemma user_moves_jobs:
  assumes "shop_inv s" "jobs_inv s" "i < length (users s)"
    "user_step rand (users s ! i) (queue s) = Some (u, q, js)"
  shows "jobs_inv (s\<lparr>users := (users s)[i := u], queue := q, sent := sent s @ js\<rparr>)"
proof -
  have old: "u_pc (users s ! i) \<notin> {U_Loop, U_Done} \<longrightarrow> text_job (u_buf (users s ! i))"
    using assms(2,3) by (simp add: jobs_inv_def)
  have new: "u_pc u \<notin> {U_Loop, U_Done} \<longrightarrow> text_job (u_buf u)"
    using assms(4) old generate_random_text_job
    by (auto simp: user_step_def split: user_pc.splits if_splits)
  have "\<forall>j\<in>set js. text_job j"
  proof (cases "u_pc (users s ! i) = U_Advance")
    case True
    then have "js = [u_buf (users s ! i)]"
      using assms(1,3,4) by (auto simp: user_step_def shop_inv_def)
    with old True show ?thesis by simp
  next
    case False
    with assms(4) show ?thesis by (auto simp: user_step_def split: user_pc.splits if_splits)
  qed
  with new assms(2) show ?thesis
    by (auto simp: jobs_inv_def elim!: set_list_update_cases)
qed

lemma quiet_step:
  assumes "quiet_inv s" "shop_step False s t"
  shows "quiet_inv t"
  using assms(2)
proof (cases rule: shop_step.cases)
  case (user_moves i rand u q js)
  have "all_running t"
    using assms(1) user_moves user_step_running [OF user_moves(3)]
    by (auto simp: quiet_inv_def all_running_def elim!: set_list_update_cases)
  with assms(1) user_moves show ?thesis
    by (simp add: quiet_inv_def user_moves_inv user_moves_jobs) (simp add: manned_def)
next
  case (printer_moves i p q js)
  have "all_running t"
    using assms(1) printer_moves printer_step_running [OF printer_moves(3)]
    by (auto simp: quiet_inv_def all_running_def elim!: set_list_update_cases)
  with assms(1) printer_moves show ?thesis
    by (simp add: quiet_inv_def printer_moves_inv) (simp add: manned_def jobs_inv_def)
qed simp_all

lemma quiet_init: "quiet_inv (init_shop (Suc n) (Suc m))"
  using init_shop_inv
  by (simp add: quiet_inv_def) (simp add: all_running_def manned_def jobs_inv_def init_shop_def)

interpretation shop: live_system "\<lambda>s. s = init_shop (Suc n) (Suc m)" "shop_step False" quiet_inv for n m
proof unfold_locales
  show "quiet_inv s" if "s = init_shop (Suc n) (Suc m)" for s
    using that quiet_init by simp
  show "quiet_inv t" if "quiet_inv s" "shop_step False s t" for s t
    using that by (rule quiet_step)
  show "\<exists>t. shop_step False s t" if "quiet_inv s" for s
    using that by (simp add: quiet_inv_def shop_enabled)
qed

section \<open>Schedules\<close>

text \<open>Executable runs: a schedule names the process that moves or receives a signal.\<close>

datatype move =
    Run_User nat | Run_Printer nat | Signal_User nat | Signal_Printer nat
  | Interrupt_User nat | Interrupt_Printer nat | Kill_User nat | Kill_Printer nat

definition shop_move :: "move \<Rightarrow> shop \<Rightarrow> shop option" where
  "shop_move m s =
     (case m of
        Run_User i \<Rightarrow>
          (if i < length (users s) then
             map_option (\<lambda>(u, q, js). s\<lparr>users := (users s)[i := u], queue := q, sent := sent s @ js\<rparr>)
               (user_step id (users s ! i) (queue s))
           else None)
      | Run_Printer i \<Rightarrow>
          (if i < length (printers s) then
             map_option (\<lambda>(p, q, js). s\<lparr>printers := (printers s)[i := p], queue := q, got := got s @ js\<rparr>)
               (printer_step (printers s ! i) (queue s))
           else None)
      | Signal_User i \<Rightarrow>
          (if i < length (users s) then Some (s\<lparr>users := (users s)[i := user_signal (users s ! i)]\<rparr>) else None)
      | Signal_Printer i \<Rightarrow>
          (if i < length (printers s)
           then Some (s\<lparr>printers := (printers s)[i := printer_signal (printers s ! i)]\<rparr>) else None)
      | Interrupt_User i \<Rightarrow>
          (if i < length (users s)
           then map_option (\<lambda>u. s\<lparr>users := (users s)[i := u]\<rparr>) (user_eintr (users s ! i) (queue s)) else None)
      | Interrupt_Printer i \<Rightarrow>
          (if i < length (printers s)
           then map_option (\<lambda>p. s\<lparr>printers := (printers s)[i := p]\<rparr>) (printer_eintr (printers s ! i) (queue s))
           else None)
      | Kill_User i \<Rightarrow>
          (if i < length (users s)
           then map_option (\<lambda>u. s\<lparr>users := (users s)[i := u]\<rparr>) (user_killed (users s ! i)) else None)
      | Kill_Printer i \<Rightarrow>
          (if i < length (printers s)
           then map_option (\<lambda>p. s\<lparr>printers := (printers s)[i := p]\<rparr>) (printer_killed (printers s ! i)) else None))"

fun quiet_move :: "move \<Rightarrow> bool" where
  "quiet_move (Run_User i) = True"
| "quiet_move (Run_Printer i) = True"
| "quiet_move _ = False"

fun shop_run :: "move list \<Rightarrow> shop \<Rightarrow> shop option" where
  "shop_run [] s = Some s"
| "shop_run (m # ms) s = (case shop_move m s of None \<Rightarrow> None | Some t \<Rightarrow> shop_run ms t)"

lemma shop_move_step: "shop_move m s = Some t \<Longrightarrow> signals \<or> quiet_move m \<Longrightarrow> shop_step signals s t"
  by (cases m) (auto simp: shop_move_def intro: shop_step.intros split: if_splits)

lemma shop_run_reach:
  "shop_run ms s = Some t \<Longrightarrow> signals \<or> list_all quiet_move ms \<Longrightarrow> reach ini (shop_step signals) s \<Longrightarrow>
   reach ini (shop_step signals) t"
proof (induction ms arbitrary: s)
  case (Cons m ms)
  then obtain u where "shop_move m s = Some u" "shop_run ms u = Some t"
    by (auto split: option.splits)
  with Cons show ?case
    by (metis list.pred_inject(2) reach_step shop_move_step)
qed simp

text \<open>One job through the queue, up to the printer's advance of \<open>head\<close>.\<close>

definition one_job :: "move list" where
  "one_job = replicate 6 (Run_User 0) @ replicate 2 (Run_Printer 0) @ [Run_User 0] @ replicate 2 (Run_Printer 0)"

abbreviation shop_reach :: "bool \<Rightarrow> nat \<Rightarrow> nat \<Rightarrow> shop \<Rightarrow> bool" where
  "shop_reach signals n m \<equiv> reach (\<lambda>s. s = init_shop (Suc n) (Suc m)) (shop_step signals)"

lemma shop_reach_run:
  "shop_run ms (init_shop (Suc n) (Suc m)) = Some t \<Longrightarrow> signals \<or> list_all quiet_move ms \<Longrightarrow>
   shop_reach signals n m t"
  by (erule shop_run_reach) (simp_all add: reach_init)

text \<open>A predicate of the state in which a schedule ends.\<close>

definition after_run :: "move list \<Rightarrow> shop \<Rightarrow> (shop \<Rightarrow> bool) \<Rightarrow> bool" where
  "after_run ms s P = (case shop_run ms s of None \<Rightarrow> False | Some t \<Rightarrow> P t)"

lemma after_run_reach:
  assumes "after_run ms (init_shop (Suc n) (Suc m)) P" "signals \<or> list_all quiet_move ms"
  obtains t where "shop_reach signals n m t" "P t"
  using assms by (auto simp: after_run_def split: option.splits intro: shop_reach_run)

lemma one_job_run:
  "after_run one_job (init_shop (Suc 0) (Suc 0)) (\<lambda>t. p_pc (printers t ! 0) = P_Advance \<and>
     length (printers t) = 1 \<and> sent t = [[CHR ''a'', CHR ''b'', NUL]] \<and> got t = [] \<and> stock t = 1)"
  by code_simp

lemma quiet_one_job: "list_all quiet_move one_job"
  by code_simp

text \<open>The queue promised to users and printers: a FIFO of text jobs with \<open>MAX_JOBS\<close> places.\<close>

inductive fifo_step :: "job list \<Rightarrow> job list \<Rightarrow> bool" where
  fifo_stutter: "fifo_step js js"
| fifo_put: "length js < MAX_JOBS \<Longrightarrow> text_job j \<Longrightarrow> fifo_step js (js @ [j])"
| fifo_take: "fifo_step (j # js) js"

definition shop_abs :: "shop \<Rightarrow> job list" where
  "shop_abs s = ring_items (stock s) (queue s)"

lemma user_step_one: "user_step rand u q = Some (u', q', js) \<Longrightarrow> js = [] \<or> (\<exists>j. js = [j])"
  by (auto simp: user_step_def split: user_pc.splits if_splits)

lemma printer_step_one: "printer_step p q = Some (p', q', js) \<Longrightarrow> js = [] \<or> (\<exists>j. js = [j])"
  by (auto simp: printer_step_def split: printer_pc.splits if_splits)

lemma shop_abs_eq: "quiet_inv s \<Longrightarrow> sent s = got s @ shop_abs s"
  by (simp add: quiet_inv_def shop_inv_def shop_abs_def)

lemma shop_abs_room: "quiet_inv s \<Longrightarrow> length (shop_abs s) \<le> MAX_JOBS"
  by (simp add: quiet_inv_def shop_inv_def shop_abs_def wf_ring_def)

lemma shop_abs_text:
  assumes "quiet_inv s"
  shows "\<forall>j\<in>set (shop_abs s). text_job j" "\<forall>j\<in>set (got s). text_job j"
proof -
  have "\<forall>j\<in>set (sent s). text_job j"
    using assms by (simp add: quiet_inv_def jobs_inv_def)
  with shop_abs_eq [OF assms]
  show "\<forall>j\<in>set (shop_abs s). text_job j" "\<forall>j\<in>set (got s). text_job j" by simp_all
qed

lemma shop_simulates:
  assumes "quiet_inv s" "shop_step False s t"
  shows "fifo_step (shop_abs s) (shop_abs t)"
proof -
  note t = quiet_step [OF assms]
  from assms(2) show ?thesis
  proof (cases rule: shop_step.cases)
    case (user_moves i rand u q js)
    have eq: "shop_abs t = shop_abs s @ js"
      using shop_abs_eq [OF t] shop_abs_eq [OF assms(1)] user_moves(1) by simp
    from user_step_one [OF user_moves(3)] show ?thesis
    proof
      assume "js = []" with eq show ?thesis by (simp add: fifo_stutter)
    next
      assume "\<exists>j. js = [j]"
      then show ?thesis
        using eq shop_abs_room [OF t] shop_abs_text(1) [OF t] by (auto intro: fifo_put)
    qed
  next
    case (printer_moves i p q js)
    have eq: "shop_abs s = js @ shop_abs t"
      using shop_abs_eq [OF t] shop_abs_eq [OF assms(1)] printer_moves(1) by simp
    from printer_step_one [OF printer_moves(3)] show ?thesis
    proof
      assume "js = []"
      with eq have "shop_abs s = shop_abs t" by (simp only: append_Nil)
      then show ?thesis by (simp only: fifo_stutter)
    next
      assume "\<exists>j. js = [j]"
      then obtain j where "js = [j]" ..
      with eq have "shop_abs s = j # shop_abs t" by (simp only: append_Cons append_Nil)
      then show ?thesis by (simp only: fifo_take)
    qed
  qed simp_all
qed

text \<open>A printer is interrupted while it waits for a job, and another one in its loop.\<close>

definition ghost_job :: "move list" where
  "ghost_job = [Run_Printer 0, Interrupt_Printer 0] @ replicate 3 (Run_Printer 0)"

definition two_holders :: "move list" where
  "two_holders = replicate 3 (Run_User 0) @ replicate 2 (Run_User 1) @ [Interrupt_User 1]"

section \<open>Properties\<close>

text \<open>
  C12: as long as no signal arrives, at most one process is between its \<open>sem_wait(&mutex)\<close> and
  its \<open>sem_post(&mutex)\<close>.
\<close>

theorem shop_mutual_exclusion:
  assumes "shop_reach False n m s"
  shows "count_where u_holds (users s) + count_where p_holds (printers s) \<le> 1"
  using shop.reachable_inv [OF assms] by (simp add: quiet_inv_def shop_inv_def)

theorem shop_mutual_exclusion_witness:
  "\<exists>s :: shop. p_pc (printers s ! 0) = P_Advance \<and>
     count_where u_holds (users s) + count_where p_holds (printers s) \<le> 1"
proof -
  obtain s where s: "shop_reach False 0 0 s" "p_pc (printers s ! 0) = P_Advance"
    using after_run_reach [OF one_job_run disjI2 [OF quiet_one_job]] by blast
  from s(2) shop_mutual_exclusion [OF s(1)] show ?thesis by (intro exI [of _ s] conjI)
qed

text \<open>
  C2: without signals, the printers take exactly the jobs the users stored, in the same order,
  each once; every job is two lower-case letters and a NUL, and at most \<open>MAX_JOBS\<close> jobs are
  waiting.
\<close>

theorem shop_fifo:
  assumes "shop_reach False n m s"
  shows "sent s = got s @ ring_items (stock s) (queue s) \<and> stock s \<le> MAX_JOBS \<and>
    (\<forall>j\<in>set (got s). text_job j)"
proof -
  have "quiet_inv s" using shop.reachable_inv [OF assms] .
  with shop_abs_eq [of s] shop_abs_room [of s] shop_abs_text(2) [of s] show ?thesis
    by (simp add: shop_abs_def)
qed

theorem shop_fifo_witness:
  "\<exists>s :: shop. sent s = [[CHR ''a'', CHR ''b'', NUL]] \<and> got s = [] \<and>
     ring_items (stock s) (queue s) = [[CHR ''a'', CHR ''b'', NUL]]"
proof -
  obtain s where s: "shop_reach False 0 0 s" "sent s = [[CHR ''a'', CHR ''b'', NUL]]" "got s = []"
    using after_run_reach [OF one_job_run disjI2 [OF quiet_one_job]] by blast
  from shop_fifo [OF s(1)] s(2,3) show ?thesis by auto
qed

text \<open>
  C11: every step of users and printers without signals is a step of the abstract bounded FIFO
  queue: nothing happens to it, a text job is added while there is room, or the oldest job is
  removed.
\<close>

theorem shop_refines_fifo:
  assumes "shop_reach False n m s" "shop_step False s t"
  shows "fifo_step (shop_abs s) (shop_abs t)"
  using shop.reachable_inv [OF assms(1)] assms(2) by (rule shop_simulates)

theorem shop_refines_fifo_witness:
  "\<exists>s t. shop_abs s = [[CHR ''a'', CHR ''b'', NUL]] \<and> shop_abs t = [] \<and> fifo_step (shop_abs s) (shop_abs t)"
proof -
  obtain s where s: "shop_reach False 0 0 s" "p_pc (printers s ! 0) = P_Advance"
    "length (printers s) = 1" "sent s = [[CHR ''a'', CHR ''b'', NUL]]" "got s = []"
    using after_run_reach [OF one_job_run disjI2 [OF quiet_one_job]] by blast
  let ?t = "s\<lparr>printers := (printers s)[0 := (printers s ! 0)\<lparr>p_pc := P_Post_Mutex\<rparr>],
              queue := advance_head (queue s), got := got s @ [p_job (printers s ! 0)]\<rparr>"
  have st: "shop_step False s ?t"
    by (rule printer_moves) (simp_all add: s printer_step_def)
  have inv: "quiet_inv s" using s(1) by (rule shop.reachable_inv)
  have "shop_abs s = [[CHR ''a'', CHR ''b'', NUL]]"
    using shop_abs_eq [OF inv] s(4,5) by simp
  moreover have "shop_abs ?t = []"
    using shop_abs_eq [OF quiet_step [OF inv st]] s(4,5) by simp
  ultimately show ?thesis using shop_refines_fifo [OF s(1) st] by blast
qed

text \<open>
  C10: without signals the users and printers never deadlock, whatever their numbers.\<close>

theorem shop_no_deadlock:
  assumes "shop_reach False n m s"
  shows "\<exists>t. shop_step False s t"
  using assms by (rule shop.no_deadlock)

theorem shop_no_deadlock_witness: "\<exists>t. shop_step False (init_shop (Suc 3) (Suc 2)) t"
  by (rule shop_no_deadlock [of 3 2]) (rule reach_init, simp)

text \<open>A user that gets the same signal twice inside its critical section.\<close>

definition dead_holder :: "move list" where
  "dead_holder = replicate 3 (Run_User 0) @ [Signal_User 0, Kill_User 0]"

text \<open>
  C38: signals break the promises of the queue. The result of \<open>sem_wait\<close> is not checked: a
  printer interrupted while it waits for a job takes a job no user stored; a user interrupted
  while it waits for the mutex enters the critical section beside the process that holds it.
  And the handler is gone after its first run: a user that gets the same signal again inside the
  critical section ends there, and leaves the mutex taken with no process to release it.
\<close>

theorem signals_break_queue:
  "(\<exists>s. shop_reach True 0 0 s \<and> sent s = [] \<and> got s = [replicate PRINTER_BUFFER_SIZE NUL]) \<and>
   (\<exists>s. shop_reach True 1 0 s \<and> count_where u_holds (users s) = 2) \<and>
   (\<exists>s. shop_reach True 1 0 s \<and> mutex (queue s) = 0 \<and> count_where u_holds (users s) = 0 \<and>
      count_where p_holds (printers s) = 0)"
proof (intro conjI)
  have "after_run ghost_job (init_shop (Suc 0) (Suc 0))
      (\<lambda>s. sent s = [] \<and> got s = [replicate PRINTER_BUFFER_SIZE NUL])"
    by code_simp
  then show "\<exists>s. shop_reach True 0 0 s \<and> sent s = [] \<and> got s = [replicate PRINTER_BUFFER_SIZE NUL]"
    by (rule after_run_reach [OF _ disjI1]) auto
  have "after_run two_holders (init_shop (Suc 1) (Suc 0)) (\<lambda>s. count_where u_holds (users s) = 2)"
    by code_simp
  then show "\<exists>s. shop_reach True 1 0 s \<and> count_where u_holds (users s) = 2"
    by (rule after_run_reach [OF _ disjI1]) auto
  have "after_run dead_holder (init_shop (Suc 1) (Suc 0)) (\<lambda>s. mutex (queue s) = 0 \<and> count_where u_holds (users s) = 0 \<and>
      count_where p_holds (printers s) = 0)"
    by code_simp
  then show "\<exists>s. shop_reach True 1 0 s \<and> mutex (queue s) = 0 \<and> count_where u_holds (users s) = 0 \<and>
      count_where p_holds (printers s) = 0"
    by (rule after_run_reach [OF _ disjI1]) auto
qed

end
