(* ===== verification/Print_Main.thy ===== *)
theory Print_Main
  imports Print_Queue
begin

text \<open>
  The \<open>main\<close> functions of \<^verbatim>\<open>cw08\<close>: the checks of the argument, the set-up of the shared segment
  with its error paths, the fork loop as the parent runs it, and the clean-up.
\<close>

section \<open>Arguments and set-up\<close>

definition printers_args :: "string list \<Rightarrow> int option" where
  "printers_args argv =
     (if length argv < 2 then None
      else let n_printers = fst (strtol10 (argv ! 1))
           in if n_printers \<le> 0 \<or> n_printers > MAX_PRINTERS then None else Some n_printers)"

definition users_args :: "string list \<Rightarrow> int option" where
  "users_args argv =
     (if length argv < 2 then None
      else let n_users = fst (strtol10 (argv ! 1)) in if n_users \<le> 0 then None else Some n_users)"

text \<open>Which of the calls succeed.\<close>

record shm_calls =
  shm_open_ok :: bool
  ftruncate_ok :: bool
  mmap_ok :: bool
  sem_mutex_ok :: bool
  sem_empty_ok :: bool
  sem_full_ok :: bool

datatype action = Clean_Queue | Munmap | Shm_Unlink | Kill int

text \<open>
  \<open>main\<close> of the server up to the fork loop: \<open>Inl\<close> the actions of an early return, \<open>Inr\<close> the
  number of printers and the queue.
\<close>

definition server_setup :: "shm_calls \<Rightarrow> string list \<Rightarrow> print_queue_t \<Rightarrow> action list + int \<times> print_queue_t" where
  "server_setup calls argv queue =
     (case printers_args argv of
        None \<Rightarrow> Inl []
      | Some n_printers \<Rightarrow>
          if \<not> shm_open_ok calls then Inl []
          else if \<not> ftruncate_ok calls then Inl [Shm_Unlink]
          else if \<not> mmap_ok calls then Inl [Shm_Unlink]
          else case setup_printer_queue (sem_mutex_ok calls) (sem_empty_ok calls) (sem_full_ok calls) queue of
                 (r, queue') \<Rightarrow>
                   if r < 0 then Inl [Clean_Queue, Munmap, Shm_Unlink] else Inr (n_printers, queue'))"

definition client_setup :: "shm_calls \<Rightarrow> string list \<Rightarrow> action list + int" where
  "client_setup calls argv =
     (case users_args argv of
        None \<Rightarrow> Inl []
      | Some n_users \<Rightarrow>
          if \<not> shm_open_ok calls then Inl []
          else if \<not> mmap_ok calls then Inl [Shm_Unlink]
          else Inr n_users)"

section \<open>The clean-up\<close>

text \<open>
  After the loop: \<open>while (keep_running);\<close> is passed, the processes in \<open>pids\<close> are killed and
  the server destroys the queue.
\<close>

definition server_cleanup :: "int list \<Rightarrow> action list" where
  "server_cleanup pids = map Kill (filter (\<lambda>p. p \<noteq> 0) pids) @ [Clean_Queue, Munmap, Shm_Unlink]"

definition client_cleanup :: "int list \<Rightarrow> action list" where
  "client_cleanup pids = map Kill (filter (\<lambda>p. p \<noteq> 0) pids) @ [Munmap]"

lemma printers_args_range: "printers_args argv = Some n \<Longrightarrow> 1 \<le> n \<and> n \<le> 50"
  by (auto simp: printers_args_def Let_def MAX_PRINTERS_def split: if_splits)

section \<open>The parent\<close>

text \<open>
  The loop as the parent runs it, from iteration \<open>i\<close>: \<open>fork i\<close> is the number of the \<open>i\<close>-th
  child, negative where \<open>fork\<close> fails, which leaves the 0 of \<open>calloc\<close> in \<open>pids\<close>.
\<close>

function spawn :: "(nat \<Rightarrow> int) \<Rightarrow> nat \<Rightarrow> nat \<Rightarrow> int list \<Rightarrow> int list" where
  "spawn fork n i pids =
     (if i < n then spawn fork n (i + 1) (if fork i < 0 then pids else pids[i := fork i]) else pids)"
  by auto
termination by (relation "measure (\<lambda>(fork, n, i, pids). n - i)") auto

declare spawn.simps [simp del]

text \<open>
  Both \<open>main\<close> functions as the parents run them when a signal has ended \<open>while (keep_running);\<close>:
  the exit code and what they do to the shared segment and the children. \<open>printers_server\<close>
  returns \<open>EXIT_FAILURE\<close> in every case.
\<close>

definition printers_main :: "shm_calls \<Rightarrow> string list \<Rightarrow> print_queue_t \<Rightarrow> (nat \<Rightarrow> int) \<Rightarrow> exit_code \<times> action list" where
  "printers_main calls argv queue fork =
     (case server_setup calls argv queue of
        Inl acts \<Rightarrow> (EXIT_FAILURE, acts)
      | Inr (n_printers, queue') \<Rightarrow>
          let pids = replicate (nat n_printers) 0
          in (EXIT_FAILURE, server_cleanup (spawn fork (nat n_printers) 0 pids)))"

definition users_main :: "shm_calls \<Rightarrow> string list \<Rightarrow> (nat \<Rightarrow> int) \<Rightarrow> exit_code \<times> action list" where
  "users_main calls argv fork =
     (case client_setup calls argv of
        Inl acts \<Rightarrow> (EXIT_FAILURE, acts)
      | Inr n_users \<Rightarrow>
          let pids = replicate (nat n_users) 0
          in (EXIT_SUCCESS, client_cleanup (spawn fork (nat n_users) 0 pids)))"

lemma spawn_spec:
  assumes "i \<le> n" "length pids = n" "\<forall>j. i \<le> j \<and> j < n \<longrightarrow> pids ! j = 0"
  shows "spawn fork n i pids = take i pids @ map (\<lambda>j. if fork j < 0 then 0 else fork j) [i..<n]"
  using assms
proof (induction fork n i pids rule: spawn.induct)
  case (1 fork n i pids)
  show ?case
  proof (cases "i < n")
    case False
    with 1 show ?thesis by (subst spawn.simps) simp
  next
    case True
    let ?pids = "if fork i < 0 then pids else pids[i := fork i]"
    have "take (i + 1) ?pids = take i pids @ [if fork i < 0 then 0 else fork i]"
      using True 1 by (simp add: take_Suc_conv_app_nth)
    moreover have "spawn fork n (i + 1) ?pids =
        take (i + 1) ?pids @ map (\<lambda>j. if fork j < 0 then 0 else fork j) [i + 1..<n]"
      by (rule "1.IH") (use True 1 in auto)
    ultimately show ?thesis using True by (simp add: spawn.simps [of fork n i] upt_conv_Cons)
  qed
qed

lemma spawned: "spawn fork n 0 (replicate n 0) = map (\<lambda>j. if fork j < 0 then 0 else fork j) [0..<n]"
  by (subst spawn_spec) auto

text \<open>The children that get killed: those that were forked, in that order.\<close>

definition forked :: "(nat \<Rightarrow> int) \<Rightarrow> nat \<Rightarrow> int list" where
  "forked fork n = filter (\<lambda>p. 0 < p) (map fork [0..<n])"

lemma forked_pids:
  fixes fork :: "nat \<Rightarrow> int"
  shows "\<forall>i. fork i \<noteq> 0 \<Longrightarrow> filter (\<lambda>p. p \<noteq> 0) (map (\<lambda>j. if fork j < 0 then 0 else fork j) is) =
     filter (\<lambda>p. 0 < p) (map fork is)"
proof (induction "is")
  case (Cons i "is")
  then show ?case by (cases "fork i" "0 :: int" rule: linorder_cases) auto
qed simp

section \<open>Properties\<close>

text \<open>
  On every path by which the server returns before the fork loop, a shared segment it has
  created is unlinked and a mapping it has made is removed; otherwise it goes on with between
  1 and 50 printers and a fresh queue.
\<close>

theorem server_setup_outcome:
  "case server_setup calls argv queue of
     Inl acts \<Rightarrow>
       (printers_args argv \<noteq> None \<and> shm_open_ok calls \<longrightarrow> Shm_Unlink \<in> set acts) \<and>
       (printers_args argv \<noteq> None \<and> shm_open_ok calls \<and> ftruncate_ok calls \<and> mmap_ok calls \<longrightarrow> Munmap \<in> set acts)
   | Inr (n, queue') \<Rightarrow> 1 \<le> n \<and> n \<le> 50 \<and> printers_args argv = Some n \<and> queue' = fresh_queue \<and> wf_ring 0 queue'"
proof (cases "printers_args argv")
  case None
  then show ?thesis by (simp add: server_setup_def)
next
  case (Some n)
  have "1 \<le> n" "n \<le> 50" using printers_args_range [OF Some] by auto
  with Some wf_fresh_queue show ?thesis
    by (simp add: server_setup_def setup_printer_queue_def)
qed

text \<open>
  When a signal stops the two programs, each parent kills exactly the children it has forked,
  once each, a \<open>fork\<close> that failed notwithstanding, and only the server removes the queue; it
  reports failure all the same. On every early exit the server unlinks the segment it has
  opened; the client, if it cannot map the segment, unlinks the server's.
\<close>

theorem mains_clean_up:
  assumes "\<forall>i. fork i \<noteq> 0"
  shows "fst (printers_main calls argv queue fork) = EXIT_FAILURE \<and>
    (case server_setup calls argv queue of
       Inl acts \<Rightarrow> snd (printers_main calls argv queue fork) = acts \<and>
         (printers_args argv \<noteq> None \<and> shm_open_ok calls \<longrightarrow> Shm_Unlink \<in> set acts)
     | Inr (n, queue') \<Rightarrow> snd (printers_main calls argv queue fork) =
         map Kill (forked fork (nat n)) @ [Clean_Queue, Munmap, Shm_Unlink]) \<and>
    (case client_setup calls argv of
       Inl acts \<Rightarrow> users_main calls argv fork = (EXIT_FAILURE, acts) \<and>
         (Shm_Unlink \<in> set acts \<longleftrightarrow> users_args argv \<noteq> None \<and> shm_open_ok calls \<and> \<not> mmap_ok calls)
     | Inr n \<Rightarrow> users_main calls argv fork = (EXIT_SUCCESS, map Kill (forked fork (nat n)) @ [Munmap]))"
  using server_setup_outcome [where calls = calls and argv = argv and queue = queue] forked_pids [OF assms]
  by (auto simp: printers_main_def users_main_def server_cleanup_def client_cleanup_def spawned forked_def Let_def
      client_setup_def split: sum.splits option.splits)

theorem mains_clean_up_witness:
  "printers_main \<lparr>shm_open_ok = True, ftruncate_ok = True, mmap_ok = True, sem_mutex_ok = True, sem_empty_ok = True,
      sem_full_ok = True\<rparr> [''printers_server'', ''3''] fresh_queue (\<lambda>i. if i = 1 then -1 else 100 + int i) =
   (EXIT_FAILURE, [Kill 100, Kill 102, Clean_Queue, Munmap, Shm_Unlink])"
proof -
  let ?calls = "\<lparr>shm_open_ok = True, ftruncate_ok = True, mmap_ok = True, sem_mutex_ok = True, sem_empty_ok = True,
      sem_full_ok = True\<rparr>"
  let ?fork = "\<lambda>i. if i = 1 then -1 else 100 + int i"
  have n: "printers_args [''printers_server'', ''3''] = Some 3" by code_simp
  have "forked ?fork 3 = [100, 102]" by (simp add: forked_def upt_rec)
  moreover have "\<forall>i. ?fork i \<noteq> 0" by simp
  from mains_clean_up [OF this, of ?calls "[''printers_server'', ''3'']" fresh_queue]
  show ?thesis using n calculation
    by (auto simp: server_setup_def setup_printer_queue_def prod_eq_iff split: sum.splits)
qed

end
