(* ===== verification/Print_Family.thy ===== *)
theory Print_Family
  imports Print_Main Transition
begin

text \<open>
  What becomes of a printer process of \<^verbatim>\<open>cw08/printers_server.c\<close> that a signal ends: it returns
  from \<open>printer_process\<close>, and nothing after the call keeps it out of the rest of \<open>main\<close>. It goes
  on with the fork loop, its children find \<open>keep_running\<close> cleared and do the same, and every
  process that comes to the end of the loop kills the processes in its copy of \<open>pids\<close>, some of
  which are of this family, and destroys the queue. The processes of the family are
  interleaved in any order; every \<open>fork\<close> may fail; numbers of processes are not used twice.
\<close>

section \<open>The family\<close>

datatype leaver_pc = Looping nat | Leaving "action list" | Left | Killed

record leaver =
  l_pid :: int
  l_pids :: "int list"
  l_pc :: leaver_pc

text \<open>\<open>deeds\<close> records who did what, in the order in which it happened.\<close>

record family =
  procs :: "leaver list"
  next_pid :: int
  deeds :: "(int \<times> action) list"

text \<open>
  The printer with the number \<open>r\<close>, forked in the iteration after those of \<open>siblings\<close>, has just
  returned from \<open>printer_process\<close>.
\<close>

definition signalled_printer :: "nat \<Rightarrow> int list \<Rightarrow> int \<Rightarrow> int \<Rightarrow> family" where
  "signalled_printer n siblings r p =
     \<lparr>procs = [\<lparr>l_pid = r, l_pids = siblings @ replicate (n - length siblings) 0,
                l_pc = Looping (length siblings + 1)\<rparr>],
      next_pid = p, deeds = []\<rparr>"

text \<open>\<open>kill(pid, SIGKILL)\<close> ends a process of the family that is still there.\<close>

definition kill_process :: "int \<Rightarrow> leaver list \<Rightarrow> leaver list" where
  "kill_process q ps = map (\<lambda>p. if l_pid p = q \<and> l_pc p \<noteq> Left then p\<lparr>l_pc := Killed\<rparr> else p) ps"

fun act :: "action \<Rightarrow> leaver list \<Rightarrow> leaver list" where
  "act (Kill q) ps = kill_process q ps"
| "act _ ps = ps"

inductive family_step :: "nat \<Rightarrow> family \<Rightarrow> family \<Rightarrow> bool" for n where
  forks: "i < length (procs f) \<Longrightarrow> procs f ! i = p \<Longrightarrow> l_pc p = Looping k \<Longrightarrow> k < n \<Longrightarrow>
     family_step n f (f\<lparr>procs := (procs f)[i := p\<lparr>l_pids := (l_pids p)[k := next_pid f], l_pc := Looping (k + 1)\<rparr>] @
                          [p\<lparr>l_pid := next_pid f, l_pc := Looping (k + 1)\<rparr>],
                       next_pid := next_pid f + 1\<rparr>)"
| fork_fails: "i < length (procs f) \<Longrightarrow> procs f ! i = p \<Longrightarrow> l_pc p = Looping k \<Longrightarrow> k < n \<Longrightarrow>
     family_step n f (f\<lparr>procs := (procs f)[i := p\<lparr>l_pc := Looping (k + 1)\<rparr>]\<rparr>)"
| loop_ends: "i < length (procs f) \<Longrightarrow> procs f ! i = p \<Longrightarrow> l_pc p = Looping k \<Longrightarrow> \<not> k < n \<Longrightarrow>
     family_step n f (f\<lparr>procs := (procs f)[i := p\<lparr>l_pc := Leaving (server_cleanup (l_pids p))\<rparr>]\<rparr>)"
| acts: "i < length (procs f) \<Longrightarrow> procs f ! i = p \<Longrightarrow> l_pc p = Leaving (a # as) \<Longrightarrow>
     family_step n f (f\<lparr>procs := act a ((procs f)[i := p\<lparr>l_pc := Leaving as\<rparr>]), deeds := deeds f @ [(l_pid p, a)]\<rparr>)"
| returns: "i < length (procs f) \<Longrightarrow> procs f ! i = p \<Longrightarrow> l_pc p = Leaving [] \<Longrightarrow>
     family_step n f (f\<lparr>procs := (procs f)[i := p\<lparr>l_pc := Left\<rparr>]\<rparr>)"

section \<open>The invariant\<close>

text \<open>What a process has to do, or has done, before it is gone.\<close>

definition owed :: "int list \<Rightarrow> action list" where
  "owed siblings = map Kill siblings @ [Clean_Queue, Munmap, Shm_Unlink]"

definition on_track :: "nat \<Rightarrow> int list \<Rightarrow> (int \<times> action) list \<Rightarrow> leaver \<Rightarrow> bool" where
  "on_track n siblings ds p \<longleftrightarrow>
     (case l_pc p of
        Looping k \<Rightarrow> length siblings < k \<and> length (l_pids p) = n \<and> take (length siblings) (l_pids p) = siblings
      | Leaving as \<Rightarrow> \<forall>a\<in>set (owed siblings). a \<in> set as \<or> (l_pid p, a) \<in> set ds
      | Left \<Rightarrow> \<forall>a\<in>set (owed siblings). (l_pid p, a) \<in> set ds
      | Killed \<Rightarrow> True)"

text \<open>No process can kill number \<open>r\<close>: it is in no copy of \<open>pids\<close>.\<close>

definition spares :: "int \<Rightarrow> leaver \<Rightarrow> bool" where
  "spares r p \<longleftrightarrow> r \<notin> set (l_pids p) \<and>
     (case l_pc p of Leaving as \<Rightarrow> Kill r \<notin> set as | _ \<Rightarrow> True)"

definition family_inv :: "nat \<Rightarrow> int list \<Rightarrow> int \<Rightarrow> family \<Rightarrow> bool" where
  "family_inv n siblings r f \<longleftrightarrow>
     procs f \<noteq> [] \<and> l_pid (hd (procs f)) = r \<and> l_pc (hd (procs f)) \<noteq> Killed \<and> r < next_pid f \<and> r \<noteq> 0 \<and>
     (\<forall>p\<in>set (procs f). on_track n siblings (deeds f) p \<and> spares r p)"

lemma owed_cleanup:
  assumes "take (length siblings) pids = siblings" "\<forall>s\<in>set siblings. s \<noteq> 0"
  shows "set (owed siblings) \<subseteq> set (server_cleanup pids)"
proof -
  have "set siblings \<subseteq> set pids" using assms(1) by (metis set_take_subset)
  with assms(2) show ?thesis by (auto simp: owed_def server_cleanup_def)
qed

lemma kill_process_set:
  "p \<in> set (kill_process q ps) \<Longrightarrow> \<exists>p'\<in>set ps. p = p' \<or> (p = p'\<lparr>l_pc := Killed\<rparr> \<and> l_pid p' = q)"
  by (auto simp: kill_process_def split: if_splits)

lemma act_set: "p \<in> set (act a ps) \<Longrightarrow> \<exists>p'\<in>set ps. p = p' \<or> p = p'\<lparr>l_pc := Killed\<rparr>"
  by (cases a) (auto dest: kill_process_set)

lemma act_hd:
  assumes "ps \<noteq> []" "l_pid (hd ps) = r" "a \<noteq> Kill r"
  shows "hd (act a ps) = hd ps"
proof (cases a)
  case (Kill q)
  with assms show ?thesis by (cases ps) (auto simp: kill_process_def)
qed simp_all

lemma act_Nil [simp]: "act a ps = [] \<longleftrightarrow> ps = []"
  by (cases a) (simp_all add: kill_process_def)

lemma killed_ok [simp]: "on_track n siblings ds (p\<lparr>l_pc := Killed\<rparr>)" "spares r p \<Longrightarrow> spares r (p\<lparr>l_pc := Killed\<rparr>)"
  by (simp_all add: on_track_def spares_def)

lemma on_track_more: "on_track n siblings ds p \<Longrightarrow> on_track n siblings (ds @ es) p"
  by (auto simp: on_track_def split: leaver_pc.splits)

lemma hd_update: "i < length xs \<Longrightarrow> hd (xs[i := x]) = (if i = 0 then x else hd xs)"
  by (cases xs) (auto split: nat.split)

text \<open>A step that changes one process, and perhaps adds one.\<close>

lemma family_inv_update:
  assumes "family_inv n siblings r f" "i < length (procs f)"
    and "on_track n siblings (deeds f) p" "spares r p" "l_pid p = l_pid (procs f ! i)" "l_pc p \<noteq> Killed"
    and "\<forall>c\<in>set new. on_track n siblings (deeds f) c \<and> spares r c" "next_pid f \<le> q"
  shows "family_inv n siblings r (f\<lparr>procs := (procs f)[i := p] @ new, next_pid := q\<rparr>)"
proof -
  have "procs f ! 0 = hd (procs f)" using assms(2) by (cases "procs f") auto
  then have "hd ((procs f)[i := p] @ new) = (if i = 0 then p else hd (procs f))" "i = 0 \<Longrightarrow> l_pid p = r"
    using assms(1,2,5) by (auto simp: hd_update hd_append family_inv_def)
  with assms show ?thesis
    by (auto simp: family_inv_def hd_update elim!: set_list_update_cases)
qed

lemma family_inv_step:
  assumes inv: "family_inv n siblings r f" and sib: "\<forall>s\<in>set siblings. s \<noteq> 0" and step: "family_step n f g"
  shows "family_inv n siblings r g"
  using step
proof (cases rule: family_step.cases)
  case (forks i p k)
  have p: "on_track n siblings (deeds f) p" "spares r p" using forks(2,3) inv by (auto simp: family_inv_def)
  have r: "r \<noteq> next_pid f" using inv by (simp add: family_inv_def)
  have "r \<notin> set ((l_pids p)[k := next_pid f])"
    using p(2) r set_update_subset_insert [of "l_pids p" k "next_pid f"] by (auto simp: spares_def)
  with p forks show ?thesis
    unfolding forks(1)
    by (intro family_inv_update [OF inv forks(2)])
      (auto simp: on_track_def spares_def take_update_cancel)
next
  case (fork_fails i p k)
  have p: "on_track n siblings (deeds f) p" "spares r p" using fork_fails(2,3) inv by (auto simp: family_inv_def)
  have "family_inv n siblings r (f\<lparr>procs := (procs f)[i := p\<lparr>l_pc := Looping (k + 1)\<rparr>] @ [], next_pid := next_pid f\<rparr>)"
    using p fork_fails by (intro family_inv_update [OF inv fork_fails(2)]) (auto simp: on_track_def spares_def)
  then show ?thesis by (simp add: fork_fails(1))
next
  case (loop_ends i p k)
  have p: "on_track n siblings (deeds f) p" "spares r p" using loop_ends(2,3) inv by (auto simp: family_inv_def)
  have "set (owed siblings) \<subseteq> set (server_cleanup (l_pids p))"
    using p(1) loop_ends(4) sib by (intro owed_cleanup) (simp_all add: on_track_def)
  moreover have "Kill r \<notin> set (server_cleanup (l_pids p))"
    using p(2) by (auto simp: spares_def server_cleanup_def)
  ultimately have "family_inv n siblings r
      (f\<lparr>procs := (procs f)[i := p\<lparr>l_pc := Leaving (server_cleanup (l_pids p))\<rparr>] @ [], next_pid := next_pid f\<rparr>)"
    using p loop_ends by (intro family_inv_update [OF inv loop_ends(2)]) (auto simp: on_track_def spares_def)
  then show ?thesis by (simp add: loop_ends(1))
next
  case (acts i p a as)
  let ?ps = "(procs f)[i := p\<lparr>l_pc := Leaving as\<rparr>]" and ?ds = "deeds f @ [(l_pid p, a)]"
  have p: "on_track n siblings (deeds f) p" "spares r p" using acts(2,3) inv by (auto simp: family_inv_def)
  have "on_track n siblings ?ds (p\<lparr>l_pc := Leaving as\<rparr>)"
    using p(1) acts(4) by (auto simp: on_track_def)
  moreover have kill: "spares r (p\<lparr>l_pc := Leaving as\<rparr>)" "a \<noteq> Kill r"
    using p(2) acts(4) by (auto simp: spares_def)
  moreover have "family_inv n siblings r (f\<lparr>deeds := ?ds\<rparr>)"
    using inv by (auto simp: family_inv_def intro: on_track_more)
  ultimately have 1: "?ps \<noteq> []" "l_pid (hd ?ps) = r" "l_pc (hd ?ps) \<noteq> Killed" "r < next_pid f" "r \<noteq> 0"
      "\<forall>p\<in>set ?ps. on_track n siblings ?ds p \<and> spares r p"
    using acts family_inv_update [of n siblings r "f\<lparr>deeds := ?ds\<rparr>" i "p\<lparr>l_pc := Leaving as\<rparr>" "[]" "next_pid f"]
    by (simp_all add: family_inv_def)
  have "hd (act a ?ps) = hd ?ps" using 1(1,2) kill(2) by (rule act_hd)
  moreover have "\<forall>p\<in>set (act a ?ps). on_track n siblings ?ds p \<and> spares r p"
    using 1(6) by (auto dest!: act_set)
  ultimately show ?thesis using 1 by (simp add: acts(1) family_inv_def)
next
  case (returns i p)
  have p: "on_track n siblings (deeds f) p" "spares r p" using returns(2,3) inv by (auto simp: family_inv_def)
  have "family_inv n siblings r (f\<lparr>procs := (procs f)[i := p\<lparr>l_pc := Left\<rparr>] @ [], next_pid := next_pid f\<rparr>)"
    using p returns by (intro family_inv_update [OF inv returns(2)]) (auto simp: on_track_def spares_def)
  then show ?thesis by (simp add: returns(1))
qed

section \<open>Number of processes and end\<close>

text \<open>How many processes a process can still become, and how many steps they can take.\<close>

definition offspring :: "nat \<Rightarrow> leaver \<Rightarrow> nat" where
  "offspring n p = (case l_pc p of Looping k \<Rightarrow> 2 ^ (n - k) | _ \<Rightarrow> 1)"

definition effort :: "nat \<Rightarrow> leaver \<Rightarrow> nat" where
  "effort n p = (case l_pc p of Looping k \<Rightarrow> 2 ^ (n - k) * (n + 6) - 1 | Leaving as \<Rightarrow> length as + 1 | _ \<Rightarrow> 0)"

definition family_size :: "nat \<Rightarrow> family \<Rightarrow> nat" where
  "family_size n f = sum_list (map (offspring n) (procs f))"

definition family_effort :: "nat \<Rightarrow> family \<Rightarrow> nat" where
  "family_effort n f = sum_list (map (effort n) (procs f))"

lemma sum_list_update_nat:
  "i < length xs \<Longrightarrow> sum_list (map g (xs[i := x])) + g (xs ! i) = sum_list (map g xs) + (g x :: nat)"
proof (induction xs arbitrary: i)
  case (Cons y ys)
  then show ?case by (cases i) fastforce+
qed simp

lemma procs_le_size: "length (procs f) \<le> family_size n f"
proof -
  have "length ps \<le> sum_list (map (offspring n) ps)" for ps
  proof (induction ps)
    case (Cons p ps)
    have "1 \<le> offspring n p" by (simp add: offspring_def split: leaver_pc.split)
    with Cons show ?case by simp
  qed simp
  then show ?thesis by (simp add: family_size_def)
qed

lemma act_le:
  assumes "\<And>p. g (p\<lparr>l_pc := Killed\<rparr>) \<le> g p"
  shows "sum_list (map g (act a ps)) \<le> sum_list (map (g :: leaver \<Rightarrow> nat) ps)"
proof (cases a)
  case (Kill q)
  have "sum_list (map g (kill_process q ps)) \<le> sum_list (map g ps)"
    unfolding kill_process_def map_map using assms by (intro sum_list_mono) auto
  with Kill show ?thesis by simp
qed simp_all

lemma two_powers: "k < n \<Longrightarrow> (2::nat) ^ (n - k) = 2 * 2 ^ (n - (k + 1))"
  by (simp flip: power_Suc add: Suc_diff_Suc)

text \<open>Changing one process, and perhaps adding one, changes the sums by what it changes itself.\<close>

lemma family_sums:
  assumes "i < length ps" "ps ! i = p"
  shows "sum_list (map g (ps[i := p'] @ new)) + g p = sum_list (map g ps) + g p' + (sum_list (map g new) :: nat)"
  using sum_list_update_nat [OF assms(1), of g p'] assms(2) by simp

lemma family_step_size:
  assumes "family_step n f g"
  shows "family_size n g \<le> family_size n f"
  using assms
proof (cases rule: family_step.cases)
  case (forks i p k)
  let ?p = "p\<lparr>l_pids := (l_pids p)[k := next_pid f], l_pc := Looping (k + 1)\<rparr>"
    and ?c = "p\<lparr>l_pid := next_pid f, l_pc := Looping (k + 1)\<rparr>"
  have "offspring n p = offspring n ?p + offspring n ?c"
    using forks(4) two_powers [OF forks(5)] by (simp add: offspring_def)
  with family_sums [OF forks(2,3), of "offspring n" ?p "[?c]"] show ?thesis
    by (simp add: forks(1) family_size_def)
next
  case (fork_fails i p k)
  have "offspring n (p\<lparr>l_pc := Looping (k + 1)\<rparr>) \<le> offspring n p"
    using fork_fails(4) two_powers [OF fork_fails(5)] by (simp add: offspring_def)
  with family_sums [OF fork_fails(2,3), of "offspring n" "p\<lparr>l_pc := Looping (k + 1)\<rparr>" "[]"] show ?thesis
    by (simp add: fork_fails(1) family_size_def)
next
  case (loop_ends i p k)
  then show ?thesis
    using family_sums [OF loop_ends(2,3), of "offspring n" "p\<lparr>l_pc := Leaving (server_cleanup (l_pids p))\<rparr>" "[]"]
    by (simp add: family_size_def offspring_def)
next
  case (acts i p a as)
  have "offspring n (p\<lparr>l_pc := Killed\<rparr>) \<le> offspring n p" for p
    by (simp add: offspring_def split: leaver_pc.split)
  note act_le [of "offspring n", OF this, of a "(procs f)[i := p\<lparr>l_pc := Leaving as\<rparr>]"]
  with acts show ?thesis
    using family_sums [OF acts(2,3), of "offspring n" "p\<lparr>l_pc := Leaving as\<rparr>" "[]"]
    by (simp add: family_size_def offspring_def)
next
  case (returns i p)
  then show ?thesis
    using family_sums [OF returns(2,3), of "offspring n" "p\<lparr>l_pc := Left\<rparr>" "[]"]
    by (simp add: family_size_def offspring_def)
qed

lemma effort_looping:
  assumes "l_pc p = Looping k" "k < n"
  shows "(2 ^ (n - Suc k) * (n + 6) - 1) + (2 ^ (n - Suc k) * (n + 6) - 1) < effort n p"
proof -
  define x where "x = 2 ^ (n - Suc k) * (n + 6)"
  have "1 \<le> x" by (simp add: x_def)
  moreover have "effort n p = 2 * x - 1"
    using assms two_powers [OF assms(2)] by (simp add: effort_def x_def)
  ultimately show ?thesis unfolding x_def [symmetric] by simp
qed

lemma family_step_effort:
  assumes inv: "family_inv n siblings r f" and step: "family_step n f g"
  shows "family_effort n g < family_effort n f"
  using step
proof (cases rule: family_step.cases)
  case (forks i p k)
  let ?p = "p\<lparr>l_pids := (l_pids p)[k := next_pid f], l_pc := Looping (k + 1)\<rparr>"
    and ?c = "p\<lparr>l_pid := next_pid f, l_pc := Looping (k + 1)\<rparr>"
  have "effort n ?p + effort n ?c < effort n p"
    using effort_looping [OF forks(4,5)] by (simp add: effort_def)
  with family_sums [OF forks(2,3), of "effort n" ?p "[?c]"] show ?thesis
    by (simp add: forks(1) family_effort_def)
next
  case (fork_fails i p k)
  have "effort n (p\<lparr>l_pc := Looping (k + 1)\<rparr>) < effort n p"
    using effort_looping [OF fork_fails(4,5)] by (simp add: effort_def)
  with family_sums [OF fork_fails(2,3), of "effort n" "p\<lparr>l_pc := Looping (k + 1)\<rparr>" "[]"] show ?thesis
    by (simp add: fork_fails(1) family_effort_def)
next
  case (loop_ends i p k)
  have "on_track n siblings (deeds f) p" using loop_ends(2,3) inv by (auto simp: family_inv_def)
  then have "length (server_cleanup (l_pids p)) \<le> n + 3"
    using loop_ends(4) length_filter_le [of "\<lambda>p. p \<noteq> 0" "l_pids p"] by (simp add: on_track_def server_cleanup_def)
  then have "effort n (p\<lparr>l_pc := Leaving (server_cleanup (l_pids p))\<rparr>) < effort n p"
    using loop_ends(4,5) by (simp add: effort_def)
  with family_sums [OF loop_ends(2,3), of "effort n" "p\<lparr>l_pc := Leaving (server_cleanup (l_pids p))\<rparr>" "[]"]
  show ?thesis by (simp add: loop_ends(1) family_effort_def)
next
  case (acts i p a as)
  have "effort n (p\<lparr>l_pc := Killed\<rparr>) \<le> effort n p" for p by (simp add: effort_def)
  note act_le [of "effort n", OF this, of a "(procs f)[i := p\<lparr>l_pc := Leaving as\<rparr>]"]
  moreover have "effort n (p\<lparr>l_pc := Leaving as\<rparr>) < effort n p" using acts(4) by (simp add: effort_def)
  ultimately show ?thesis
    using family_sums [OF acts(2,3), of "effort n" "p\<lparr>l_pc := Leaving as\<rparr>" "[]"]
    by (simp add: acts(1) family_effort_def)
next
  case (returns i p)
  then have "effort n (p\<lparr>l_pc := Left\<rparr>) < effort n p" by (simp add: effort_def)
  with family_sums [OF returns(2,3), of "effort n" "p\<lparr>l_pc := Left\<rparr>" "[]"] show ?thesis
    by (simp add: returns(1) family_effort_def)
qed

text \<open>A process that is not gone can move.\<close>

lemma family_moves:
  assumes "p \<in> set (procs f)" "l_pc p \<noteq> Left" "l_pc p \<noteq> Killed"
  shows "\<exists>g. family_step n f g"
proof -
  obtain i where i: "i < length (procs f)" "procs f ! i = p" using assms(1) by (auto simp: in_set_conv_nth)
  show ?thesis
  proof (cases "l_pc p")
    case (Looping k)
    with i show ?thesis by (cases "k < n") (blast intro: fork_fails loop_ends)+
  next
    case (Leaving as)
    with i show ?thesis by (cases as) (blast intro: acts returns)+
  qed (use assms in simp_all)
qed

text \<open>When every \<open>fork\<close> succeeds before the first \<open>kill\<close>, the family doubles in every iteration.\<close>

lemma family_round:
  assumes "\<forall>p\<in>set (procs f). l_pc p = Looping k" "k < n" "j \<le> length (procs f)"
  shows "\<exists>g. (family_step n)\<^sup>*\<^sup>* f g \<and> length (procs g) = length (procs f) + j \<and>
    (\<forall>i<length (procs g). l_pc (procs g ! i) = Looping (if j \<le> i \<and> i < length (procs f) then k else k + 1))"
  using assms(3)
proof (induction j)
  case 0
  then show ?case using assms(1) by (intro exI [of _ f]) simp
next
  case (Suc j)
  let ?m = "length (procs f)"
  from Suc obtain g where g: "(family_step n)\<^sup>*\<^sup>* f g" "length (procs g) = ?m + j"
    "\<forall>i<length (procs g). l_pc (procs g ! i) = Looping (if j \<le> i \<and> i < ?m then k else k + 1)" by auto
  let ?p = "procs g ! j"
  let ?h = "g\<lparr>procs := (procs g)[j := ?p\<lparr>l_pids := (l_pids ?p)[k := next_pid g], l_pc := Looping (k + 1)\<rparr>] @
      [?p\<lparr>l_pid := next_pid g, l_pc := Looping (k + 1)\<rparr>], next_pid := next_pid g + 1\<rparr>"
  have "j < length (procs g)" using g(2) Suc.prems by linarith
  moreover from this g(3) Suc.prems have "l_pc ?p = Looping k" by simp
  ultimately have "family_step n g ?h" using assms(2) by (intro forks [where i = j and k = k]) auto
  with g(1) have "(family_step n)\<^sup>*\<^sup>* f ?h" by simp
  moreover have "l_pc (procs ?h ! i) = Looping (if Suc j \<le> i \<and> i < ?m then k else k + 1)" if "i < length (procs ?h)" for i
  proof (cases "i = j")
    case True
    with g(2) Suc.prems show ?thesis by (simp add: nth_append)
  next
    case False
    then have "Suc j \<le> i \<longleftrightarrow> j \<le> i" by linarith
    with False that g(2,3) show ?thesis by (cases "i < ?m + j") (simp_all add: nth_append)
  qed
  moreover have "length (procs ?h) = ?m + Suc j" using g(2) by simp
  ultimately show ?case by blast
qed

lemma family_grows:
  assumes "\<forall>p\<in>set (procs f). l_pc p = Looping k" "k \<le> n"
  shows "\<exists>g. (family_step n)\<^sup>*\<^sup>* f g \<and> length (procs g) = length (procs f) * 2 ^ (n - k) \<and> (\<forall>p\<in>set (procs g). l_pc p = Looping n)"
  using assms
proof (induction "n - k" arbitrary: k f)
  case 0
  then show ?case by (intro exI [of _ f]) simp
next
  case (Suc d)
  then have k: "k < n" by simp
  obtain g where g: "(family_step n)\<^sup>*\<^sup>* f g" "length (procs g) = 2 * length (procs f)"
    "\<forall>p\<in>set (procs g). l_pc p = Looping (k + 1)"
    using family_round [OF Suc.prems(1) k order_refl] by (auto simp: all_set_conv_all_nth)
  have "d = n - (k + 1)" "k + 1 \<le> n" using Suc.hyps(2) k by simp_all
  from Suc.hyps(1) [OF this(1) g(3) this(2)] obtain h where
    h: "(family_step n)\<^sup>*\<^sup>* g h" "length (procs h) = length (procs g) * 2 ^ (n - (k + 1))" "\<forall>p\<in>set (procs h). l_pc p = Looping n"
    by blast
  have "(family_step n)\<^sup>*\<^sup>* f h" using g(1) h(1) by (rule rtranclp_trans)
  moreover have "length (procs h) = length (procs f) * 2 ^ (n - k)"
    using h(2) g(2) two_powers [OF k] by simp
  ultimately show ?case using h(3) by blast
qed

section \<open>Properties\<close>

lemma signalled_printer_inv:
  assumes "length siblings < n" "0 \<notin> set siblings" "r \<notin> set siblings" "r \<noteq> 0" "r < q"
  shows "family_inv n siblings r (signalled_printer n siblings r q)"
  using assms by (auto simp: family_inv_def signalled_printer_def on_track_def spares_def)

interpretation fam: inductive_invariant
  "\<lambda>f. length siblings < n \<and> 0 \<notin> set siblings \<and> r \<notin> set siblings \<and> r \<noteq> 0 \<and> r < q \<and> f = signalled_printer n siblings r q"
  "family_step n" "\<lambda>f. family_inv n siblings r f \<and> 0 \<notin> set siblings \<and> family_size n f \<le> 2 ^ (n - 1 - length siblings)"
  for n siblings r q
proof unfold_locales
  show "family_inv n siblings r f \<and> 0 \<notin> set siblings \<and> family_size n f \<le> 2 ^ (n - 1 - length siblings)"
    if "length siblings < n \<and> 0 \<notin> set siblings \<and> r \<notin> set siblings \<and> r \<noteq> 0 \<and> r < q \<and> f = signalled_printer n siblings r q" for f
    using that signalled_printer_inv [of siblings n r q]
    by (auto simp: family_size_def signalled_printer_def offspring_def)
  show "family_inv n siblings r g \<and> 0 \<notin> set siblings \<and> family_size n g \<le> 2 ^ (n - 1 - length siblings)"
    if "family_inv n siblings r f \<and> 0 \<notin> set siblings \<and> family_size n f \<le> 2 ^ (n - 1 - length siblings)" "family_step n f g" for f g
    using that family_inv_step [of n siblings r f g] family_step_size [OF that(2)] by fastforce
qed

lemma family_ends:
  assumes "family_inv n siblings r f" "0 \<notin> set siblings"
  shows "\<nexists>\<sigma>. \<sigma> 0 = f \<and> (\<forall>k. family_step n (\<sigma> k) (\<sigma> (Suc k)))"
proof
  assume "\<exists>\<sigma>. \<sigma> 0 = f \<and> (\<forall>k. family_step n (\<sigma> k) (\<sigma> (Suc k)))"
  then obtain \<sigma> where s: "\<sigma> 0 = f" "\<And>k. family_step n (\<sigma> k) (\<sigma> (Suc k))" by blast
  have sib: "\<forall>s\<in>set siblings. s \<noteq> 0" using assms(2) by auto
  have inv: "family_inv n siblings r (\<sigma> k)" for k
  proof (induction k)
    case 0
    show ?case using assms(1) s(1) by simp
  next
    case (Suc k)
    from Suc sib s(2) show ?case by (rule family_inv_step)
  qed
  have "family_effort n (\<sigma> (Suc k)) < family_effort n (\<sigma> k)" for k
    using inv s(2) by (rule family_step_effort)
  then have "(\<sigma> (Suc k), \<sigma> k) \<in> measure (family_effort n)" for k by simp
  moreover have "wf (measure (family_effort n))" by simp
  ultimately show False unfolding wf_iff_no_infinite_down_chain by blast
qed

text \<open>
  C37: a printer process that a signal ends does not stop after \<open>printer_process\<close>. Of \<open>n\<close> printers,
  take the one forked after \<open>siblings\<close>, whose forks have succeeded, and let the processes it turns into run in any order, with
  any of their \<open>fork\<close>s failing and their \<open>SIGKILL\<close>s hitting each other: they are never more than
  \<open>2 ^ (n - 1 - i)\<close> for \<open>i\<close> siblings, a number they can reach; the printer itself is never among
  those killed; no run goes on for ever; and when none of them can move, the printer has killed
  all its earlier siblings and destroyed the semaphores and the shared segment the others use,
  and so has every other process of the family that was not killed.
\<close>

theorem signalled_printer_destroys_queue:
  assumes "length siblings < n" "0 \<notin> set siblings" "r \<notin> set siblings" "r \<noteq> 0" "r < q"
  shows "(\<forall>f. reach (\<lambda>f. f = signalled_printer n siblings r q) (family_step n) f \<longrightarrow>
      length (procs f) \<le> 2 ^ (n - 1 - length siblings) \<and>
      l_pid (hd (procs f)) = r \<and> l_pc (hd (procs f)) \<noteq> Killed \<and>
      (\<nexists>\<sigma>. \<sigma> 0 = f \<and> (\<forall>k. family_step n (\<sigma> k) (\<sigma> (Suc k)))) \<and>
      ((\<nexists>g. family_step n f g) \<longrightarrow>
         (\<forall>p\<in>set (procs f). l_pc p = Killed \<or> (\<forall>a\<in>set (map Kill siblings @ [Clean_Queue, Munmap, Shm_Unlink]). (l_pid p, a) \<in> set (deeds f))))) \<and>
    (\<exists>f. reach (\<lambda>f. f = signalled_printer n siblings r q) (family_step n) f \<and> length (procs f) = 2 ^ (n - 1 - length siblings))"
proof (intro conjI allI impI)
  fix f assume "reach (\<lambda>f. f = signalled_printer n siblings r q) (family_step n) f"
  with fam.reachable_inv [of siblings n r q f] assms
  have inv: "family_inv n siblings r f" "family_size n f \<le> 2 ^ (n - 1 - length siblings)" by simp_all
  from inv(2) procs_le_size [of f n] show "length (procs f) \<le> 2 ^ (n - 1 - length siblings)" by simp
  from inv(1) show "l_pid (hd (procs f)) = r" "l_pc (hd (procs f)) \<noteq> Killed" by (simp_all add: family_inv_def)
  from inv(1) assms(2) show "\<nexists>\<sigma>. \<sigma> 0 = f \<and> (\<forall>k. family_step n (\<sigma> k) (\<sigma> (Suc k)))" by (rule family_ends)
  assume stuck: "\<nexists>g. family_step n f g"
  show "\<forall>p\<in>set (procs f). l_pc p = Killed \<or>
      (\<forall>a\<in>set (map Kill siblings @ [Clean_Queue, Munmap, Shm_Unlink]). (l_pid p, a) \<in> set (deeds f))"
  proof
    fix p assume p: "p \<in> set (procs f)"
    with stuck family_moves have "l_pc p = Left \<or> l_pc p = Killed" by blast
    moreover have "on_track n siblings (deeds f) p" using inv(1) p by (simp add: family_inv_def)
    ultimately show "l_pc p = Killed \<or>
      (\<forall>a\<in>set (map Kill siblings @ [Clean_Queue, Munmap, Shm_Unlink]). (l_pid p, a) \<in> set (deeds f))"
      by (auto simp: on_track_def owed_def)
  qed
next
  have "\<forall>p\<in>set (procs (signalled_printer n siblings r q)). l_pc p = Looping (length siblings + 1)"
    by (simp add: signalled_printer_def)
  from family_grows [OF this, of n] assms(1) obtain g where
    "(family_step n)\<^sup>*\<^sup>* (signalled_printer n siblings r q) g" "length (procs g) = 2 ^ (n - (length siblings + 1))"
    by (auto simp: signalled_printer_def)
  then show "\<exists>f. reach (\<lambda>f. f = signalled_printer n siblings r q) (family_step n) f \<and> length (procs f) = 2 ^ (n - 1 - length siblings)"
    by (intro exI [of _ g]) (auto intro: reach_steps reach_init)
qed

text \<open>The last of two printers, to its end.\<close>

lemma two_printers_run:
  "reach (\<lambda>f. f = signalled_printer 2 [101] 102 103) (family_step 2)
     \<lparr>procs = [\<lparr>l_pid = 102, l_pids = [101, 0], l_pc = Left\<rparr>], next_pid = 103,
      deeds = [(102, Kill 101), (102, Clean_Queue), (102, Munmap), (102, Shm_Unlink)]\<rparr>"
proof -
  let ?s = "\<lambda>pc ds. \<lparr>procs = [\<lparr>l_pid = 102, l_pids = [101, 0], l_pc = pc\<rparr>], next_pid = 103, deeds = ds\<rparr>"
  let ?r = "reach (\<lambda>f. f = signalled_printer 2 [101] 102 103) (family_step 2)"
  have act: "?r (?s (Leaving as) (ds @ [(102, a)]))" if "?r (?s (Leaving (a # as)) ds)" "a \<noteq> Kill 102" for a as ds
  proof (rule reach_step [OF that(1)])
    have "act a [\<lparr>l_pid = 102, l_pids = [101, 0], l_pc = Leaving as\<rparr>] = [\<lparr>l_pid = 102, l_pids = [101, 0], l_pc = Leaving as\<rparr>]"
      using that(2) by (cases a) (auto simp: kill_process_def)
    then show "family_step 2 (?s (Leaving (a # as)) ds) (?s (Leaving as) (ds @ [(102, a)]))"
      using acts [of 0 "?s (Leaving (a # as)) ds" _ a as 2] by simp
  qed
  have "?r (?s (Looping 2) [])"
    by (rule reach_init) (simp add: signalled_printer_def numeral_2_eq_2)
  moreover have "family_step 2 (?s (Looping 2) []) (?s (Leaving [Kill 101, Clean_Queue, Munmap, Shm_Unlink]) [])"
    using loop_ends [of 0 "?s (Looping 2) []" _ 2 2] by (simp add: server_cleanup_def)
  ultimately have "?r (?s (Leaving [Kill 101, Clean_Queue, Munmap, Shm_Unlink]) [])" by (rule reach_step)
  from act [OF act [OF act [OF act [OF this]]]]
  have "?r (?s (Leaving []) [(102, Kill 101), (102, Clean_Queue), (102, Munmap), (102, Shm_Unlink)])" by simp
  moreover have "family_step 2 (?s (Leaving []) ds) (?s Left ds)" for ds
    using returns [of 0 "?s (Leaving []) ds" _ 2] by simp
  ultimately show ?thesis by (rule reach_step)
qed

theorem signalled_printer_destroys_queue_witness:
  "(\<exists>f. reach (\<lambda>f. f = signalled_printer 5 [101, 102] 103 104) (family_step 5) f \<and> length (procs f) = 4) \<and>
   (\<exists>f. reach (\<lambda>f. f = signalled_printer 2 [101] 102 103) (family_step 2) f \<and> length (procs f) \<le> 1 \<and>
     (\<nexists>g. family_step 2 f g) \<and> (102, Kill 101) \<in> set (deeds f) \<and> (102, Shm_Unlink) \<in> set (deeds f))"
proof
  show "\<exists>f. reach (\<lambda>f. f = signalled_printer 5 [101, 102] 103 104) (family_step 5) f \<and> length (procs f) = 4"
    using signalled_printer_destroys_queue [of "[101, 102]" 5 103 104, THEN conjunct2] by simp
  let ?f = "\<lparr>procs = [\<lparr>l_pid = 102, l_pids = [101, 0], l_pc = Left\<rparr>], next_pid = 103,
      deeds = [(102, Kill 101), (102, Clean_Queue), (102, Munmap), (102, Shm_Unlink)]\<rparr>"
  have "\<nexists>g. family_step 2 ?f g" by (auto elim!: family_step.cases)
  with two_printers_run show "\<exists>f. reach (\<lambda>f. f = signalled_printer 2 [101] 102 103) (family_step 2) f \<and> length (procs f) \<le> 1 \<and>
     (\<nexists>g. family_step 2 f g) \<and> (102, Kill 101) \<in> set (deeds f) \<and> (102, Shm_Unlink) \<in> set (deeds f)"
    by (intro exI [of _ ?f]) simp
qed

end
