(* ===== verification/Life_Grid.thy ===== *)
theory Life_Grid
  imports C_Base
begin

text \<open>
  The grid of the game of life of \<^verbatim>\<open>cw09\<close> (\<^verbatim>\<open>grid.h\<close>, \<^verbatim>\<open>grid.c\<close>): \<open>is_alive\<close>,
  \<open>update_grid\<close> and \<open>update_subgrid\<close> over the flat array of bytes, with every access
  checked against its bounds, and their equality with the rule of the game.
\<close>

section \<open>Memory\<close>

definition GRID_WIDTH :: int where "GRID_WIDTH = 30"
definition GRID_HEIGHT :: int where "GRID_HEIGHT = 30"

type_synonym grid = "8 word list"

definition grid_read :: "grid \<Rightarrow> int \<Rightarrow> 8 word cres" where
  "grid_read g i = (if 0 \<le> i \<and> i < int (length g) then Inr (g ! nat i) else Inl Oob_Read)"

definition grid_write :: "grid \<Rightarrow> int \<Rightarrow> bool \<Rightarrow> grid cres" where
  "grid_write g i b =
     (if 0 \<le> i \<and> i < int (length g) then Inr (g[nat i := of_bool b]) else Inl Oob_Write)"

section \<open>Operations\<close>

text \<open>\<open>create_grid\<close>: the bytes \<open>malloc\<close> returns, whatever they hold.\<close>

definition created :: "grid \<Rightarrow> bool" where
  "created g \<longleftrightarrow> int (length g) = GRID_WIDTH * GRID_HEIGHT"

definition init_grid :: "(nat \<Rightarrow> nat) \<Rightarrow> grid" where
  "init_grid rand = map (\<lambda>i. of_bool (rand i mod 2 = 0)) [0..<nat (GRID_WIDTH * GRID_HEIGHT)]"

text \<open>The two nested loops of \<open>is_alive\<close>, as the list of the pairs \<open>(i, j)\<close> they visit.\<close>

definition offsets :: "(int \<times> int) list" where
  "offsets = List.product [-1, 0, 1] [-1, 0, 1]"

fun count_loop :: "(int \<times> int) list \<Rightarrow> int \<Rightarrow> int \<Rightarrow> grid \<Rightarrow> int \<Rightarrow> int cres" where
  "count_loop [] row col grid count = Inr count"
| "count_loop ((i, j) # rest) row col grid count =
     (if i = 0 \<and> j = 0 then count_loop rest row col grid count
      else
        let r = row + i; c = col + j
        in if r < 0 \<or> r \<ge> GRID_HEIGHT \<or> c < 0 \<or> c \<ge> GRID_WIDTH then count_loop rest row col grid count
           else cbind (grid_read grid (GRID_WIDTH * r + c)) (\<lambda>x.
             count_loop rest row col grid (if x \<noteq> 0 then count + 1 else count)))"

definition is_alive :: "int \<Rightarrow> int \<Rightarrow> grid \<Rightarrow> bool cres" where
  "is_alive row col grid =
     cbind (count_loop offsets row col grid 0) (\<lambda>count.
     cbind (grid_read grid (row * GRID_WIDTH + col)) (\<lambda>x.
       if x \<noteq> 0 then (if count = 2 \<or> count = 3 then Inr True else Inr False)
       else (if count = 3 then Inr True else Inr False)))"

text \<open>The inner loop of \<open>update_grid\<close> from column \<open>j\<close>, and the outer one from row \<open>i\<close>.\<close>

function update_row :: "grid \<Rightarrow> grid \<Rightarrow> int \<Rightarrow> int \<Rightarrow> grid cres" where
  "update_row src dst i j =
     (if j < GRID_WIDTH
      then cbind (is_alive i j src) (\<lambda>b. cbind (grid_write dst (i * GRID_WIDTH + j) b)
             (\<lambda>dst'. update_row src dst' i (j + 1)))
      else Inr dst)"
  by auto
termination by (relation "measure (\<lambda>(src, dst, i, j). nat (GRID_WIDTH - j))") auto

function update_rows :: "grid \<Rightarrow> grid \<Rightarrow> int \<Rightarrow> grid cres" where
  "update_rows src dst i =
     (if i < GRID_HEIGHT then cbind (update_row src dst i 0) (\<lambda>dst'. update_rows src dst' (i + 1))
      else Inr dst)"
  by auto
termination by (relation "measure (\<lambda>(src, dst, i). nat (GRID_HEIGHT - i))") auto

definition update_grid :: "grid \<Rightarrow> grid \<Rightarrow> grid cres" where
  "update_grid src dst = update_rows src dst 0"

text \<open>One iteration of the loop of \<open>update_subgrid\<close>, and the loop.\<close>

definition update_cell :: "grid \<Rightarrow> grid \<Rightarrow> int \<Rightarrow> grid cres" where
  "update_cell src dst i =
     (let row = i sdiv GRID_WIDTH; col = i smod GRID_WIDTH
      in cbind (is_alive row col src) (\<lambda>b. grid_write dst i b))"

function update_subgrid :: "grid \<Rightarrow> grid \<Rightarrow> int \<Rightarrow> int \<Rightarrow> grid cres" where
  "update_subgrid src dst start stop =
     (if start < stop then cbind (update_cell src dst start) (\<lambda>dst'. update_subgrid src dst' (start + 1) stop)
      else Inr dst)"
  by auto
termination by (relation "measure (\<lambda>(src, dst, start, stop). nat (stop - start))") auto

declare update_row.simps [simp del] update_rows.simps [simp del] update_subgrid.simps [simp del]

section \<open>The rule of the game\<close>

text \<open>A cell of a board without borders beyond the grid: outside everything is dead.\<close>

definition live :: "grid \<Rightarrow> int \<times> int \<Rightarrow> bool" where
  "live g = (\<lambda>(r, c). 0 \<le> r \<and> r < GRID_HEIGHT \<and> 0 \<le> c \<and> c < GRID_WIDTH \<and> g ! nat (GRID_WIDTH * r + c) \<noteq> 0)"

definition neighbours :: "int \<times> int \<Rightarrow> (int \<times> int) set" where
  "neighbours = (\<lambda>(r, c). {(r', c'). \<bar>r' - r\<bar> \<le> 1 \<and> \<bar>c' - c\<bar> \<le> 1 \<and> (r', c') \<noteq> (r, c)})"

text \<open>A cell lives on with two or three live neighbours and is born with three.\<close>

definition life_rule :: "grid \<Rightarrow> int \<times> int \<Rightarrow> bool" where
  "life_rule g p \<longleftrightarrow>
     (let n = card {q \<in> neighbours p. live g q} in n = 3 \<or> (live g p \<and> n = 2))"

definition cell_of :: "nat \<Rightarrow> int \<times> int" where
  "cell_of k = (int k div GRID_WIDTH, int k mod GRID_WIDTH)"

definition next_generation :: "grid \<Rightarrow> grid" where
  "next_generation g = map (\<lambda>k. of_bool (life_rule g (cell_of k))) [0..<length g]"

section \<open>\<open>is_alive\<close> computes the rule\<close>

lemma count_loop_filter:
  "created g \<Longrightarrow>
   count_loop os row col g n =
     Inr (n + int (length (filter (\<lambda>(i, j). (i, j) \<noteq> (0, 0) \<and> live g (row + i, col + j)) os)))"
proof (induction os arbitrary: n)
  case (Cons p os)
  obtain i j where p: "p = (i, j)" by (cases p)
  show ?case
    using Cons by (auto simp: p Let_def live_def grid_read_def created_def GRID_WIDTH_def GRID_HEIGHT_def)
qed simp

lemma offsets_list: "offsets = [(-1, -1), (-1, 0), (-1, 1), (0, -1), (0, 0), (0, 1), (1, -1), (1, 0), (1, 1)]"
  by (simp add: offsets_def)

lemma set_offsets: "set offsets = {(i, j). \<bar>i\<bar> \<le> 1 \<and> \<bar>j\<bar> \<le> 1}"
proof -
  have "set [-1, 0, 1] = {x :: int. \<bar>x\<bar> \<le> 1}" by auto
  then show ?thesis by (simp only: offsets_def set_product) blast
qed

lemma live_neighbours_offsets:
  "card {q \<in> neighbours (row, col). live g q} =
   length (filter (\<lambda>(i, j). (i, j) \<noteq> (0, 0) \<and> live g (row + i, col + j)) offsets)"
proof -
  let ?P = "\<lambda>(i, j). (i, j) \<noteq> (0, 0) \<and> live g (row + i, col + j)"
  let ?f = "\<lambda>(i, j). (row + i, col + j)"
  have "distinct offsets" by (simp add: offsets_list)
  then have "length (filter ?P offsets) = card (set (filter ?P offsets))"
    by (intro distinct_card [symmetric]) simp
  also have "\<dots> = card (?f ` set (filter ?P offsets))"
    by (intro card_image [symmetric]) (auto simp: inj_on_def)
  also have "?f ` set (filter ?P offsets) = {q \<in> neighbours (row, col). live g q}"
  proof (intro set_eqI iffI)
    fix q assume "q \<in> ?f ` set (filter ?P offsets)"
    then show "q \<in> {q \<in> neighbours (row, col). live g q}"
      by (auto simp: set_offsets neighbours_def)
  next
    fix q assume q: "q \<in> {q \<in> neighbours (row, col). live g q}"
    obtain r c where rc: "q = (r, c)" by (cases q)
    with q have "(r - row, c - col) \<in> set (filter ?P offsets)"
      by (auto simp: set_offsets neighbours_def)
    moreover have "q = ?f (r - row, c - col)" by (simp add: rc)
    ultimately show "q \<in> ?f ` set (filter ?P offsets)" by blast
  qed
  finally show ?thesis by simp
qed

lemma is_alive_rule:
  assumes "created g" "0 \<le> row" "row < GRID_HEIGHT" "0 \<le> col" "col < GRID_WIDTH"
  shows "is_alive row col g = Inr (life_rule g (row, col))"
proof -
  let ?n = "card {q \<in> neighbours (row, col). live g q}"
  have "count_loop offsets row col g 0 = Inr (int ?n)"
    using assms(1) by (simp add: count_loop_filter live_neighbours_offsets)
  moreover have "grid_read g (row * GRID_WIDTH + col) = Inr (g ! nat (GRID_WIDTH * row + col))"
    using assms by (simp add: grid_read_def created_def mult.commute GRID_WIDTH_def GRID_HEIGHT_def)
  moreover have "live g (row, col) \<longleftrightarrow> g ! nat (GRID_WIDTH * row + col) \<noteq> 0"
    using assms by (simp add: live_def)
  ultimately show ?thesis
    by (auto simp: is_alive_def life_rule_def Let_def)
qed

section \<open>The loops\<close>

text \<open>What a partly updated array holds: new cells in a range of indices, old ones elsewhere.\<close>

definition patched :: "grid \<Rightarrow> grid \<Rightarrow> int \<Rightarrow> int \<Rightarrow> grid" where
  "patched src dst lo hi = map (\<lambda>k. if lo \<le> int k \<and> int k < hi then next_generation src ! k else dst ! k) [0..<length dst]"

lemma length_patched [simp]: "length (patched src dst lo hi) = length dst"
  by (simp add: patched_def)

lemma length_next_generation [simp]: "length (next_generation g) = length g"
  by (simp add: next_generation_def)

lemma created_next_generation [simp]: "created (next_generation g) = created g"
  by (simp add: created_def)

lemma created_patched [simp]: "created (patched src dst lo hi) = created dst"
  by (simp add: created_def)

lemma patched_empty: "hi \<le> lo \<Longrightarrow> patched src dst lo hi = dst"
  by (rule nth_equalityI) (auto simp: patched_def)

lemma patched_cell:
  assumes "created src" "created dst" "0 \<le> i" "i < GRID_WIDTH * GRID_HEIGHT"
  shows "dst[nat i := next_generation src ! nat i] = patched src dst i (i + 1)"
  by (rule nth_equalityI) (use assms in \<open>auto simp: patched_def nth_list_update\<close>)

lemma patched_patched:
  "lo \<le> mid \<Longrightarrow> mid \<le> hi \<Longrightarrow> patched src (patched src dst lo mid) mid hi = patched src dst lo hi"
  by (rule nth_equalityI) (auto simp: patched_def)

lemma patched_all:
  "created src \<Longrightarrow> created dst \<Longrightarrow> patched src dst 0 (GRID_WIDTH * GRID_HEIGHT) = next_generation src"
  by (rule nth_equalityI) (auto simp: patched_def created_def)

lemma life_cell:
  assumes "created src" "created dst" "0 \<le> i" "i < GRID_WIDTH * GRID_HEIGHT"
  shows "cbind (is_alive (i div GRID_WIDTH) (i mod GRID_WIDTH) src) (grid_write dst i) =
    Inr (patched src dst i (i + 1))"
proof -
  have "is_alive (i div GRID_WIDTH) (i mod GRID_WIDTH) src = Inr (life_rule src (cell_of (nat i)))"
    using assms by (simp add: is_alive_rule cell_of_def GRID_WIDTH_def GRID_HEIGHT_def)
  moreover have "next_generation src ! nat i = of_bool (life_rule src (cell_of (nat i)))"
    using assms by (simp add: next_generation_def created_def nat_less_iff)
  ultimately show ?thesis
    using assms patched_cell [OF assms] by (simp add: grid_write_def created_def)
qed

lemma update_cell_patched:
  "created src \<Longrightarrow> created dst \<Longrightarrow> 0 \<le> i \<Longrightarrow> i < GRID_WIDTH * GRID_HEIGHT \<Longrightarrow>
   update_cell src dst i = Inr (patched src dst i (i + 1))"
  using life_cell [of src dst i]
  by (simp add: update_cell_def sdiv_nonneg smod_nonneg GRID_WIDTH_def)

lemma update_subgrid_patched:
  assumes "created src" "created dst" "0 \<le> start" "stop \<le> GRID_WIDTH * GRID_HEIGHT"
  shows "update_subgrid src dst start stop = Inr (patched src dst start stop)"
  using assms
proof (induction src dst start stop rule: update_subgrid.induct)
  case (1 src dst start stop)
  then show ?case
    by (cases "start < stop")
      (simp_all add: update_subgrid.simps [of src dst start stop] update_cell_patched patched_patched patched_empty)
qed

lemma update_row_patched:
  assumes "created src" "created dst" "0 \<le> i" "i < GRID_HEIGHT" "0 \<le> j" "j \<le> GRID_WIDTH"
  shows "update_row src dst i j = Inr (patched src dst (i * GRID_WIDTH + j) ((i + 1) * GRID_WIDTH))"
  using assms
proof (induction src dst i j rule: update_row.induct)
  case (1 src dst i j)
  show ?case
  proof (cases "j < GRID_WIDTH")
    case True
    let ?k = "i * GRID_WIDTH + j"
    have "?k div GRID_WIDTH = i" "?k mod GRID_WIDTH = j" "0 \<le> ?k" "?k < GRID_WIDTH * GRID_HEIGHT"
      using True 1(4-7) by (simp_all add: GRID_WIDTH_def GRID_HEIGHT_def)
    then have "cbind (is_alive i j src) (grid_write dst ?k) = Inr (patched src dst ?k (?k + 1))"
      using life_cell [of src dst ?k] 1(2,3) by simp
    then obtain b where b: "is_alive i j src = Inr b" "grid_write dst ?k b = Inr (patched src dst ?k (?k + 1))"
      by (auto simp: cbind_eq_Inr)
    have "update_row src (patched src dst ?k (?k + 1)) i (j + 1) =
        Inr (patched src (patched src dst ?k (?k + 1)) (?k + 1) ((i + 1) * GRID_WIDTH))"
      using 1(1) [OF True, of "patched src dst ?k (?k + 1)"] 1(2-7) True by (simp add: add.assoc)
    then show ?thesis
      using True b by (simp add: update_row.simps [of src dst i j] patched_patched algebra_simps)
  next
    case False
    then show ?thesis
      using 1(7) by (subst update_row.simps) (simp add: patched_empty algebra_simps)
  qed
qed

lemma update_rows_patched:
  assumes "created src" "created dst" "0 \<le> i" "i \<le> GRID_HEIGHT"
  shows "update_rows src dst i = Inr (patched src dst (i * GRID_WIDTH) (GRID_WIDTH * GRID_HEIGHT))"
  using assms
proof (induction src dst i rule: update_rows.induct)
  case (1 src dst i)
  show ?case
  proof (cases "i < GRID_HEIGHT")
    case True
    have row: "update_row src dst i 0 = Inr (patched src dst (i * GRID_WIDTH) ((i + 1) * GRID_WIDTH))"
      using update_row_patched [of src dst i 0] 1 True by (simp add: GRID_WIDTH_def)
    have "(i + 1) * GRID_WIDTH \<le> GRID_WIDTH * GRID_HEIGHT"
      using True by (simp add: GRID_WIDTH_def GRID_HEIGHT_def)
    then show ?thesis
      using 1(1) [OF True, of "patched src dst (i * GRID_WIDTH) ((i + 1) * GRID_WIDTH)"] 1(2-5) True row
      by (simp add: update_rows.simps [of src dst i] patched_patched GRID_WIDTH_def)
  next
    case False
    then show ?thesis
      using 1(5) by (subst update_rows.simps) (simp add: patched_empty algebra_simps)
  qed
qed

lemma update_grid_next: "created src \<Longrightarrow> created dst \<Longrightarrow> update_grid src dst = Inr (next_generation src)"
  using update_rows_patched [of src dst 0] by (simp add: update_grid_def patched_all) (simp add: GRID_HEIGHT_def)

end
