(* ===== verification/Partition.thy ===== *)
theory Partition
  imports C_Base
begin

text \<open>
  The interface between a program that splits a range of indices among workers and the
  workers: consecutive intervals that cover the range. \<^verbatim>\<open>cw06/zad1\<close> splits the intervals of
  the integral this way, \<^verbatim>\<open>cw09\<close> the cells of the grid.
\<close>

locale partition =
  fixes n :: nat
    and lo hi :: "nat \<Rightarrow> int"
    and total :: int
  assumes some_worker: "0 < n"
    and lo_first: "lo 0 = 0"
    and hi_last: "hi (n - Suc 0) = total"
    and adjacent: "Suc i < n \<Longrightarrow> hi i = lo (Suc i)"
    and lo_le_hi: "i < n \<Longrightarrow> lo i \<le> hi i"
begin

lemma ordered: "i < j \<Longrightarrow> j < n \<Longrightarrow> hi i \<le> lo j"
proof (induction j)
  case (Suc j)
  show ?case
  proof (cases "i = j")
    case True
    with Suc.prems show ?thesis by (simp add: adjacent)
  next
    case False
    with Suc have "hi i \<le> lo j" by simp
    also have "\<dots> \<le> hi j" using Suc.prems by (simp add: lo_le_hi)
    finally show ?thesis using Suc.prems by (simp add: adjacent)
  qed
qed simp

lemma lo_nonneg: "i < n \<Longrightarrow> 0 \<le> lo i"
proof (cases "i = 0")
  case False
  assume i: "i < n"
  have "0 \<le> hi 0" using some_worker lo_le_hi [of 0] by (simp add: lo_first)
  also have "\<dots> \<le> lo i" using False i by (intro ordered) auto
  finally show ?thesis .
qed (simp add: lo_first)

lemma hi_le_total: "i < n \<Longrightarrow> hi i \<le> total"
proof (cases "i = n - 1")
  case False
  assume i: "i < n"
  with False have "hi i \<le> lo (n - 1)" by (intro ordered) auto
  also have "\<dots> \<le> hi (n - 1)" using i by (intro lo_le_hi) simp
  finally show ?thesis by (simp add: hi_last)
qed (simp add: hi_last)

lemma disjoint: "i < n \<Longrightarrow> j < n \<Longrightarrow> lo i \<le> k \<Longrightarrow> k < hi i \<Longrightarrow> lo j \<le> k \<Longrightarrow> k < hi j \<Longrightarrow> i = j"
  using ordered [of i j] ordered [of j i] by (cases i j rule: linorder_cases) auto

lemma covers_below: "m < n \<Longrightarrow> 0 \<le> k \<Longrightarrow> k < hi m \<Longrightarrow> \<exists>i\<le>m. lo i \<le> k \<and> k < hi i"
proof (induction m)
  case 0
  then show ?case by (auto simp: lo_first)
next
  case (Suc m)
  then show ?case
    by (cases "lo (Suc m) \<le> k") (auto simp: adjacent dest: le_SucI)
qed

lemma covers:
  assumes "0 \<le> k" "k < total"
  obtains i where "i < n" "lo i \<le> k" "k < hi i"
proof -
  have "n - Suc 0 < n" using some_worker by simp
  with covers_below [of "n - Suc 0" k] assms obtain i where "i \<le> n - Suc 0" "lo i \<le> k" "k < hi i"
    by (auto simp: hi_last)
  moreover from \<open>i \<le> n - Suc 0\<close> \<open>n - Suc 0 < n\<close> have "i < n" by (rule le_less_trans)
  ultimately show thesis by (intro that)
qed

lemma sizes_total: "(\<Sum>i<n. hi i - lo i) = total"
proof -
  have "m < n \<Longrightarrow> (\<Sum>i<Suc m. hi i - lo i) = hi m" for m
    by (induction m) (simp_all add: lo_first adjacent)
  from this [of "n - 1"] some_worker show ?thesis by (simp add: hi_last)
qed

text \<open>A sum over the range is the sum of the workers' sums.\<close>

lemma sum_parts: "(\<Sum>i<n. \<Sum>k\<in>{lo i..<hi i}. g k) = (\<Sum>k\<in>{0..<total}. g k)" for g :: "int \<Rightarrow> 'b::comm_monoid_add"
proof -
  have "m < n \<Longrightarrow> (\<Sum>i<Suc m. \<Sum>k\<in>{lo i..<hi i}. g k) = (\<Sum>k\<in>{0..<hi m}. g k)" for m
  proof (induction m)
    case (Suc m)
    have "{0..<hi (Suc m)} = {0..<lo (Suc m)} \<union> {lo (Suc m)..<hi (Suc m)}"
      using lo_nonneg [OF Suc.prems] lo_le_hi [OF Suc.prems] by auto
    then have "(\<Sum>k\<in>{0..<hi (Suc m)}. g k) =
        (\<Sum>k\<in>{0..<lo (Suc m)}. g k) + (\<Sum>k\<in>{lo (Suc m)..<hi (Suc m)}. g k)"
      by (simp add: sum.union_disjoint)
    with Suc show ?case by (simp add: adjacent)
  qed (simp add: lo_first)
  from this [of "n - Suc 0"] some_worker show ?thesis by (simp add: hi_last)
qed

end

end
