(* ===== verification/Life_Threads.thy ===== *)
theory Life_Threads
  imports Life_Grid Partition Transition
begin

text \<open>
  The threads of the game of life (\<^verbatim>\<open>cw09/life.c\<close>): how \<open>main\<close> splits the grid, the memory the
  threads share, and one round of the workers (\<open>compute_part_of_grid\<close>) at the granularity of
  single cells, in which their interleaving does not matter. The signals that start a round
  are in \<open>Life_Signals\<close>.
\<close>

section \<open>The split\<close>

definition thread_count :: "string list \<Rightarrow> int option" where
  "thread_count argv =
     (if length argv \<noteq> 2 then None
      else let n_threads = fst (strtol10 (argv ! 1))
           in if n_threads < 1 \<or> n_threads > GRID_HEIGHT * GRID_WIDTH then None else Some n_threads)"

text \<open>The products stay below \<open>900 * 900\<close>, far from the range of \<open>long\<close>.\<close>

definition thread_start :: "int \<Rightarrow> int \<Rightarrow> int" where
  "thread_start n_threads i = (i * (GRID_WIDTH * GRID_HEIGHT)) sdiv n_threads"

definition thread_end :: "int \<Rightarrow> int \<Rightarrow> int" where
  "thread_end n_threads i =
     (if i = n_threads - 1 then GRID_WIDTH * GRID_HEIGHT
      else ((i + 1) * (GRID_WIDTH * GRID_HEIGHT)) sdiv n_threads)"

interpretation cells: partition "Suc m" "\<lambda>i. thread_start (int (Suc m)) (int i)"
    "\<lambda>i. thread_end (int (Suc m)) (int i)" "GRID_WIDTH * GRID_HEIGHT" for m
proof (unfold_locales, goal_cases)
  case (4 i)
  then show ?case by (simp add: thread_start_def thread_end_def add.commute)
next
  case (5 i)
  have "int i * 900 div (1 + int m) \<le> (int i + 1) * 900 div (1 + int m)"
    by (intro zdiv_mono1) auto
  moreover have "(int m + 1) * 900 div (1 + int m) = 900"
    using nonzero_mult_div_cancel_left [of "1 + int m" 900] by (simp add: add.commute)
  ultimately show ?case
    using 5 by (auto simp: thread_start_def thread_end_def sdiv_nonneg GRID_WIDTH_def GRID_HEIGHT_def)
qed (simp_all add: thread_start_def thread_end_def)

section \<open>A worker\<close>

text \<open>The two arrays \<open>main\<close> allocates; the arguments of a thread point to them.\<close>

datatype grid_ptr = Foreground | Background

record life_mem =
  fg_grid :: grid
  bg_grid :: grid

definition deref :: "life_mem \<Rightarrow> grid_ptr \<Rightarrow> grid" where
  "deref mem p = (case p of Foreground \<Rightarrow> fg_grid mem | Background \<Rightarrow> bg_grid mem)"

definition assign :: "grid_ptr \<Rightarrow> grid \<Rightarrow> life_mem \<Rightarrow> life_mem" where
  "assign p g mem = (case p of Foreground \<Rightarrow> mem\<lparr>fg_grid := g\<rparr> | Background \<Rightarrow> mem\<lparr>bg_grid := g\<rparr>)"

record thread_args_t =
  foreground :: grid_ptr
  background :: grid_ptr
  start :: int
  stop :: int

definition thread_args :: "int \<Rightarrow> int \<Rightarrow> thread_args_t" where
  "thread_args n_threads i = \<lparr>foreground = Foreground, background = Background,
     start = thread_start n_threads i, stop = thread_end n_threads i\<rparr>"

lemma deref_assign [simp]: "deref (assign p g mem) q = (if p = q then g else deref mem q)"
  by (cases p; cases q) (simp_all add: deref_def assign_def)

lemma assign_assign [simp]: "assign p h (assign p g mem) = assign p h mem"
  by (cases p) (simp_all add: assign_def)

lemma assign_deref [simp]: "assign p (deref mem p) mem = mem"
  by (cases p) (simp_all add: assign_def deref_def)

section \<open>Generations\<close>

definition generation :: "nat \<Rightarrow> grid \<Rightarrow> grid" where
  "generation k g = (next_generation ^^ k) g"

lemma generation_simps [simp]: "generation 0 g = g" "generation (Suc k) g = generation k (next_generation g)"
  by (simp_all add: generation_def funpow_swap1)

lemma created_generation [simp]: "created (generation k g) = created g"
  by (induction k arbitrary: g) simp_all

lemma created_init_grid: "created (init_grid rand)"
  by (simp add: created_def init_grid_def GRID_WIDTH_def GRID_HEIGHT_def)

section \<open>A round, cell by cell\<close>

declare of_nat_Suc [simp del]

text \<open>
  The workers of one round run concurrently: \<open>pos ! i\<close> is the index worker \<open>i\<close> writes
  next. Any worker that is not done may write its next cell.
\<close>

record round_state =
  pos :: "int list"
  target :: grid

definition round_start :: "int \<Rightarrow> grid \<Rightarrow> round_state" where
  "round_start n_threads dst =
     \<lparr>pos = map (\<lambda>i. thread_start n_threads (int i)) [0..<nat n_threads], target = dst\<rparr>"

inductive cell_step :: "int \<Rightarrow> grid \<Rightarrow> round_state \<Rightarrow> round_state \<Rightarrow> bool"
  for n_threads :: int and src :: grid where
  write_cell: "i < length (pos s) \<Longrightarrow> pos s ! i < thread_end n_threads (int i) \<Longrightarrow>
     update_cell src (target s) (pos s ! i) = Inr dst \<Longrightarrow>
     cell_step n_threads src s (s\<lparr>pos := (pos s)[i := pos s ! i + 1], target := dst\<rparr>)"

definition round_done :: "int \<Rightarrow> round_state \<Rightarrow> bool" where
  "round_done n_threads s \<longleftrightarrow> (\<forall>i<length (pos s). thread_end n_threads (int i) \<le> pos s ! i)"

definition cells_left :: "int \<Rightarrow> round_state \<Rightarrow> nat" where
  "cells_left n_threads s = (\<Sum>i<length (pos s). nat (thread_end n_threads (int i) - pos s ! i))"

definition written :: "int \<Rightarrow> round_state \<Rightarrow> nat \<Rightarrow> bool" where
  "written n_threads s k \<longleftrightarrow> (\<exists>i<length (pos s). thread_start n_threads (int i) \<le> int k \<and> int k < pos s ! i)"

definition round_inv :: "nat \<Rightarrow> grid \<Rightarrow> grid \<Rightarrow> round_state \<Rightarrow> bool" where
  "round_inv m src dst s \<longleftrightarrow>
     created src \<and> created (target s) \<and> length (pos s) = Suc m \<and>
     (\<forall>i<Suc m. thread_start (int (Suc m)) (int i) \<le> pos s ! i \<and> pos s ! i \<le> thread_end (int (Suc m)) (int i)) \<and>
     (\<forall>k<length (target s). target s ! k = (if written (int (Suc m)) s k then next_generation src ! k else dst ! k))"

lemma round_inv_start:
  "created src \<Longrightarrow> created dst \<Longrightarrow> round_inv m src dst (round_start (int (Suc m)) dst)"
proof -
  assume created: "created src" "created dst"
  let ?s = "round_start (int (Suc m)) dst"
  have len: "length (pos ?s) = Suc m" "target ?s = dst"
    by (simp_all add: round_start_def del: upt_Suc)
  have pos: "pos ?s ! i = thread_start (int (Suc m)) (int i)" if "i < Suc m" for i
    using that by (simp add: round_start_def del: upt_Suc)
  have "\<not> written (int (Suc m)) ?s k" for k
    using pos by (auto simp: written_def len)
  with created len pos cells.lo_le_hi [of _ m] show ?thesis
    by (simp add: round_inv_def)
qed

lemma written_step:
  assumes "i < length (pos s)" "thread_start n (int i) \<le> pos s ! i" "0 \<le> pos s ! i"
  shows "written n (s\<lparr>pos := (pos s)[i := pos s ! i + 1], target := d\<rparr>) k \<longleftrightarrow>
    written n s k \<or> k = nat (pos s ! i)"
proof -
  have "int k < pos s ! i + 1 \<longleftrightarrow> int k < pos s ! i \<or> k = nat (pos s ! i)"
    using assms(3) by linarith
  with assms show ?thesis
    by (auto simp: written_def nth_list_update)
qed

lemma round_inv_step:
  assumes inv: "round_inv m src dst s" and st: "cell_step (int (Suc m)) src s t"
  shows "round_inv m src dst t"
  using st
proof (cases rule: cell_step.cases)
  case (write_cell i d)
  let ?n = "int (Suc m)" and ?c = "pos s ! i"
  have i: "i < Suc m" and lo: "thread_start ?n (int i) \<le> ?c"
    using inv write_cell(2) by (simp_all add: round_inv_def)
  have c: "0 \<le> ?c" "?c < GRID_WIDTH * GRID_HEIGHT"
    using cells.lo_nonneg [OF i] cells.hi_le_total [OF i] lo write_cell(3) by linarith+
  have d: "d = patched src (target s) ?c (?c + 1)"
    using write_cell(4) update_cell_patched [OF _ _ c] inv by (simp add: round_inv_def)
  have w: "written ?n t k \<longleftrightarrow> written ?n s k \<or> k = nat ?c" for k
    unfolding write_cell(1) using written_step [OF write_cell(2) lo c(1)] .
  have "target t = d" "pos t = (pos s)[i := ?c + 1]" using write_cell(1) by simp_all
  moreover have "d ! k = (if written ?n t k then next_generation src ! k else dst ! k)"
    if "k < length (target s)" for k
    using that inv c by (auto simp: d w patched_def round_inv_def)
  ultimately show ?thesis
    using inv i write_cell(3) d by (auto simp: round_inv_def nth_list_update)
qed

interpretation life_round: inductive_invariant
  "\<lambda>s. created src \<and> created dst \<and> s = round_start (int (Suc m)) dst"
  "cell_step (int (Suc m)) src" "round_inv m src dst" for m src dst
  by unfold_locales (auto intro: round_inv_start round_inv_step)

lemma round_done_result:
  assumes inv: "round_inv m src dst s" and fin: "round_done (int (Suc m)) s"
  shows "target s = next_generation src"
proof (rule nth_equalityI)
  show "length (target s) = length (next_generation src)"
    using inv by (simp add: round_inv_def created_def)
  fix k assume k: "k < length (target s)"
  then have "0 \<le> int k" "int k < GRID_WIDTH * GRID_HEIGHT"
    using inv by (auto simp: round_inv_def created_def)
  then obtain i where i: "i < Suc m" "thread_start (int (Suc m)) (int i) \<le> int k" "int k < thread_end (int (Suc m)) (int i)"
    by (rule cells.covers)
  moreover have "length (pos s) = Suc m" using inv by (simp add: round_inv_def)
  ultimately have "written (int (Suc m)) s k"
    using fin by (auto simp: written_def round_done_def intro: less_le_trans)
  with k inv show "target s ! k = next_generation src ! k" by (simp add: round_inv_def)
qed

lemma round_progress:
  assumes inv: "round_inv m src dst s" and "\<not> round_done (int (Suc m)) s"
  shows "\<exists>t. cell_step (int (Suc m)) src s t"
proof -
  obtain i where i: "i < length (pos s)" "pos s ! i < thread_end (int (Suc m)) (int i)"
    using assms(2) by (auto simp: round_done_def not_le)
  then have i': "i < Suc m" using inv by (simp add: round_inv_def)
  have "0 \<le> pos s ! i" "pos s ! i < GRID_WIDTH * GRID_HEIGHT"
    using cells.lo_nonneg [OF i'] cells.hi_le_total [OF i'] inv i' i(2) by (auto simp: round_inv_def)
  with inv have "update_cell src (target s) (pos s ! i) = Inr (patched src (target s) (pos s ! i) (pos s ! i + 1))"
    by (intro update_cell_patched) (auto simp: round_inv_def)
  with i show ?thesis by (blast intro: cell_step.intros)
qed

lemma cells_left_step: "cell_step n src s t \<Longrightarrow> cells_left n t < cells_left n s"
proof (induction rule: cell_step.induct)
  case (write_cell i s d)
  have "(\<Sum>j<length (pos s). nat (thread_end n (int j) - (pos s)[i := pos s ! i + 1] ! j)) <
      (\<Sum>j<length (pos s). nat (thread_end n (int j) - pos s ! j))"
    using write_cell by (intro sum_strict_mono_ex1) (auto simp: nth_list_update)
  then show ?case by (simp add: cells_left_def)
qed

section \<open>Properties\<close>

text \<open>
  C7: \<open>update_grid\<close> computes the next generation of the game of life (born with three live
  neighbours, alive with two or three, dead cells around the grid), never leaves the arrays,
  and overwrites the whole target, whatever it held; \<open>update_subgrid\<close> on the whole range does
  the same.
\<close>

theorem update_grid_is_life:
  assumes "created src" "created dst"
  shows "update_grid src dst = Inr (next_generation src) \<and>
    update_subgrid src dst 0 (GRID_WIDTH * GRID_HEIGHT) = update_grid src dst"
  using assms by (simp add: update_grid_next update_subgrid_patched patched_all)

lemma created_replicate: "created (replicate 900 x)"
  by (simp add: created_def GRID_WIDTH_def GRID_HEIGHT_def)

theorem update_grid_is_life_witness:
  "update_grid (replicate 900 1) (replicate 900 7) = Inr (next_generation (replicate 900 1))"
  using update_grid_is_life [OF created_replicate created_replicate] by blast

lemma thread_count_Some:
  assumes "thread_count argv = Some n"
  obtains m where "n = int (Suc m)" "m < 900"
proof -
  have "1 \<le> n" "n \<le> 900"
    using assms by (auto simp: thread_count_def Let_def GRID_WIDTH_def GRID_HEIGHT_def split: if_splits)
  then have "n = int (Suc (nat (n - 1)))" "nat (n - 1) < 900" by auto
  then show thesis by (rule that)
qed

text \<open>
  For every number of threads \<open>main\<close> accepts, each cell of the grid is in the range of
  exactly one thread.
\<close>

theorem threads_split_grid:
  assumes "thread_count argv = Some n" "0 \<le> k" "k < GRID_WIDTH * GRID_HEIGHT"
  shows "\<exists>!i. i < nat n \<and> thread_start n (int i) \<le> k \<and> k < thread_end n (int i)"
proof -
  obtain m where n: "n = int (Suc m)" using assms(1) by (rule thread_count_Some)
  obtain i where i: "i < Suc m" "thread_start n (int i) \<le> k" "k < thread_end n (int i)"
    using cells.covers [OF assms(2,3), of m] unfolding n by metis
  show ?thesis
  proof (rule ex1I [of _ i])
    show "i < nat n \<and> thread_start n (int i) \<le> k \<and> k < thread_end n (int i)"
      using i by (simp add: n)
    show "j = i" if "j < nat n \<and> thread_start n (int j) \<le> k \<and> k < thread_end n (int j)" for j
      using that i cells.disjoint [of j m i k] by (simp add: n)
  qed
qed

theorem threads_split_grid_witness:
  "\<exists>!i. i < nat 7 \<and> thread_start 7 (int i) \<le> 899 \<and> 899 < thread_end 7 (int i)"
  by (rule threads_split_grid [of "[''life'', ''7'']"]) (code_simp, simp_all add: GRID_WIDTH_def GRID_HEIGHT_def)

text \<open>
  C6: the worker threads need no ordering among them. Whatever the interleaving of their cell
  updates, in every state of a round a worker can continue or all are done, each update
  brings the end of the round closer, and when all are done the target is what the
  sequential \<open>update_grid\<close> computes.
\<close>

theorem workers_compute_generation:
  assumes "thread_count argv = Some n" "created src" "created dst"
    and "reach (\<lambda>s. s = round_start n dst) (cell_step n src) s"
  shows "(round_done n s \<longrightarrow> update_grid src dst = Inr (target s)) \<and>
    (\<not> round_done n s \<longrightarrow> (\<exists>t. cell_step n src s t)) \<and>
    (\<forall>t. cell_step n src s t \<longrightarrow> cells_left n t < cells_left n s)"
proof -
  obtain m where n: "n = int (Suc m)" using assms(1) by (rule thread_count_Some)
  have "round_inv m src dst s"
    using life_round.reachable_inv [of src dst m s] assms(2-4) by (simp add: n)
  then show ?thesis
    using round_done_result [of m src dst s] round_progress [of m src dst s] assms(2,3)
    by (auto simp: n update_grid_next cells_left_step)
qed

theorem workers_compute_generation_witness:
  "\<exists>t. cell_step 3 (replicate 900 1) (round_start 3 (replicate 900 0)) t"
proof -
  have "thread_count [''life'', ''3''] = Some 3" by code_simp
  from workers_compute_generation [OF this created_replicate created_replicate
      reach_init [of "\<lambda>s. s = round_start 3 (replicate 900 0)", OF refl]]
  have "\<not> round_done 3 (round_start 3 (replicate 900 0)) \<longrightarrow>
      (\<exists>t. cell_step 3 (replicate 900 1) (round_start 3 (replicate 900 0)) t)"
    by blast
  moreover have "\<not> round_done 3 (round_start 3 (replicate 900 0))"
    by (auto simp: round_done_def round_start_def thread_start_def thread_end_def GRID_WIDTH_def GRID_HEIGHT_def
        intro!: exI [of _ "0::nat"])
  ultimately show ?thesis by blast
qed

declare of_nat_Suc [simp]

end
