(* ===== verification/Life_Signals.thy ===== *)
theory Life_Signals
  imports Life_Threads
begin

text \<open>
  The game of life as one process with its signals (\<^verbatim>\<open>cw09/life.c\<close>): \<open>main\<close> creates the
  threads, draws, signals and sleeps; each thread blocks \<open>SIGUSR1\<close> in its own body, waits for
  it and updates its part cell by cell. Nothing orders the threads but the signals, so the
  steps interleave in any way, those of \<open>draw_grid\<close>, which reads the grid cell by cell, too.
\<close>

section \<open>\<open>draw_grid\<close>\<close>

datatype glyph = Square | Blank

type_synonym screen = "int \<times> int \<Rightarrow> glyph option"

text \<open>
  \<open>mvprintw\<close> and the window it paints are ncurses: a parameter. What the code relies on is
  that in a window that holds the grid a character printed at row \<open>y\<close>, column \<open>x\<close> is shown
  there and nowhere else.
\<close>

definition prints :: "(int \<Rightarrow> int \<Rightarrow> glyph \<Rightarrow> 'w \<Rightarrow> 'w) \<Rightarrow> ('w \<Rightarrow> screen) \<Rightarrow> bool" where
  "prints mvprintw shown \<longleftrightarrow>
     (\<forall>y x g w. 0 \<le> y \<and> y < GRID_HEIGHT \<and> 0 \<le> x \<and> x < 2 * GRID_WIDTH \<longrightarrow>
        shown (mvprintw y x g w) = (shown w)((y, x) \<mapsto> g))"

definition draw_cell :: "(int \<Rightarrow> int \<Rightarrow> glyph \<Rightarrow> 'w \<Rightarrow> 'w) \<Rightarrow> grid \<Rightarrow> int \<Rightarrow> int \<Rightarrow> 'w \<Rightarrow> 'w cres" where
  "draw_cell mvprintw grid i j w =
     cbind (grid_read grid (i * GRID_WIDTH + j)) (\<lambda>x.
       if x \<noteq> 0 then Inr (mvprintw i (j * 2 + 1) Blank (mvprintw i (j * 2) Square w))
       else Inr (mvprintw i (j * 2 + 1) Blank (mvprintw i (j * 2) Blank w)))"

text \<open>The two nested loops, over the cells in the order they are drawn.\<close>

fun draw_cells :: "(int \<Rightarrow> int \<Rightarrow> glyph \<Rightarrow> 'w \<Rightarrow> 'w) \<Rightarrow> grid \<Rightarrow> (int \<times> int) list \<Rightarrow> 'w \<Rightarrow> 'w cres" where
  "draw_cells mvprintw grid [] w = Inr w"
| "draw_cells mvprintw grid ((i, j) # rest) w =
     cbind (draw_cell mvprintw grid i j w) (draw_cells mvprintw grid rest)"

definition draw_grid :: "(int \<Rightarrow> int \<Rightarrow> glyph \<Rightarrow> 'w \<Rightarrow> 'w) \<Rightarrow> grid \<Rightarrow> 'w \<Rightarrow> 'w cres" where
  "draw_grid mvprintw grid w =
     draw_cells mvprintw grid (List.product [0..GRID_HEIGHT - 1] [0..GRID_WIDTH - 1]) w"

text \<open>The screen with the cells in \<open>S\<close> painted, two columns each.\<close>

definition painted :: "grid \<Rightarrow> (int \<times> int) set \<Rightarrow> screen \<Rightarrow> screen" where
  "painted grid S scr = (\<lambda>(y, x).
     if (y, x div 2) \<in> S then Some (if even x \<and> live grid (y, x div 2) then Square else Blank) else scr (y, x))"

lemma draw_cell_paints:
  assumes "created grid" "0 \<le> i" "i < GRID_HEIGHT" "0 \<le> j" "j < GRID_WIDTH" "prints mvprintw shown"
  shows "\<exists>w'. draw_cell mvprintw grid i j w = Inr w' \<and> shown w' = painted grid {(i, j)} (shown w)"
proof -
  let ?g = "if live grid (i, j) then Square else Blank"
  let ?w = "mvprintw i (j * 2 + 1) Blank (mvprintw i (j * 2) ?g w)"
  have "i * GRID_WIDTH + j < int (length grid)"
    using assms by (simp add: created_def GRID_WIDTH_def GRID_HEIGHT_def)
  then have "draw_cell mvprintw grid i j w = Inr ?w"
    using assms by (simp add: draw_cell_def grid_read_def live_def mult.commute GRID_WIDTH_def)
  moreover have "x div 2 = j \<longleftrightarrow> x = 2 * j \<or> x = 2 * j + 1" for x by presburger
  then have "(shown w)((i, 2 * j) \<mapsto> ?g, (i, 2 * j + 1) \<mapsto> Blank) = painted grid {(i, j)} (shown w)"
    by (auto simp: painted_def)
  then have "shown ?w = painted grid {(i, j)} (shown w)"
    using assms by (simp add: prints_def mult.commute)
  ultimately show ?thesis by blast
qed

lemma painted_painted: "painted grid T (painted grid S scr) = painted grid (S \<union> T) scr"
  by (auto simp: painted_def)

lemma draw_cells_paint:
  assumes "created grid" "prints mvprintw shown"
    and "\<forall>(i, j)\<in>set cs. 0 \<le> i \<and> i < GRID_HEIGHT \<and> 0 \<le> j \<and> j < GRID_WIDTH"
  shows "\<exists>w'. draw_cells mvprintw grid cs w = Inr w' \<and> shown w' = painted grid (set cs) (shown w)"
  using assms(3)
proof (induction cs arbitrary: w)
  case Nil
  show ?case by (simp add: painted_def fun_eq_iff)
next
  case (Cons c cs)
  obtain i j where c: "c = (i, j)" by fastforce
  with Cons.prems obtain w1 where w1: "draw_cell mvprintw grid i j w = Inr w1" "shown w1 = painted grid {(i, j)} (shown w)"
    using draw_cell_paints [OF assms(1) _ _ _ _ assms(2), of i j w] by auto
  obtain w2 where "draw_cells mvprintw grid cs w1 = Inr w2" "shown w2 = painted grid (set cs) (shown w1)"
    using Cons.IH [of w1] Cons.prems by auto
  with w1 show ?case by (simp add: c painted_painted)
qed

section \<open>The process\<close>

datatype worker_phase = Starting | Sigwait | Updating int

record worker =
  wargs :: thread_args_t
  masked :: bool
  pending :: bool
  wphase :: worker_phase

datatype main_phase = Creating nat | Drawing | Painting grid | Signalling nat | Sleeping
  | Killed_By_Signal | Returned exit_code | Faulted fault

record life_state =
  workers :: "worker list"
  phase :: main_phase
  mem :: life_mem
  frames :: "grid list"

text \<open>
  \<open>Painting cs\<close>: \<open>draw_grid\<close> has read and printed the cells \<open>cs\<close>, in the order of its loops;
  \<open>frames\<close> holds what it has drawn in its finished calls.
\<close>

definition new_worker :: "int \<Rightarrow> nat \<Rightarrow> worker" where
  "new_worker n_threads i = \<lparr>wargs = thread_args n_threads (int i), masked = False, pending = False, wphase = Starting\<rparr>"

definition life_start :: "grid \<Rightarrow> grid \<Rightarrow> life_state" where
  "life_start g junk = \<lparr>workers = [], phase = Creating 0, mem = \<lparr>fg_grid = g, bg_grid = junk\<rparr>, frames = []\<rparr>"

definition running :: "life_state \<Rightarrow> bool" where
  "running s \<longleftrightarrow> (case phase s of Killed_By_Signal \<Rightarrow> False | Returned _ \<Rightarrow> False | Faulted _ \<Rightarrow> False | _ \<Rightarrow> True)"

text \<open>
  \<open>pthread_kill\<close>: for a thread that blocks the signal it becomes pending, once however often
  it is sent; for one that does not yet block it the default action ends the process.
\<close>

definition pthread_kill :: "nat \<Rightarrow> life_state \<Rightarrow> life_state" where
  "pthread_kill i s =
     (if masked (workers s ! i)
      then s\<lparr>workers := (workers s)[i := (workers s ! i)\<lparr>pending := True\<rparr>], phase := Signalling (Suc i)\<rparr>
      else s\<lparr>phase := Killed_By_Signal\<rparr>)"

definition swapped :: "thread_args_t \<Rightarrow> thread_args_t" where
  "swapped a = a\<lparr>foreground := background a, background := foreground a\<rparr>"

inductive life_step :: "int \<Rightarrow> life_state \<Rightarrow> life_state \<Rightarrow> bool" for n_threads :: int where
  create: "phase s = Creating i \<Longrightarrow> int i < n_threads \<Longrightarrow>
    life_step n_threads s (s\<lparr>workers := workers s @ [new_worker n_threads i], phase := Creating (Suc i)\<rparr>)"
| create_fails: "phase s = Creating i \<Longrightarrow> int i < n_threads \<Longrightarrow>
    life_step n_threads s (s\<lparr>phase := Returned EXIT_FAILURE\<rparr>)"
| all_created: "phase s = Creating i \<Longrightarrow> \<not> int i < n_threads \<Longrightarrow> life_step n_threads s (s\<lparr>phase := Drawing\<rparr>)"
| draw: "phase s = Drawing \<Longrightarrow> life_step n_threads s (s\<lparr>phase := Painting []\<rparr>)"
| paint: "phase s = Painting cs \<Longrightarrow> int (length cs) < GRID_HEIGHT * GRID_WIDTH \<Longrightarrow>
    grid_read (fg_grid (mem s)) (int (length cs)) = Inr x \<Longrightarrow>
    life_step n_threads s (s\<lparr>phase := Painting (cs @ [x])\<rparr>)"
| paint_fault: "phase s = Painting cs \<Longrightarrow> int (length cs) < GRID_HEIGHT * GRID_WIDTH \<Longrightarrow>
    grid_read (fg_grid (mem s)) (int (length cs)) = Inl e \<Longrightarrow> life_step n_threads s (s\<lparr>phase := Faulted e\<rparr>)"
| drawn: "phase s = Painting cs \<Longrightarrow> \<not> int (length cs) < GRID_HEIGHT * GRID_WIDTH \<Longrightarrow>
    life_step n_threads s (s\<lparr>phase := Signalling 0, frames := frames s @ [cs]\<rparr>)"
| signal: "phase s = Signalling i \<Longrightarrow> int i < n_threads \<Longrightarrow> life_step n_threads s (pthread_kill i s)"
| all_signalled: "phase s = Signalling i \<Longrightarrow> \<not> int i < n_threads \<Longrightarrow> life_step n_threads s (s\<lparr>phase := Sleeping\<rparr>)"
| wake: "phase s = Sleeping \<Longrightarrow> life_step n_threads s (s\<lparr>phase := Drawing\<rparr>)"
| mask: "running s \<Longrightarrow> i < length (workers s) \<Longrightarrow> wphase (workers s ! i) = Starting \<Longrightarrow>
    life_step n_threads s (s\<lparr>workers := (workers s)[i := (workers s ! i)\<lparr>masked := True, wphase := Sigwait\<rparr>]\<rparr>)"
| mask_fails: "running s \<Longrightarrow> i < length (workers s) \<Longrightarrow> wphase (workers s ! i) = Starting \<Longrightarrow>
    life_step n_threads s (s\<lparr>phase := Returned EXIT_FAILURE\<rparr>)"
| take_signal: "running s \<Longrightarrow> i < length (workers s) \<Longrightarrow> wphase (workers s ! i) = Sigwait \<Longrightarrow> pending (workers s ! i) \<Longrightarrow>
    life_step n_threads s (s\<lparr>workers := (workers s)
      [i := (workers s ! i)\<lparr>pending := False, wphase := Updating (start (wargs (workers s ! i)))\<rparr>]\<rparr>)"
| cell: "running s \<Longrightarrow> i < length (workers s) \<Longrightarrow> w = workers s ! i \<Longrightarrow> wphase w = Updating k \<Longrightarrow> k < stop (wargs w) \<Longrightarrow>
    update_cell (deref (mem s) (foreground (wargs w))) (deref (mem s) (background (wargs w))) k = Inr g \<Longrightarrow>
    life_step n_threads s (s\<lparr>workers := (workers s)[i := w\<lparr>wphase := Updating (k + 1)\<rparr>],
      mem := assign (background (wargs w)) g (mem s)\<rparr>)"
| cell_fault: "running s \<Longrightarrow> i < length (workers s) \<Longrightarrow> w = workers s ! i \<Longrightarrow> wphase w = Updating k \<Longrightarrow> k < stop (wargs w) \<Longrightarrow>
    update_cell (deref (mem s) (foreground (wargs w))) (deref (mem s) (background (wargs w))) k = Inl e \<Longrightarrow>
    life_step n_threads s (s\<lparr>phase := Faulted e\<rparr>)"
| part_done: "running s \<Longrightarrow> i < length (workers s) \<Longrightarrow> w = workers s ! i \<Longrightarrow> wphase w = Updating k \<Longrightarrow> \<not> k < stop (wargs w) \<Longrightarrow>
    life_step n_threads s (s\<lparr>workers := (workers s)[i := w\<lparr>wargs := swapped (wargs w), wphase := Sigwait\<rparr>]\<rparr>)"

section \<open>The invariant\<close>

definition worker_ok :: "worker \<Rightarrow> bool" where
  "worker_ok w \<longleftrightarrow> 0 \<le> start (wargs w) \<and> stop (wargs w) \<le> GRID_WIDTH * GRID_HEIGHT \<and>
     (masked w \<longleftrightarrow> wphase w \<noteq> Starting) \<and>
     (case wphase w of Updating k \<Rightarrow> 0 \<le> k | _ \<Rightarrow> True)"

text \<open>How many threads there are when \<open>main\<close> is at a point, and which signal may come next.\<close>

definition team_at :: "int \<Rightarrow> main_phase \<Rightarrow> nat \<Rightarrow> bool" where
  "team_at n_threads p len \<longleftrightarrow>
     (case p of Creating i \<Rightarrow> len = i \<and> int i \<le> n_threads
      | Signalling i \<Rightarrow> int len = n_threads \<and> int i \<le> n_threads
      | Drawing \<Rightarrow> int len = n_threads | Painting cs \<Rightarrow> int len = n_threads | Sleeping \<Rightarrow> int len = n_threads
      | Faulted e \<Rightarrow> False | _ \<Rightarrow> True)"

definition life_inv :: "int \<Rightarrow> life_state \<Rightarrow> bool" where
  "life_inv n_threads s \<longleftrightarrow> created (fg_grid (mem s)) \<and> created (bg_grid (mem s)) \<and>
     (\<forall>w\<in>set (workers s). worker_ok w) \<and> team_at n_threads (phase s) (length (workers s))"

lemma team_at_simps [simp]:
  "team_at n (Creating i) len \<longleftrightarrow> len = i \<and> int i \<le> n"
  "team_at n (Signalling i) len \<longleftrightarrow> int len = n \<and> int i \<le> n"
  "team_at n Drawing len \<longleftrightarrow> int len = n" "team_at n (Painting cs) len \<longleftrightarrow> int len = n" "team_at n Sleeping len \<longleftrightarrow> int len = n"
  "\<not> team_at n (Faulted e) len" "team_at n Killed_By_Signal len" "team_at n (Returned c) len"
  by (simp_all add: team_at_def)

lemma created_deref: "created (fg_grid m) \<Longrightarrow> created (bg_grid m) \<Longrightarrow> created (deref m p)"
  by (cases p) (simp_all add: deref_def)

lemma created_assign:
  "created (fg_grid m) \<Longrightarrow> created (bg_grid m) \<Longrightarrow> created g \<Longrightarrow>
   created (fg_grid (assign p g m)) \<and> created (bg_grid (assign p g m))"
  by (cases p) (simp_all add: assign_def)

lemma new_worker_ok: "int i < int (Suc m) \<Longrightarrow> worker_ok (new_worker (int (Suc m)) i)"
  using cells.lo_nonneg [of i m] cells.hi_le_total [of i m]
  by (simp add: worker_ok_def new_worker_def thread_args_def del: of_nat_Suc)

lemma worker_ok_simps [simp]:
  "worker_ok (w\<lparr>pending := b\<rparr>) = worker_ok w"
  by (simp add: worker_ok_def)

text \<open>The cell a worker is at can always be computed.\<close>

lemma worker_cell:
  assumes "life_inv n s" "w \<in> set (workers s)" "wphase w = Updating k" "k < stop (wargs w)"
  shows "\<exists>g. update_cell (deref (mem s) (foreground (wargs w))) (deref (mem s) (background (wargs w))) k = Inr g \<and> created g"
proof -
  have "0 \<le> k" "k < GRID_WIDTH * GRID_HEIGHT" using assms by (force simp: life_inv_def worker_ok_def)+
  with assms(1) update_cell_patched [of "deref (mem s) (foreground (wargs w))" "deref (mem s) (background (wargs w))" k]
  show ?thesis by (simp add: life_inv_def created_deref)
qed

text \<open>So can the cell \<open>draw_grid\<close> is at be read.\<close>

lemma paint_reads:
  assumes "created g" "int (length cs) < GRID_HEIGHT * GRID_WIDTH"
  shows "grid_read g (int (length cs)) = Inr (g ! length cs)"
  using assms by (simp add: grid_read_def created_def mult.commute)

lemma in_updated: "x \<in> set (ws[i := w]) \<Longrightarrow> x = w \<or> x \<in> set ws"
  using set_update_subset_insert [of ws i w] by auto

lemma life_inv_step:
  assumes inv: "life_inv (int (Suc m)) s" and st: "life_step (int (Suc m)) s t"
  shows "life_inv (int (Suc m)) t"
  using st
proof cases
  case (create i)
  with inv new_worker_ok [of i m] show ?thesis by (auto simp: life_inv_def)
next
  case (signal i)
  then have "i < length (workers s)" using inv by (simp add: life_inv_def)
  then have "worker_ok (workers s ! i)" using inv by (simp add: life_inv_def)
  with inv signal show ?thesis
    by (auto simp: life_inv_def pthread_kill_def dest!: in_updated)
next
  case (paint_fault cs e)
  have "created (fg_grid (mem s))" using inv by (simp add: life_inv_def)
  with paint_fault paint_reads show ?thesis by fastforce
next
  case (mask i)
  with inv show ?thesis
    by (auto simp: life_inv_def worker_ok_def dest!: in_updated)
next
  case (take_signal i)
  with inv show ?thesis
    by (auto simp: life_inv_def worker_ok_def dest!: in_updated)
next
  case (cell i w k g)
  then have w: "w \<in> set (workers s)" by simp
  from worker_cell [OF inv w cell(5,6)] cell(7) have "created g" by simp
  moreover have "worker_ok w" using inv w by (simp add: life_inv_def)
  ultimately show ?thesis using inv cell
    by (auto simp: life_inv_def worker_ok_def created_assign dest!: in_updated)
next
  case (cell_fault i w k e)
  then have w: "w \<in> set (workers s)" by simp
  from worker_cell [OF inv w cell_fault(5,6)] cell_fault(7) show ?thesis by simp
next
  case (part_done i w k)
  then have w: "w \<in> set (workers s)" by simp
  then have "worker_ok w" using inv by (simp add: life_inv_def)
  with inv part_done show ?thesis
    by (auto simp: life_inv_def worker_ok_def swapped_def dest!: in_updated)
qed (use inv in \<open>auto simp: life_inv_def\<close>)

interpretation life: inductive_invariant "\<lambda>s. \<exists>g junk. created g \<and> created junk \<and> s = life_start g junk"
    "life_step (int (Suc m))" "life_inv (int (Suc m))" for m
proof unfold_locales
  show "life_inv (int (Suc m)) s" if "\<exists>g junk. created g \<and> created junk \<and> s = life_start g junk" for s
    using that by (auto simp: life_inv_def life_start_def)
qed (rule life_inv_step)

section \<open>Runs\<close>

lemma life_inv_steps: "(life_step (int (Suc m)))\<^sup>*\<^sup>* s t \<Longrightarrow> life_inv (int (Suc m)) s \<Longrightarrow> life_inv (int (Suc m)) t"
  by (rule life.steps_inv)

lemma life_inv_start: "created g \<Longrightarrow> created junk \<Longrightarrow> life_inv (int (Suc m)) (life_start g junk)"
  by (rule life.inv_init) blast

text \<open>The steps by which \<open>main\<close> does not come to draw.\<close>

definition awake_step :: "int \<Rightarrow> life_state \<Rightarrow> life_state \<Rightarrow> bool" where
  "awake_step n s t \<longleftrightarrow> life_step n s t \<and> phase t \<noteq> Drawing"

lemma awake_steps: "(awake_step n)\<^sup>*\<^sup>* s t \<Longrightarrow> (life_step n)\<^sup>*\<^sup>* s t"
  by (erule rtranclp_mono [THEN predicate2D, rotated]) (auto simp: awake_step_def)

text \<open>\<open>main\<close> creates all threads before any of them runs.\<close>

lemma create_threads:
  "int i \<le> n \<Longrightarrow> (awake_step n)\<^sup>*\<^sup>* (life_start g junk)
     ((life_start g junk)\<lparr>workers := map (new_worker n) [0..<i], phase := Creating i\<rparr>)"
proof (induction i)
  case 0
  show ?case by (simp add: life_start_def)
next
  case (Suc i)
  let ?s = "(life_start g junk)\<lparr>workers := map (new_worker n) [0..<i], phase := Creating i\<rparr>"
  have "life_step n ?s (?s\<lparr>workers := workers ?s @ [new_worker n i], phase := Creating (Suc i)\<rparr>)"
    by (rule life_step.create) (use Suc.prems in auto)
  then have "awake_step n ?s (?s\<lparr>workers := workers ?s @ [new_worker n i], phase := Creating (Suc i)\<rparr>)"
    by (simp add: awake_step_def)
  moreover have "(awake_step n)\<^sup>*\<^sup>* (life_start g junk) ?s" using Suc by simp
  ultimately show ?case by (simp add: rtranclp.rtrancl_into_rtrancl)
qed

text \<open>A worker that has its signal does its part and swaps its pointers.\<close>

lemma worker_run:
  assumes "life_inv (int (Suc m)) s" "running s" "i < length (workers s)" "workers s ! i = w" "wphase w = Updating k"
    and "phase s \<noteq> Drawing"
  shows "\<exists>m'. (awake_step (int (Suc m)))\<^sup>*\<^sup>* s
    (s\<lparr>workers := (workers s)[i := w\<lparr>wargs := swapped (wargs w), wphase := Sigwait\<rparr>], mem := m'\<rparr>)"
  using assms
proof (induction "nat (stop (wargs w) - k)" arbitrary: s w k)
  case 0
  then have "life_step (int (Suc m)) s (s\<lparr>workers := (workers s)[i := w\<lparr>wargs := swapped (wargs w), wphase := Sigwait\<rparr>]\<rparr>)"
    by (intro life_step.part_done) auto
  with 0(7) have "(awake_step (int (Suc m)))\<^sup>*\<^sup>* s
      (s\<lparr>workers := (workers s)[i := w\<lparr>wargs := swapped (wargs w), wphase := Sigwait\<rparr>], mem := mem s\<rparr>)"
    by (intro r_into_rtranclp) (simp add: awake_step_def)
  then show ?case ..
next
  case (Suc r)
  then have k: "k < stop (wargs w)" by simp
  have "w \<in> set (workers s)" using Suc.prems(3,4) by auto
  from worker_cell [OF Suc.prems(1) this Suc.prems(5) k] obtain g where
    g: "update_cell (deref (mem s) (foreground (wargs w))) (deref (mem s) (background (wargs w))) k = Inr g" by blast
  let ?w = "w\<lparr>wphase := Updating (k + 1)\<rparr>"
  let ?t = "s\<lparr>workers := (workers s)[i := ?w], mem := assign (background (wargs w)) g (mem s)\<rparr>"
  have st: "life_step (int (Suc m)) s ?t" by (rule life_step.cell) (use Suc.prems k g in auto)
  have "\<exists>m'. (awake_step (int (Suc m)))\<^sup>*\<^sup>* ?t
      (?t\<lparr>workers := (workers ?t)[i := ?w\<lparr>wargs := swapped (wargs ?w), wphase := Sigwait\<rparr>], mem := m'\<rparr>)"
    by (rule Suc.hyps(1) [where k = "k + 1"])
      (use Suc.hyps(2) Suc.prems life_inv_step [OF Suc.prems(1) st] in \<open>auto simp: running_def\<close>)
  moreover have "awake_step (int (Suc m)) s ?t" using st Suc.prems(6) by (simp add: awake_step_def)
  ultimately show ?case by (auto intro: converse_rtranclp_into_rtranclp)
qed

lemma worker_turn:
  assumes "life_inv (int (Suc m)) s" "running s" "i < length (workers s)"
    and "wphase (workers s ! i) = Sigwait" "pending (workers s ! i)" "phase s \<noteq> Drawing"
  shows "\<exists>t. (awake_step (int (Suc m)))\<^sup>*\<^sup>* s t \<and> life_inv (int (Suc m)) t \<and> phase t = phase s \<and> frames t = frames s \<and>
    workers t = (workers s)[i := (workers s ! i)\<lparr>pending := False, wargs := swapped (wargs (workers s ! i))\<rparr>]"
proof -
  let ?w = "workers s ! i"
  let ?u = "?w\<lparr>pending := False, wphase := Updating (start (wargs ?w))\<rparr>"
  let ?s = "s\<lparr>workers := (workers s)[i := ?u]\<rparr>"
  have st: "life_step (int (Suc m)) s ?s" using assms(2-5) by (rule life_step.take_signal)
  then have awake: "awake_step (int (Suc m)) s ?s" using assms(6) by (simp add: awake_step_def)
  have "\<exists>m'. (awake_step (int (Suc m)))\<^sup>*\<^sup>* ?s
      (?s\<lparr>workers := (workers ?s)[i := ?u\<lparr>wargs := swapped (wargs ?u), wphase := Sigwait\<rparr>], mem := m'\<rparr>)"
    by (rule worker_run [where k = "start (wargs ?w)"])
      (use assms life_inv_step [OF assms(1) st] in \<open>auto simp: running_def\<close>)
  then obtain m' where steps: "(awake_step (int (Suc m)))\<^sup>*\<^sup>* s
      (?s\<lparr>workers := (workers ?s)[i := ?u\<lparr>wargs := swapped (wargs ?u), wphase := Sigwait\<rparr>], mem := m'\<rparr>)"
    using awake by (auto intro: converse_rtranclp_into_rtranclp)
  have "?u\<lparr>wargs := swapped (wargs ?u), wphase := Sigwait\<rparr> = ?w\<lparr>pending := False, wargs := swapped (wargs ?w)\<rparr>"
    using assms(4) by (cases "workers s ! i") simp
  with steps life_inv_steps [OF awake_steps [OF steps] assms(1)] show ?thesis by (intro exI) auto
qed

definition pended :: "worker \<Rightarrow> worker" where
  "pended w = w\<lparr>pending := True\<rparr>"

lemma signal_loop:
  assumes "phase s = Signalling i" "i \<le> length (workers s)" "int (length (workers s)) = n" "\<forall>w\<in>set (workers s). masked w"
  shows "(awake_step n)\<^sup>*\<^sup>* s (s\<lparr>workers := take i (workers s) @ map pended (drop i (workers s)), phase := Sleeping\<rparr>)"
  using assms
proof (induction "length (workers s) - i" arbitrary: i s)
  case 0
  then have "awake_step n s (s\<lparr>phase := Sleeping\<rparr>)"
    unfolding awake_step_def by (intro conjI life_step.all_signalled) auto
  with 0 show ?case by simp
next
  case (Suc r)
  then have i: "i < length (workers s)" by simp
  let ?t = "s\<lparr>workers := (workers s)[i := pended (workers s ! i)], phase := Signalling (Suc i)\<rparr>"
  have "life_step n s (pthread_kill i s)" using Suc.prems i by (intro life_step.signal) auto
  moreover have "pthread_kill i s = ?t" using Suc.prems(4) i by (simp add: pthread_kill_def pended_def)
  ultimately have st: "awake_step n s ?t" by (simp add: awake_step_def)
  have "(awake_step n)\<^sup>*\<^sup>* ?t (?t\<lparr>workers := take (Suc i) (workers ?t) @ map pended (drop (Suc i) (workers ?t)), phase := Sleeping\<rparr>)"
    by (rule Suc.hyps(1)) (use Suc.hyps(2) Suc.prems i in \<open>auto simp: pended_def dest!: in_updated\<close>)
  moreover have "take (Suc i) (workers ?t) @ map pended (drop (Suc i) (workers ?t)) =
      take i (workers s) @ map pended (drop i (workers s))"
    using i by (simp add: take_Suc_conv_app_nth Cons_nth_drop_Suc [symmetric])
  ultimately show ?case using st by (simp add: converse_rtranclp_into_rtranclp)
qed

text \<open>\<open>draw_grid\<close>, when nothing writes to the grid meanwhile.\<close>

lemma paint_run:
  assumes "phase s = Painting cs" "created (fg_grid (mem s))" "cs = take (length cs) (fg_grid (mem s))"
  shows "(awake_step n)\<^sup>*\<^sup>* s (s\<lparr>phase := Signalling 0, frames := frames s @ [fg_grid (mem s)]\<rparr>)"
  using assms
proof (induction "length (fg_grid (mem s)) - length cs" arbitrary: s cs)
  case 0
  let ?g = "fg_grid (mem s)"
  have "length cs \<le> length ?g" using 0(4) by (metis length_take min.cobounded1 min_def)
  with 0(1) have len: "length cs = length ?g" by simp
  with 0(4) have "cs = ?g" by simp
  moreover have "\<not> int (length cs) < GRID_HEIGHT * GRID_WIDTH"
    using len 0(3) by (simp add: created_def mult.commute)
  ultimately have "awake_step n s (s\<lparr>phase := Signalling 0, frames := frames s @ [?g]\<rparr>)"
    using life_step.drawn [of s cs n] 0(2) by (simp add: awake_step_def)
  then show ?case by simp
next
  case (Suc r)
  let ?g = "fg_grid (mem s)"
  have len: "length cs < length ?g" using Suc.hyps(2) by simp
  then have c: "int (length cs) < GRID_HEIGHT * GRID_WIDTH"
    using Suc.prems(2) by (simp add: created_def mult.commute)
  let ?t = "s\<lparr>phase := Painting (cs @ [?g ! length cs])\<rparr>"
  have "life_step n s ?t"
    using Suc.prems(1) c paint_reads [OF Suc.prems(2) c] by (rule life_step.paint)
  then have st: "awake_step n s ?t" by (simp add: awake_step_def)
  have "(awake_step n)\<^sup>*\<^sup>* ?t (?t\<lparr>phase := Signalling 0, frames := frames ?t @ [fg_grid (mem ?t)]\<rparr>)"
    by (rule Suc.hyps(1) [where cs = "cs @ [?g ! length cs]"])
      (use Suc.hyps(2) Suc.prems len in \<open>simp_all add: take_Suc_conv_app_nth\<close>)
  with st show ?case by (simp add: converse_rtranclp_into_rtranclp)
qed

lemma draw_run:
  assumes "phase s = Drawing" "created (fg_grid (mem s))"
  shows "(awake_step n)\<^sup>*\<^sup>* s (s\<lparr>phase := Signalling 0, frames := frames s @ [fg_grid (mem s)]\<rparr>)"
proof -
  have "life_step n s (s\<lparr>phase := Painting []\<rparr>)" using assms(1) by (rule life_step.draw)
  then have "awake_step n s (s\<lparr>phase := Painting []\<rparr>)" by (simp add: awake_step_def)
  with paint_run [of "s\<lparr>phase := Painting []\<rparr>" "[]" n] assms(2) show ?thesis
    by (simp add: converse_rtranclp_into_rtranclp)
qed

lemma main_turn:
  assumes "life_inv (int (Suc m)) s" "phase s = Drawing" "\<forall>w\<in>set (workers s). masked w"
  shows "\<exists>t. (awake_step (int (Suc m)))\<^sup>*\<^sup>* s t \<and> life_inv (int (Suc m)) t \<and> phase t = Sleeping \<and>
    frames t = frames s @ [fg_grid (mem s)] \<and> workers t = map pended (workers s)"
proof -
  let ?n = "int (Suc m)" let ?s = "s\<lparr>phase := Signalling 0, frames := frames s @ [fg_grid (mem s)]\<rparr>"
  have "(awake_step ?n)\<^sup>*\<^sup>* s ?s" using assms(1,2) by (intro draw_run) (simp_all add: life_inv_def)
  moreover have "(awake_step ?n)\<^sup>*\<^sup>* ?s (?s\<lparr>workers := take 0 (workers ?s) @ map pended (drop 0 (workers ?s)), phase := Sleeping\<rparr>)"
    by (rule signal_loop) (use assms in \<open>auto simp: life_inv_def\<close>)
  ultimately have "(awake_step ?n)\<^sup>*\<^sup>* s (?s\<lparr>workers := map pended (workers s), phase := Sleeping\<rparr>)"
    by simp
  with life_inv_steps [OF awake_steps [OF this] assms(1)] show ?thesis by (intro exI) auto
qed

section \<open>Properties\<close>

text \<open>
  C25: \<open>main\<close> may signal a thread before the thread has blocked \<open>SIGUSR1\<close>, for the mask is set
  in the body of the thread: with any accepted number of threads there is a run in which
  the first frame is drawn and the first signal kills the whole process.
\<close>

theorem signal_before_mask_kills:
  assumes "thread_count argv = Some n" "created g"
  shows "\<exists>s. (life_step n)\<^sup>*\<^sup>* (life_start g junk) s \<and> phase s = Killed_By_Signal \<and> frames s = [g]"
proof -
  obtain m where n: "n = int (Suc m)" using assms(1) by (rule thread_count_Some)
  let ?s = "(life_start g junk)\<lparr>workers := map (new_worker n) [0..<Suc m], phase := Creating (Suc m)\<rparr>"
  let ?t = "?s\<lparr>phase := Signalling 0, frames := [g]\<rparr>"
  have "(life_step n)\<^sup>*\<^sup>* (life_start g junk) ?s" by (rule awake_steps, rule create_threads) (simp add: n)
  also have "life_step n ?s (?s\<lparr>phase := Drawing\<rparr>)" by (rule life_step.all_created) (use n in auto)
  also have "(life_step n)\<^sup>*\<^sup>* (?s\<lparr>phase := Drawing\<rparr>) ?t"
    using awake_steps [OF draw_run [of "?s\<lparr>phase := Drawing\<rparr>" n]] assms(2) by (simp add: life_start_def)
  also have "life_step n ?t (pthread_kill 0 ?t)" by (rule life_step.signal) (simp_all add: n)
  also have "pthread_kill 0 ?t = ?t\<lparr>phase := Killed_By_Signal\<rparr>"
    by (simp add: pthread_kill_def new_worker_def del: upt_Suc)
  finally show ?thesis by (intro exI [of _ "?t\<lparr>phase := Killed_By_Signal\<rparr>"]) simp
qed

theorem signal_before_mask_kills_witness:
  "\<exists>s. (life_step 4)\<^sup>*\<^sup>* (life_start (replicate 900 1) (replicate 900 0)) s \<and> phase s = Killed_By_Signal"
proof -
  have "thread_count [''life'', ''4''] = Some 4" by code_simp
  from signal_before_mask_kills [OF this created_replicate] show ?thesis by blast
qed

text \<open>
  C23: once every thread has blocked the signal, none is ever killed by it and nothing else ends
  the process: whatever the threads and \<open>main\<close> do, in any order, no read or write leaves
  the two grids and the program runs on.
\<close>

theorem masked_threads_survive:
  assumes "thread_count argv = Some n" "created g" "created junk"
    and "(life_step n)\<^sup>*\<^sup>* (life_start g junk) s" "running s"
    and "int (length (workers s)) = n" "\<forall>w\<in>set (workers s). masked w"
    and "(life_step n)\<^sup>*\<^sup>* s t"
  shows "running t \<and> created (fg_grid (mem t)) \<and> created (bg_grid (mem t))"
proof -
  obtain m where n: "n = int (Suc m)" using assms(1) by (rule thread_count_Some)
  have inv: "life_inv n s" using assms(2-4) life_inv_start life_inv_steps unfolding n by blast
  have "life_inv n t \<and> running t \<and> int (length (workers t)) = n \<and> (\<forall>w\<in>set (workers t). masked w)"
    using assms(8)
  proof (induction rule: rtranclp_induct)
    case base
    show ?case using inv assms(5-7) by blast
  next
    case (step t u)
    from step.hyps(2) have "life_inv n u" using step.IH life_inv_step unfolding n by blast
    moreover from step.hyps(2) have "running u \<and> int (length (workers u)) = n \<and> (\<forall>w\<in>set (workers u). masked w)"
    proof cases
      case (signal i)
      with step.IH have "workers t ! i \<in> set (workers t)" by auto
      with signal step.IH show ?thesis by (auto simp: pthread_kill_def running_def dest!: in_updated)
    next
      case (cell_fault i w k e)
      with \<open>life_inv n u\<close> show ?thesis by (simp add: life_inv_def)
    next
      case (paint_fault cs e)
      with \<open>life_inv n u\<close> show ?thesis by (simp add: life_inv_def)
    next
      case (mask_fails i)
      with step.IH have "workers t ! i \<in> set (workers t)" by simp
      with mask_fails step.IH show ?thesis by (auto simp: life_inv_def worker_ok_def)
    qed (use step.IH in \<open>auto simp: running_def life_inv_def dest!: in_updated\<close>)
    ultimately show ?case by blast
  qed
  then show ?thesis by (simp add: life_inv_def)
qed

definition two_masked :: life_state where
  "two_masked = (life_start (replicate 900 1) (replicate 900 0))
     \<lparr>workers := map (\<lambda>i. (new_worker 2 i)\<lparr>masked := True, wphase := Sigwait\<rparr>) [0, 1], phase := Drawing\<rparr>"

lemma two_masked_reached: "(life_step 2)\<^sup>*\<^sup>* (life_start (replicate 900 1) (replicate 900 0)) two_masked"
proof -
  let ?s = "life_start (replicate 900 1) (replicate 900 0)"
  let ?w = "\<lambda>i. (new_worker 2 i)\<lparr>masked := True, wphase := Sigwait\<rparr>"
  let ?a = "?s\<lparr>workers := map (new_worker 2) [0..<2], phase := Creating 2\<rparr>"
  let ?b = "?a\<lparr>workers := [?w 0, new_worker 2 1]\<rparr>" let ?c = "?a\<lparr>workers := [?w 0, ?w 1]\<rparr>"
  have ws: "map (new_worker 2) [0..<2] = [new_worker 2 0, new_worker 2 1]" by (simp add: upt_rec)
  have "(life_step 2)\<^sup>*\<^sup>* ?s ?a" by (rule awake_steps, rule create_threads) simp
  also have "life_step 2 ?a ?b"
    using life_step.mask [of ?a 0 2] by (simp add: ws running_def new_worker_def)
  also have "life_step 2 ?b ?c"
    using life_step.mask [of ?b 1 2] by (simp add: running_def new_worker_def)
  also have "life_step 2 ?c (?c\<lparr>phase := Drawing\<rparr>)"
    by (rule life_step.all_created [where i = 2]) simp_all
  also have "?c\<lparr>phase := Drawing\<rparr> = two_masked" by (simp add: two_masked_def)
  finally show ?thesis .
qed

theorem masked_threads_survive_witness:
  "list_all running [two_masked, two_masked\<lparr>phase := Painting []\<rparr>]"
proof -
  have "thread_count [''life'', ''2''] = Some 2" by code_simp
  moreover have "running two_masked" "int (length (workers two_masked)) = 2" "\<forall>w\<in>set (workers two_masked). masked w"
    by (simp_all add: two_masked_def running_def)
  moreover have "life_step 2 two_masked (two_masked\<lparr>phase := Painting []\<rparr>)"
    by (rule life_step.draw) (simp add: two_masked_def)
  ultimately show ?thesis
    using masked_threads_survive [OF _ created_replicate created_replicate two_masked_reached] by auto
qed

text \<open>
  C24: the half second of sleep is all that separates two rounds. If a thread has not run in
  between, the second signal is lost in the one that is already pending: there is a run of
  two rounds after which two threads have nothing left to do, one having computed its part
  twice and the other only once, so that from then on they work on opposite grids.
\<close>

theorem late_thread_loses_signal:
  assumes "thread_count argv = Some n" "2 \<le> n" "created g" "created junk"
    and "(life_step n)\<^sup>*\<^sup>* (life_start g junk) s" "phase s = Drawing"
    and "\<forall>w\<in>set (workers s). masked w \<and> wphase w = Sigwait \<and> \<not> pending w"
  shows "\<exists>t. (life_step n)\<^sup>*\<^sup>* s t \<and> phase t = Sleeping \<and> length (frames t) = length (frames s) + 2 \<and>
    wargs (workers t ! 0) = wargs (workers s ! 0) \<and> wargs (workers t ! 1) = swapped (wargs (workers s ! 1)) \<and>
    (\<forall>i<2. wphase (workers t ! i) = Sigwait \<and> \<not> pending (workers t ! i))"
proof -
  obtain m where n: "n = int (Suc m)" using assms(1) by (rule thread_count_Some)
  have inv: "life_inv n s" using assms(3-5) life_inv_start life_inv_steps unfolding n by blast
  have len: "2 \<le> length (workers s)" using inv assms(2,6) by (simp add: life_inv_def)
  obtain w0 w1 ws where ws: "workers s = w0 # w1 # ws"
    using len by (metis (no_types) Suc_le_length_iff numeral_2_eq_2)
  note idle = assms(7) [unfolded ws]
  have sw: "swapped (swapped a) = a" for a by (simp add: swapped_def)
  have turn: "\<exists>t. (life_step n)\<^sup>*\<^sup>* u t \<and> life_inv n t \<and> phase t = Sleeping \<and> frames t = frames u \<and>
      workers t = (workers u)[i := (workers u ! i)\<lparr>pending := False, wargs := swapped (wargs (workers u ! i))\<rparr>]"
    if "life_inv n u" "phase u = Sleeping" "i < length (workers u)" "wphase (workers u ! i) = Sigwait"
      "pending (workers u ! i)" for u i
    using worker_turn [of m u i] awake_steps that unfolding n by (auto simp: running_def)
  have round: "\<exists>t. (life_step n)\<^sup>*\<^sup>* u t \<and> life_inv n t \<and> phase t = Sleeping \<and>
      frames t = frames u @ [fg_grid (mem u)] \<and> workers t = map pended (workers u)"
    if "life_inv n u" "phase u = Drawing" "\<forall>w\<in>set (workers u). masked w" for u
    using main_turn [of m u] awake_steps that unfolding n by blast
  obtain s1 where s1: "(life_step n)\<^sup>*\<^sup>* s s1" "life_inv n s1" "phase s1 = Sleeping"
    "frames s1 = frames s @ [fg_grid (mem s)]" "workers s1 = map pended (w0 # w1 # ws)"
    using round [OF inv assms(6)] assms(7) unfolding ws by blast
  have 0: "workers s1 ! 0 = pended w0" "workers s1 = pended w0 # pended w1 # map pended ws"
    using s1(5) by simp_all
  have "wphase (workers s1 ! 0) = Sigwait" "pending (workers s1 ! 0)" "0 < length (workers s1)"
    using idle by (simp_all add: 0 pended_def)
  from turn [OF s1(2,3) this(3,1,2)] obtain s2 where s2: "(life_step n)\<^sup>*\<^sup>* s1 s2" "life_inv n s2"
    "phase s2 = Sleeping" "frames s2 = frames s1"
    "workers s2 = w0\<lparr>pending := False, wargs := swapped (wargs w0)\<rparr> # pended w1 # map pended ws"
    by (auto simp: 0 pended_def)
  let ?d = "s2\<lparr>phase := Drawing\<rparr>"
  have w: "life_step n s2 ?d" using s2(3) by (rule life_step.wake)
  have d: "life_inv n ?d" using life_inv_step s2(2) w unfolding n by blast
  have "\<forall>w\<in>set (workers ?d). masked w" using idle by (auto simp: s2(5) pended_def)
  then obtain s4 where s4: "(life_step n)\<^sup>*\<^sup>* ?d s4" "life_inv n s4" "phase s4 = Sleeping"
    "frames s4 = frames s2 @ [fg_grid (mem ?d)]" "workers s4 = map pended (workers s2)"
    using round [OF d] by auto
  have 4: "workers s4 = pended (w0\<lparr>wargs := swapped (wargs w0)\<rparr>) # pended w1 # map pended ws"
    by (simp add: s4(5) s2(5) pended_def)
  have "wphase (workers s4 ! 0) = Sigwait" "pending (workers s4 ! 0)" "0 < length (workers s4)"
    using idle by (simp_all add: 4 pended_def)
  from turn [OF s4(2,3) this(3,1,2)] obtain s5 where s5: "(life_step n)\<^sup>*\<^sup>* s4 s5" "life_inv n s5"
    "phase s5 = Sleeping" "frames s5 = frames s4"
    "workers s5 = w0\<lparr>pending := False\<rparr> # pended w1 # map pended ws"
    by (auto simp: 4 pended_def sw)
  have "wphase (workers s5 ! 1) = Sigwait" "pending (workers s5 ! 1)" "1 < length (workers s5)"
    using idle by (simp_all add: s5(5) pended_def)
  from turn [OF s5(2,3) this(3,1,2)] obtain s6 where s6: "(life_step n)\<^sup>*\<^sup>* s5 s6" "phase s6 = Sleeping"
    "frames s6 = frames s5"
    "workers s6 = w0\<lparr>pending := False\<rparr> # w1\<lparr>pending := False, wargs := swapped (wargs w1)\<rparr> # map pended ws"
    by (auto simp: s5(5) pended_def)
  have "(life_step n)\<^sup>*\<^sup>* s s6"
    using s1(1) s2(1) w s4(1) s5(1) s6(1) by (meson rtranclp.rtrancl_into_rtrancl rtranclp_trans)
  moreover have "length (frames s6) = length (frames s) + 2" by (simp add: s1(4) s2(4) s4(4) s5(4) s6(3))
  moreover have "\<forall>i<2. wphase (workers s6 ! i) = Sigwait \<and> \<not> pending (workers s6 ! i)"
    using idle by (auto simp: s6(4) numeral_2_eq_2 less_Suc_eq)
  moreover have "wargs (workers s6 ! 0) = wargs (workers s ! 0)" "wargs (workers s6 ! 1) = swapped (wargs (workers s ! 1))"
    by (simp_all add: s6(4) ws)
  ultimately show ?thesis using s6(2) by blast
qed

theorem late_thread_loses_signal_witness:
  "\<exists>t. (life_step 2)\<^sup>*\<^sup>* two_masked t \<and> foreground (wargs (workers t ! 0)) = Foreground \<and>
     foreground (wargs (workers t ! 1)) = Background"
proof -
  have n: "thread_count [''life'', ''2''] = Some 2" by code_simp
  have "phase two_masked = Drawing" "\<forall>w\<in>set (workers two_masked). masked w \<and> wphase w = Sigwait \<and> \<not> pending w"
    by (simp_all add: two_masked_def new_worker_def)
  from late_thread_loses_signal [OF n _ created_replicate created_replicate two_masked_reached this]
  obtain t where "(life_step 2)\<^sup>*\<^sup>* two_masked t" "wargs (workers t ! 0) = wargs (workers two_masked ! 0)"
    "wargs (workers t ! 1) = swapped (wargs (workers two_masked ! 1))" by auto
  then show ?thesis by (intro exI [of _ t]) (simp add: two_masked_def new_worker_def thread_args_def swapped_def)
qed

text \<open>
  In a window that holds the grid \<open>draw_grid\<close> paints every cell in two columns of its row,
  a square if it is live and blanks if not, and nothing outside the grid.
\<close>

theorem draw_grid_shows:
  assumes "created grid" "prints mvprintw shown"
  shows "\<exists>w'. draw_grid mvprintw grid w = Inr w' \<and>
    (\<forall>y x. shown w' (y, x) =
      (if 0 \<le> y \<and> y < GRID_HEIGHT \<and> 0 \<le> x \<and> x < 2 * GRID_WIDTH
       then Some (if even x \<and> live grid (y, x div 2) then Square else Blank) else shown w (y, x)))"
proof -
  let ?cs = "List.product [0..GRID_HEIGHT - 1] [0..GRID_WIDTH - 1]"
  have cs: "(y, x div 2) \<in> set ?cs \<longleftrightarrow> 0 \<le> y \<and> y < GRID_HEIGHT \<and> 0 \<le> x \<and> x < 2 * GRID_WIDTH" for y x
    by auto
  have "\<forall>(i, j)\<in>set ?cs. 0 \<le> i \<and> i < GRID_HEIGHT \<and> 0 \<le> j \<and> j < GRID_WIDTH" by auto
  from draw_cells_paint [OF assms this, of w] obtain w' where
    w': "draw_grid mvprintw grid w = Inr w'" "shown w' = painted grid (set ?cs) (shown w)"
    unfolding draw_grid_def by blast
  then show ?thesis by (intro exI [of _ w']) (simp only: painted_def cs prod.case simp_thms split: if_split)
qed

text \<open>A terminal of 30 rows and 80 columns, in which a character outside is not printed.\<close>

definition print_80 :: "int \<Rightarrow> int \<Rightarrow> glyph \<Rightarrow> screen \<Rightarrow> screen" where
  "print_80 y x g scr = (if 0 \<le> y \<and> y < 30 \<and> 0 \<le> x \<and> x < 80 then scr((y, x) \<mapsto> g) else scr)"

theorem draw_grid_shows_witness:
  "\<exists>scr. draw_grid print_80 (replicate 900 1) (\<lambda>_. None) = Inr scr \<and> scr (29, 58) = Some Square \<and>
     scr (29, 59) = Some Blank \<and> scr (29, 60) = None"
proof -
  have "prints print_80 (\<lambda>scr. scr)" by (simp add: prints_def print_80_def GRID_HEIGHT_def GRID_WIDTH_def)
  from draw_grid_shows [OF created_replicate this, of 1 "\<lambda>_. None"]
  show ?thesis by (auto simp: GRID_HEIGHT_def GRID_WIDTH_def live_def)
qed

end
