(* ===== verification/Life_Rounds.thy ===== *)
theory Life_Rounds
  imports Life_Signals
begin

text \<open>
  What the rounds of the game of life compute in the whole process, if \<open>main\<close> sleeps long
  enough: the steps of \<open>Life_Signals\<close> from one drawing of the grid to the next simulate the
  rounds of \<open>Life_Threads\<close>, threads that work while \<open>main\<close> still signals others included; and
  what \<open>main\<close> draws if every thread is through whenever it comes to draw.
\<close>

section \<open>A worker within a round\<close>

definition round_args :: "nat \<Rightarrow> grid_ptr \<Rightarrow> grid_ptr \<Rightarrow> nat \<Rightarrow> thread_args_t" where
  "round_args m p q i = \<lparr>foreground = p, background = q, start = thread_start (int (Suc m)) (int i),
     stop = thread_end (int (Suc m)) (int i)\<rparr>"

text \<open>Whether \<open>main\<close> has sent the signal of the round to thread \<open>i\<close>.\<close>

definition signalled :: "main_phase \<Rightarrow> nat \<Rightarrow> bool" where
  "signalled ph i = (case ph of Signalling k \<Rightarrow> i < k | _ \<Rightarrow> True)"

text \<open>
  A thread (\<open>sg\<close>: signalled) not yet at work; at work; through, with its pointers swapped.
\<close>

definition in_round :: "nat \<Rightarrow> grid_ptr \<Rightarrow> grid_ptr \<Rightarrow> bool \<Rightarrow> nat \<Rightarrow> worker \<Rightarrow> bool" where
  "in_round m p q sg i w \<longleftrightarrow>
     (case wphase w of
        Starting \<Rightarrow> False
      | Sigwait \<Rightarrow> (pending w \<longrightarrow> sg) \<and>
          wargs w = (if sg \<and> \<not> pending w then swapped (round_args m p q i) else round_args m p q i)
      | Updating k \<Rightarrow> sg \<and> \<not> pending w \<and> wargs w = round_args m p q i)"

definition through :: "worker \<Rightarrow> bool" where
  "through w \<longleftrightarrow> wphase w = Sigwait \<and> \<not> pending w"

definition at_cell :: "nat \<Rightarrow> bool \<Rightarrow> nat \<Rightarrow> worker \<Rightarrow> int" where
  "at_cell m sg i w =
     (case wphase w of
        Updating k \<Rightarrow> k
      | _ \<Rightarrow> if sg \<and> \<not> pending w then thread_end (int (Suc m)) (int i) else thread_start (int (Suc m)) (int i))"

text \<open>The round of \<open>Life_Threads\<close> a state of the process is in.\<close>

definition round_of :: "nat \<Rightarrow> grid_ptr \<Rightarrow> life_state \<Rightarrow> round_state" where
  "round_of m q s = \<lparr>pos = map (\<lambda>i. at_cell m (signalled (phase s) i) i (workers s ! i)) [0..<Suc m],
     target = deref (mem s) q\<rparr>"

text \<open>The steps of a round: \<open>main\<close> signals, and then sleeps.\<close>

definition round_phase :: "main_phase \<Rightarrow> bool" where
  "round_phase ph \<longleftrightarrow> (case ph of Signalling i \<Rightarrow> True | Sleeping \<Rightarrow> True | _ \<Rightarrow> False)"

definition round_step :: "int \<Rightarrow> life_state \<Rightarrow> life_state \<Rightarrow> bool" where
  "round_step n s t \<longleftrightarrow> life_step n s t \<and> round_phase (phase t)"

definition round_rel :: "nat \<Rightarrow> grid_ptr \<Rightarrow> grid_ptr \<Rightarrow> grid \<Rightarrow> grid \<Rightarrow> life_state \<Rightarrow> bool" where
  "round_rel m p q src dst s \<longleftrightarrow> round_phase (phase s) \<and> length (workers s) = Suc m \<and>
     (\<forall>i<Suc m. in_round m p q (signalled (phase s) i) i (workers s ! i)) \<and>
     deref (mem s) p = src \<and> round_inv m src dst (round_of m q s)"

section \<open>Simulation\<close>

lemma round_of_update:
  assumes "i < Suc m" "length (workers s) = Suc m"
  shows "round_of m q (s\<lparr>workers := (workers s)[i := w]\<rparr>) =
    (round_of m q s)\<lparr>pos := (pos (round_of m q s))[i := at_cell m (signalled (phase s) i) i w]\<rparr>"
  using assms by (auto simp: round_of_def nth_list_update intro!: nth_equalityI simp del: upt_Suc)

lemma pos_round_of: "i < Suc m \<Longrightarrow> pos (round_of m q s) ! i = at_cell m (signalled (phase s) i) i (workers s ! i)"
  by (simp add: round_of_def del: upt_Suc)

lemma in_round_updating:
  "in_round m p q sg i w \<Longrightarrow> wphase w = Updating k \<Longrightarrow> sg \<and> \<not> pending w \<and> wargs w = round_args m p q i"
  by (simp add: in_round_def)

lemma round_rel_signal:
  assumes rel: "round_rel m p q src dst s" and ph: "phase s = Signalling i" and i: "i < Suc m"
    and ok: "worker_ok (workers s ! i)"
  shows "round_rel m p q src dst (pthread_kill i s)"
proof -
  let ?w = "workers s ! i" let ?t = "s\<lparr>workers := (workers s)[i := ?w\<lparr>pending := True\<rparr>], phase := Signalling (Suc i)\<rparr>"
  have s: "length (workers s) = Suc m" "\<And>j. j < Suc m \<Longrightarrow> in_round m p q (j < i) j (workers s ! j)"
    "deref (mem s) p = src" "round_inv m src dst (round_of m q s)"
    using rel by (auto simp: round_rel_def ph signalled_def)
  have w: "wphase ?w = Sigwait" "\<not> pending ?w" "wargs ?w = round_args m p q i"
    using s(2) [OF i] by (auto simp: in_round_def split: worker_phase.splits)
  with ok have "pthread_kill i s = ?t" by (simp add: pthread_kill_def worker_ok_def)
  moreover have "round_of m q ?t = round_of m q s"
    using i s(1) w
    by (auto simp: round_of_def ph signalled_def at_cell_def nth_list_update less_Suc_eq simp del: upt_Suc)
  moreover have "in_round m p q (j < Suc i) j (workers ?t ! j)" if "j < Suc m" for j
    using s(1) s(2) [OF that] that w by (cases "j = i") (auto simp: in_round_def less_Suc_eq)
  ultimately show ?thesis using s by (simp add: round_rel_def signalled_def round_phase_def)
qed

lemma round_rel_step:
  assumes rel: "round_rel m p q src dst s" and inv: "life_inv (int (Suc m)) s" and pq: "p \<noteq> q"
    and st: "round_step (int (Suc m)) s t"
  shows "round_rel m p q src dst t"
proof -
  let ?sg = "signalled (phase s)"
  have s: "round_phase (phase s)" "length (workers s) = Suc m"
    "\<And>i. i < Suc m \<Longrightarrow> in_round m p q (?sg i) i (workers s ! i)"
    "deref (mem s) p = src" "round_inv m src dst (round_of m q s)"
    using rel by (auto simp: round_rel_def)
  from st have "life_step (int (Suc m)) s t" "round_phase (phase t)" by (simp_all add: round_step_def)
  then show ?thesis
  proof cases
    case (signal i)
    then have i: "i < Suc m" by simp
    have "worker_ok (workers s ! i)" using inv i s(2) by (simp add: life_inv_def)
    with rel signal i show ?thesis by (simp add: round_rel_signal)
  next
    case (all_signalled i)
    then have eq: "signalled (phase t) j = ?sg j" if "j < Suc m" for j
      using that by (simp add: signalled_def)
    then have "round_of m q t = round_of m q s"
      using all_signalled(1) by (simp add: round_of_def del: upt_Suc)
    with s eq all_signalled(1) show ?thesis by (simp add: round_rel_def round_phase_def)
  next
    case (mask i)
    with s(2) s(3) [of i] show ?thesis by (simp add: in_round_def)
  next
    case (take_signal i)
    then have i: "i < Suc m" using s(2) by simp
    let ?w = "(workers s ! i)\<lparr>pending := False, wphase := Updating (start (wargs (workers s ! i)))\<rparr>"
    have a: "wargs (workers s ! i) = round_args m p q i" "?sg i" using s(3) [OF i] take_signal by (simp_all add: in_round_def)
    have "at_cell m (?sg i) i ?w = pos (round_of m q s) ! i"
      using take_signal i by (simp add: pos_round_of at_cell_def a round_args_def)
    then have "round_of m q t = round_of m q s"
      using take_signal(1) round_of_update [OF i s(2), of q ?w] by simp
    moreover have "in_round m p q (?sg i) i ?w" by (simp add: in_round_def a)
    ultimately show ?thesis
      using rel take_signal(1) i by (auto simp: round_rel_def nth_list_update)
  next
    case (cell i w k g)
    then have i: "i < Suc m" using s(2) by simp
    have a: "wargs w = round_args m p q i" "\<not> pending w" "?sg i"
      using in_round_updating [OF s(3) [OF i]] cell by auto
    let ?w = "w\<lparr>wphase := Updating (k + 1)\<rparr>" let ?r = "round_of m q s"
    have k: "pos ?r ! i = k" using cell i by (simp add: pos_round_of at_cell_def)
    have "update_cell src (target ?r) k = Inr g"
      using cell(7) s(4) by (simp add: a round_args_def round_of_def)
    then have "cell_step (int (Suc m)) src ?r (?r\<lparr>pos := (pos ?r)[i := k + 1], target := g\<rparr>)"
      using write_cell [of i ?r "int (Suc m)" src g] i cell(6) s(5) k by (simp add: a round_args_def round_inv_def)
    also have "?r\<lparr>pos := (pos ?r)[i := k + 1], target := g\<rparr> = round_of m q t"
      using cell(1) round_of_update [OF i s(2), of q ?w]
      by (simp add: a round_args_def at_cell_def round_of_def del: upt_Suc)
    finally have "round_inv m src dst (round_of m q t)" using round_inv_step s(5) by blast
    moreover have "in_round m p q (?sg i) i ?w" using a by (simp add: in_round_def)
    ultimately show ?thesis
      using rel cell(1) pq i by (auto simp: round_rel_def nth_list_update a round_args_def)
  next
    case (part_done i w k)
    then have i: "i < Suc m" using s(2) by simp
    have a: "wargs w = round_args m p q i" "\<not> pending w" "?sg i"
      using in_round_updating [OF s(3) [OF i]] part_done by auto
    let ?w = "w\<lparr>wargs := swapped (wargs w), wphase := Sigwait\<rparr>"
    have k: "pos (round_of m q s) ! i = k" using part_done i by (simp add: pos_round_of at_cell_def)
    with s(5) i have "k \<le> thread_end (int (Suc m)) (int i)" by (auto simp: round_inv_def)
    with part_done(6) have "at_cell m (?sg i) i ?w = pos (round_of m q s) ! i" using a k by (simp add: at_cell_def round_args_def)
    then have "round_of m q t = round_of m q s"
      using part_done(1) round_of_update [OF i s(2), of q ?w] by simp
    moreover have "in_round m p q (?sg i) i ?w" using a by (simp add: in_round_def)
    ultimately show ?thesis
      using rel part_done(1) i by (auto simp: round_rel_def nth_list_update)
  qed (use s(1) in \<open>auto simp: round_phase_def\<close>)
qed



lemma round_rel_start:
  assumes "life_inv (int (Suc m)) s" "phase s = Signalling 0"
    and "\<forall>i<Suc m. wargs (workers s ! i) = round_args m p q i \<and> through (workers s ! i)"
  shows "round_rel m p q (deref (mem s) p) (deref (mem s) q) s"
proof -
  have "created (deref (mem s) r)" for r using assms(1) by (simp add: life_inv_def created_deref)
  moreover have "round_of m q s = round_start (int (Suc m)) (deref (mem s) q)"
    using assms(2,3)
    by (auto simp: round_of_def round_start_def at_cell_def through_def signalled_def simp del: upt_Suc of_nat_Suc intro!: map_cong)
  ultimately have "round_inv m (deref (mem s) p) (deref (mem s) q) (round_of m q s)"
    by (simp add: round_inv_start del: of_nat_Suc)
  moreover have "length (workers s) = Suc m" using assms(1,2) by (simp add: life_inv_def)
  ultimately show ?thesis
    using assms(2,3) by (simp add: round_rel_def in_round_def through_def signalled_def round_phase_def)
qed

lemma round_rel_end:
  assumes "round_rel m p q src dst t" "phase t = Sleeping" "\<forall>i<Suc m. through (workers t ! i)"
  shows "deref (mem t) q = next_generation src" "deref (mem t) p = src"
    "\<forall>i<Suc m. wargs (workers t ! i) = round_args m q p i"
proof -
  have "at_cell m (signalled (phase t) i) i (workers t ! i) = thread_end (int (Suc m)) (int i)" if "i < Suc m" for i
    using assms(2,3) that by (simp add: at_cell_def through_def signalled_def)
  then have "round_done (int (Suc m)) (round_of m q t)"
    by (simp add: round_done_def round_of_def del: upt_Suc)
  then show "deref (mem t) q = next_generation src"
    using round_done_result [of m src dst "round_of m q t"] assms(1) by (simp add: round_rel_def round_of_def)
  show "deref (mem t) p = src" using assms(1) by (simp add: round_rel_def)
  show "\<forall>i<Suc m. wargs (workers t ! i) = round_args m q p i"
    using assms by (auto simp: round_rel_def in_round_def through_def swapped_def round_args_def signalled_def)
qed

section \<open>Calm runs\<close>

text \<open>
  Nothing but time makes \<open>main\<close> and the threads keep in step. A run is calm if, whenever
  \<open>main\<close> comes to draw, every thread waits for its next signal.
\<close>

definition calm_step :: "int \<Rightarrow> life_state \<Rightarrow> life_state \<Rightarrow> bool" where
  "calm_step n s t \<longleftrightarrow> life_step n s t \<and> (phase t = Drawing \<longrightarrow> (\<forall>w\<in>set (workers t). through w))"

text \<open>The grid that generation \<open>k\<close> is in, and the one the next is written to.\<close>

definition front :: "nat \<Rightarrow> grid_ptr" where
  "front k = (if even k then Foreground else Background)"

lemma front_Suc [simp]: "front (Suc (Suc k)) = front k" "front k \<noteq> front (Suc k)"
  by (simp_all add: front_def)

definition shown_generation :: "nat \<Rightarrow> grid \<Rightarrow> grid" where
  "shown_generation k g = generation (2 * (k div 2)) g"

text \<open>Between two rounds, after \<open>k\<close> of them.\<close>

definition idle_at :: "nat \<Rightarrow> grid \<Rightarrow> nat \<Rightarrow> life_state \<Rightarrow> bool" where
  "idle_at m g k s \<longleftrightarrow> (\<forall>i<Suc m. through (workers s ! i) \<and> wargs (workers s ! i) = round_args m (front k) (front (Suc k)) i) \<and>
     deref (mem s) (front k) = generation k g \<and> fg_grid (mem s) = shown_generation k g"

definition calm_inv :: "nat \<Rightarrow> grid \<Rightarrow> life_state \<Rightarrow> bool" where
  "calm_inv m g s \<longleftrightarrow> life_inv (int (Suc m)) s \<and>
     frames s = map (\<lambda>j. shown_generation j g) [0..<length (frames s)] \<and>
     (case phase s of
        Creating i \<Rightarrow> frames s = [] \<and> fg_grid (mem s) = g \<and>
          (\<forall>j<i. wargs (workers s ! j) = round_args m (front 0) (front 1) j \<and> \<not> pending (workers s ! j) \<and>
             wphase (workers s ! j) \<in> {Starting, Sigwait})
      | Drawing \<Rightarrow> idle_at m g (length (frames s)) s
      | Painting cs \<Rightarrow> idle_at m g (length (frames s)) s \<and> cs = take (length cs) (fg_grid (mem s))
      | Signalling i \<Rightarrow> (\<exists>k dst. length (frames s) = Suc k \<and> round_rel m (front k) (front (Suc k)) (generation k g) dst s)
      | Sleeping \<Rightarrow> (\<exists>k dst. length (frames s) = Suc k \<and> round_rel m (front k) (front (Suc k)) (generation k g) dst s)
      | Returned c \<Rightarrow> True
      | _ \<Rightarrow> False)"

lemma generation_Suc_end: "generation (Suc k) g = next_generation (generation k g)"
  by (simp add: generation_def)

text \<open>The end of a round is the beginning of the next.\<close>

lemma idle_after_round:
  assumes "round_rel m (front k) (front (Suc k)) (generation k g) dst s" "phase s = Sleeping"
    and "\<forall>w\<in>set (workers s). through w"
  shows "idle_at m g (Suc k) (s\<lparr>phase := Drawing\<rparr>)"
proof -
  have "length (workers s) = Suc m" using assms(1) by (simp add: round_rel_def)
  then have t: "\<forall>i<Suc m. through (workers s ! i)" using assms(3) by simp
  note e = round_rel_end [OF assms(1,2) t]
  have "fg_grid (mem s) = shown_generation (Suc k) g"
  proof (cases "even k")
    case True
    with e(2) show ?thesis by (auto simp: front_def deref_def shown_generation_def elim!: evenE)
  next
    case False
    with e(1) show ?thesis
      by (auto simp: front_def deref_def shown_generation_def generation_Suc_end [symmetric] elim!: oddE)
  qed
  with e t show ?thesis by (simp add: idle_at_def generation_Suc_end del: generation_simps)
qed

lemma round_frames:
  assumes "life_step n s t" "round_phase (phase s)"
  shows "frames t = frames s"
  using assms by cases (auto simp: round_phase_def pthread_kill_def)

text \<open>A round ends with \<open>main\<close> awake again, and with nothing else.\<close>

lemma round_leaves:
  assumes rel: "round_rel m p q src dst s" and inv: "life_inv (int (Suc m)) s"
    and st: "life_step (int (Suc m)) s t" and "\<not> round_phase (phase t)"
  shows "phase s = Sleeping \<and> t = s\<lparr>phase := Drawing\<rparr>"
  using st
proof cases
  case (signal i)
  then have i: "i < Suc m" by simp
  have "worker_ok (workers s ! i)" using inv rel i by (simp add: life_inv_def round_rel_def)
  from round_rel_signal [OF rel signal(2) i this] assms(4) signal(1) show ?thesis by (simp add: round_rel_def)
next
  case (mask_fails i)
  have "i < Suc m" using mask_fails(3) rel by (simp add: round_rel_def)
  then have "in_round m p q (signalled (phase s) i) i (workers s ! i)" using rel by (simp add: round_rel_def)
  with mask_fails(4) show ?thesis by (simp add: in_round_def)
next
  case (cell_fault i w k e)
  with life_inv_step [OF inv st] show ?thesis by (simp add: life_inv_def)
qed (use rel assms(4) in \<open>auto simp: round_rel_def round_phase_def\<close>)

lemma calm_round:
  "round_phase (phase s) \<Longrightarrow> calm_inv m g s \<longleftrightarrow> life_inv (int (Suc m)) s \<and>
     frames s = map (\<lambda>j. shown_generation j g) [0..<length (frames s)] \<and>
     (\<exists>k dst. length (frames s) = Suc k \<and> round_rel m (front k) (front (Suc k)) (generation k g) dst s)"
  by (cases "phase s") (simp_all add: calm_inv_def round_phase_def)

lemma calm_inv_round:
  assumes inv: "calm_inv m g s" and ph: "round_phase (phase s)" and st: "calm_step (int (Suc m)) s t"
  shows "calm_inv m g t"
proof -
  from inv ph obtain k dst where s: "life_inv (int (Suc m)) s"
    "frames s = map (\<lambda>j. shown_generation j g) [0..<length (frames s)]" "length (frames s) = Suc k"
    "round_rel m (front k) (front (Suc k)) (generation k g) dst s"
    by (auto simp: calm_round)
  have step: "life_step (int (Suc m)) s t" using st by (simp add: calm_step_def)
  note t = life_inv_step [OF s(1) step] round_frames [OF step ph]
  show ?thesis
  proof (cases "round_phase (phase t)")
    case True
    then have "round_rel m (front k) (front (Suc k)) (generation k g) dst t"
      using round_rel_step [OF s(4,1), of t] step by (simp add: round_step_def)
    with True t s(2,3) show ?thesis by (auto simp: calm_round simp del: upt_Suc)
  next
    case False
    from round_leaves [OF s(4,1) step False] have e: "phase s = Sleeping" "t = s\<lparr>phase := Drawing\<rparr>" by simp_all
    with st have "\<forall>w\<in>set (workers s). through w" by (simp add: calm_step_def)
    from idle_after_round [OF s(4) e(1) this] e(2) t(1) s(2,3) show ?thesis
      by (simp add: calm_inv_def del: upt_Suc)
  qed
qed

text \<open>While every thread waits, only \<open>main\<close> moves.\<close>

lemma idle_step:
  assumes "life_step n s t" "\<forall>i<length (workers s). through (workers s ! i)"
  shows "workers t = workers s \<or> (\<exists>i. phase s = Creating i) \<or> (\<exists>i. phase s = Signalling i)"
  using assms by cases (auto simp: through_def)

lemma calm_inv_step:
  assumes inv: "calm_inv m g s" and st: "calm_step (int (Suc m)) s t"
  shows "calm_inv m g t"
proof (cases "phase s")
  case (Creating i)
  note c = Creating
  have s: "life_inv (int (Suc m)) s" "frames s = []" "fg_grid (mem s) = g" "length (workers s) = i" "i \<le> Suc m"
    "\<And>j. j < i \<Longrightarrow> wargs (workers s ! j) = round_args m (front 0) (front 1) j \<and>
       \<not> pending (workers s ! j) \<and> wphase (workers s ! j) \<in> {Starting, Sigwait}"
    using inv by (auto simp: calm_inv_def c life_inv_def)
  have step: "life_step (int (Suc m)) s t" using st by (simp add: calm_step_def)
  note t = life_inv_step [OF s(1) step]
  have new: "new_worker (int (Suc m)) i = \<lparr>wargs = round_args m (front 0) (front 1) i, masked = False,
      pending = False, wphase = Starting\<rparr>"
    by (simp add: new_worker_def thread_args_def round_args_def front_def)
  from step show ?thesis
  proof cases
    case (create j)
    with c s t new show ?thesis by (auto simp: calm_inv_def nth_append less_Suc_eq)
  next
    case (create_fails j)
    with s t show ?thesis by (simp add: calm_inv_def)
  next
    case (all_created j)
    then have i: "i = Suc m" using c s(5) by simp
    have "\<forall>w\<in>set (workers t). through w" using st all_created(1) by (simp add: calm_step_def)
    then have "through (workers s ! j)" if "j < Suc m" for j using that all_created(1) s(4) i by simp
    moreover have "deref (mem s) (front 0) = g" using s(3) by (simp add: front_def deref_def)
    ultimately have "idle_at m g 0 t"
      using s(3,6) all_created(1) i by (simp add: idle_at_def shown_generation_def)
    with t s(2) all_created(1) show ?thesis by (simp add: calm_inv_def)
  next
    case (mask j)
    with c s t show ?thesis by (auto simp: calm_inv_def nth_list_update)
  next
    case (mask_fails j)
    with s t show ?thesis by (simp add: calm_inv_def)
  qed (use c s(4,6) in fastforce)+
next
  case Drawing
  then have s: "idle_at m g (length (frames s)) s" "life_inv (int (Suc m)) s"
    using inv by (simp_all add: calm_inv_def)
  have step: "life_step (int (Suc m)) s t" using st by (simp add: calm_step_def)
  have len: "length (workers s) = Suc m" using s(2) Drawing by (simp add: life_inv_def)
  with s(1) have w: "i < length (workers s) \<Longrightarrow> through (workers s ! i)" for i by (simp add: idle_at_def)
  from step have "t = s\<lparr>phase := Painting []\<rparr>" using w Drawing by cases (auto simp: through_def)
  with inv life_inv_step [OF s(2) step] Drawing show ?thesis by (simp add: calm_inv_def idle_at_def)
next
  case (Painting cs)
  let ?k = "length (frames s)"
  have s: "idle_at m g ?k s" "life_inv (int (Suc m)) s" "cs = take (length cs) (fg_grid (mem s))"
    "frames s = map (\<lambda>j. shown_generation j g) [0..<?k]"
    using inv Painting by (simp_all add: calm_inv_def)
  have step: "life_step (int (Suc m)) s t" using st by (simp add: calm_step_def)
  note t = life_inv_step [OF s(2) step]
  have len: "length (workers s) = Suc m" using s(2) Painting by (simp add: life_inv_def)
  with s(1) have w: "i < length (workers s) \<Longrightarrow> through (workers s ! i)" for i by (simp add: idle_at_def)
  have cr: "created (fg_grid (mem s))" using s(2) by (simp add: life_inv_def)
  from step show ?thesis
  proof cases
    case (paint ds x)
    then have p: "phase t = Painting (cs @ [x])" "cs = ds" using Painting by simp_all
    have "length cs < length (fg_grid (mem s))" "x = fg_grid (mem s) ! length cs"
      using paint paint_reads [OF cr paint(3)] cr p by (simp_all add: created_def mult.commute)
    then have "cs @ [x] = take (Suc (length cs)) (fg_grid (mem s))"
      using s(3) by (simp add: take_Suc_conv_app_nth)
    with t s(1,4) paint(1) p show ?thesis by (simp add: calm_inv_def idle_at_def min_def)
  next
    case (drawn ds)
    then have ds: "ds = cs" using Painting by simp
    have "length (fg_grid (mem s)) \<le> length cs"
      using drawn(3) cr by (simp add: ds created_def mult.commute)
    then have cs: "cs = shown_generation ?k g" using s(1,3) by (simp add: idle_at_def)
    have "round_rel m (front ?k) (front (Suc ?k)) (deref (mem t) (front ?k)) (deref (mem t) (front (Suc ?k))) t"
      by (rule round_rel_start) (use t drawn(1) s(1) in \<open>simp_all add: idle_at_def\<close>)
    then have "round_rel m (front ?k) (front (Suc ?k)) (generation ?k g) (deref (mem t) (front (Suc ?k))) t"
      using s(1) drawn(1) by (simp add: idle_at_def)
    moreover have "frames t = map (\<lambda>j. shown_generation j g) [0..<length (frames t)]"
      using s(4) drawn(1) by (simp add: ds cs [symmetric])
    moreover have "length (frames t) = Suc ?k" "round_phase (phase t)"
      using drawn(1) by (simp_all add: round_phase_def)
    ultimately show ?thesis using t by (auto simp: calm_round simp del: upt_Suc)
  next
    case (paint_fault ds e)
    with t show ?thesis by (simp add: life_inv_def)
  qed (use Painting w in \<open>auto simp: through_def\<close>)
next
  case (Returned c)
  then show ?thesis using st by (auto simp: calm_step_def running_def elim: life_step.cases)
next
  case (Signalling i)
  then show ?thesis using calm_inv_round [OF inv _ st] by (simp add: round_phase_def)
next
  case Sleeping
  then show ?thesis using calm_inv_round [OF inv _ st] by (simp add: round_phase_def)
qed (use inv in \<open>simp_all add: calm_inv_def\<close>)


interpretation calm: inductive_invariant "\<lambda>s. \<exists>junk. created g \<and> created junk \<and> s = life_start g junk"
    "calm_step (int (Suc m))" "calm_inv m g" for m g
proof unfold_locales
  show "calm_inv m g s" if "\<exists>junk. created g \<and> created junk \<and> s = life_start g junk" for s
    using that life_inv_start by (auto simp: calm_inv_def life_start_def)
qed (rule calm_inv_step)

section \<open>Calm runs of any length\<close>

lemma awake_calm: "(awake_step n)\<^sup>*\<^sup>* s t \<Longrightarrow> (calm_step n)\<^sup>*\<^sup>* s t"
  by (erule rtranclp_mono [THEN predicate2D, rotated]) (auto simp: awake_step_def calm_step_def)

lemma calm_life: "(calm_step n)\<^sup>*\<^sup>* s t \<Longrightarrow> (life_step n)\<^sup>*\<^sup>* s t"
  by (erule rtranclp_mono [THEN predicate2D, rotated]) (auto simp: calm_step_def)

definition woken :: "worker \<Rightarrow> worker" where
  "woken w = w\<lparr>masked := True, wphase := Sigwait\<rparr>"

text \<open>All threads have come to wait before \<open>main\<close> draws for the first time.\<close>

lemma threads_wait:
  "i \<le> Suc m \<Longrightarrow> (awake_step (int (Suc m)))\<^sup>*\<^sup>* (life_start g junk)
     ((life_start g junk)\<lparr>workers := map (\<lambda>j. if j < i then woken (new_worker (int (Suc m)) j) else new_worker (int (Suc m)) j) [0..<Suc m],
       phase := Creating (Suc m)\<rparr>)"
proof (induction i)
  case 0
  then show ?case using create_threads [of "Suc m" "int (Suc m)" g junk] by simp
next
  case (Suc i)
  let ?n = "int (Suc m)"
  let ?ws = "\<lambda>i. map (\<lambda>j. if j < i then woken (new_worker ?n j) else new_worker ?n j) [0..<Suc m]"
  let ?s = "\<lambda>i. (life_start g junk)\<lparr>workers := ?ws i, phase := Creating (Suc m)\<rparr>"
  have i: "i < Suc m" using Suc.prems by simp
  then have nth: "?ws i ! i = new_worker ?n i" by (simp del: upt_Suc)
  have upd: "(?ws i)[i := woken (new_worker ?n i)] = ?ws (Suc i)"
    using i by (auto intro!: nth_equalityI simp: nth_list_update less_Suc_eq simp del: upt_Suc)
  have "life_step ?n (?s i) ((?s i)\<lparr>workers := (workers (?s i))
      [i := (workers (?s i) ! i)\<lparr>masked := True, wphase := Sigwait\<rparr>]\<rparr>)"
    by (rule life_step.mask) (use i nth in \<open>simp_all add: running_def new_worker_def del: upt_Suc\<close>)
  also have "(?s i)\<lparr>workers := (workers (?s i))[i := (workers (?s i) ! i)\<lparr>masked := True, wphase := Sigwait\<rparr>]\<rparr> = ?s (Suc i)"
    using upd nth by (simp add: woken_def del: upt_Suc)
  finally have "awake_step ?n (?s i) (?s (Suc i))" by (simp add: awake_step_def)
  with Suc show ?case by (simp add: rtranclp.rtrancl_into_rtrancl del: upt_Suc)
qed

text \<open>The threads that have a signal do their parts one after the other.\<close>

lemma workers_turn:
  assumes "life_inv (int (Suc m)) s" "phase s = Sleeping" "k \<le> length (workers s)"
    and "\<forall>w\<in>set (workers s). wphase w = Sigwait"
  shows "\<exists>t. (awake_step (int (Suc m)))\<^sup>*\<^sup>* s t \<and> life_inv (int (Suc m)) t \<and> phase t = Sleeping \<and> frames t = frames s \<and>
    length (workers t) = length (workers s) \<and> (\<forall>w\<in>set (workers t). wphase w = Sigwait) \<and>
    (\<forall>i<k. through (workers t ! i))"
  using assms(3)
proof (induction k)
  case 0
  show ?case using assms(1,2,4) by blast
next
  case (Suc k)
  then obtain t where t: "(awake_step (int (Suc m)))\<^sup>*\<^sup>* s t" "life_inv (int (Suc m)) t" "phase t = Sleeping"
    "frames t = frames s" "length (workers t) = length (workers s)" "\<forall>w\<in>set (workers t). wphase w = Sigwait"
    "\<forall>i<k. through (workers t ! i)"
    by auto
  have k: "k < length (workers t)" using Suc.prems t(5) by simp
  with t(6) have ph: "wphase (workers t ! k) = Sigwait" by simp
  show ?case
  proof (cases "pending (workers t ! k)")
    case False
    with ph t show ?thesis by (auto simp: through_def less_Suc_eq)
  next
    case True
    have run: "running t" "phase t \<noteq> Drawing" using t(3) by (simp_all add: running_def)
    from worker_turn [OF t(2) run(1) k ph True run(2)] obtain u where u:
      "(awake_step (int (Suc m)))\<^sup>*\<^sup>* t u" "life_inv (int (Suc m)) u" "phase u = Sleeping" "frames u = frames s"
      "workers u = (workers t)[k := (workers t ! k)\<lparr>pending := False, wargs := swapped (wargs (workers t ! k))\<rparr>]"
      using t(3,4) by auto
    have "\<forall>i<Suc k. through (workers u ! i)"
      using t(7) k ph by (auto simp: u(5) through_def nth_list_update less_Suc_eq)
    moreover have "\<forall>w\<in>set (workers u). wphase w = Sigwait"
      using t(6) ph by (auto simp: u(5) dest!: in_updated)
    moreover have "length (workers u) = length (workers s)" by (simp add: u(5) t(5))
    moreover have "(awake_step (int (Suc m)))\<^sup>*\<^sup>* s u" using t(1) u(1) by simp
    ultimately show ?thesis using u(2-4) by blast
  qed
qed

lemma calm_runs:
  assumes "created g" "created junk"
  shows "\<exists>t. (calm_step (int (Suc m)))\<^sup>*\<^sup>* (life_start g junk) t \<and> phase t = Drawing \<and> length (frames t) = k \<and>
    (\<forall>w\<in>set (workers t). masked w \<and> through w)"
proof (induction k)
  case 0
  let ?n = "int (Suc m)"
  let ?s = "(life_start g junk)\<lparr>workers := map (\<lambda>j. woken (new_worker ?n j)) [0..<Suc m], phase := Creating (Suc m)\<rparr>"
  have "map (\<lambda>j. if j < Suc m then woken (new_worker ?n j) else new_worker ?n j) [0..<Suc m] =
      map (\<lambda>j. woken (new_worker ?n j)) [0..<Suc m]"
    by (rule map_cong) (simp_all only: atLeastLessThan_upt [symmetric] atLeastLessThan_iff if_True)
  with awake_calm [OF threads_wait [of "Suc m" m g junk]]
  have "(calm_step ?n)\<^sup>*\<^sup>* (life_start g junk) ?s" by (simp only: order_refl simp_thms)
  moreover have t: "\<forall>w\<in>set (workers ?s). masked w \<and> through w"
    by (auto simp: woken_def through_def new_worker_def)
  moreover have "life_step ?n ?s (?s\<lparr>phase := Drawing\<rparr>)" by (rule life_step.all_created [of _ "Suc m"]) simp_all
  then have "calm_step ?n ?s (?s\<lparr>phase := Drawing\<rparr>)" using t by (simp add: calm_step_def del: upt_Suc)
  ultimately show ?case
    by (intro exI [of _ "?s\<lparr>phase := Drawing\<rparr>"]) (simp add: life_start_def rtranclp.rtrancl_into_rtrancl del: upt_Suc)
next
  case (Suc k)
  let ?n = "int (Suc m)"
  from Suc obtain t where t: "(calm_step ?n)\<^sup>*\<^sup>* (life_start g junk) t" "phase t = Drawing" "length (frames t) = k"
    "\<forall>w\<in>set (workers t). masked w \<and> through w"
    by blast
  have "life_inv ?n t" using life_inv_steps [OF calm_life [OF t(1)] life_inv_start] assms by blast
  from main_turn [OF this t(2)] t(4) obtain u where u: "(awake_step ?n)\<^sup>*\<^sup>* t u" "life_inv ?n u" "phase u = Sleeping"
    "length (frames u) = Suc k" "workers u = map pended (workers t)"
    using t(3) by auto
  have "\<forall>w\<in>set (workers u). wphase w = Sigwait" using t(4) by (auto simp: u(5) pended_def through_def)
  from workers_turn [OF u(2,3) order_refl this] obtain v where v: "(awake_step ?n)\<^sup>*\<^sup>* u v" "life_inv ?n v"
    "phase v = Sleeping" "frames v = frames u" "\<forall>w\<in>set (workers v). through w"
    by (auto simp: all_set_conv_all_nth)
  have "\<forall>w\<in>set (workers v). masked w" using v(2,5) by (auto simp: life_inv_def worker_ok_def through_def)
  moreover have "calm_step ?n v (v\<lparr>phase := Drawing\<rparr>)"
    using life_step.wake [OF v(3), of ?n] v(5) by (simp add: calm_step_def)
  then have "(calm_step ?n)\<^sup>*\<^sup>* (life_start g junk) (v\<lparr>phase := Drawing\<rparr>)"
    using t(1) awake_calm [OF u(1)] awake_calm [OF v(1)] by (meson rtranclp.rtrancl_into_rtrancl rtranclp_trans)
  ultimately show ?case using u(4) v(4,5) by (intro exI [of _ "v\<lparr>phase := Drawing\<rparr>"]) simp
qed

section \<open>Properties\<close>


text \<open>
  C34: what is drawn. A run in which every thread has done its part whenever \<open>main\<close> comes to
  draw shows the generations 0, 0, 2, 2, 4, 4 and so on, as \<open>main\<close> draws the same one of
  the two grids in every round; and there is such a run to any number of frames, with any
  accepted number of threads.
\<close>

theorem frames_show_even_generations:
  assumes "thread_count argv = Some n" "created g" "created junk"
  shows "(\<forall>t. (calm_step n)\<^sup>*\<^sup>* (life_start g junk) t \<longrightarrow>
      frames t = map (\<lambda>j. generation (2 * (j div 2)) g) [0..<length (frames t)]) \<and>
    (\<forall>k. \<exists>t. (calm_step n)\<^sup>*\<^sup>* (life_start g junk) t \<and> length (frames t) = k)"
proof -
  obtain m where n: "n = int (Suc m)" using assms(1) by (rule thread_count_Some)
  have "calm_inv m g t" if "(calm_step n)\<^sup>*\<^sup>* (life_start g junk) t" for t
    using calm.steps_inv [OF that [unfolded n]] calm.inv_init assms(2,3) by blast
  then have "frames t = map (\<lambda>j. generation (2 * (j div 2)) g) [0..<length (frames t)]"
    if "(calm_step n)\<^sup>*\<^sup>* (life_start g junk) t" for t
    using that by (simp only: calm_inv_def shown_generation_def)
  moreover have "\<exists>t. (calm_step n)\<^sup>*\<^sup>* (life_start g junk) t \<and> length (frames t) = k" for k
    using calm_runs [OF assms(2,3), of m k] unfolding n by blast
  ultimately show ?thesis by blast
qed

theorem frames_show_even_generations_witness:
  "\<exists>t. (calm_step 4)\<^sup>*\<^sup>* (life_start (replicate 900 1) (replicate 900 0)) t \<and>
     frames t = map (\<lambda>j. generation (2 * (j div 2)) (replicate 900 1)) [0..<5]"
proof -
  have n: "thread_count [''life'', ''4''] = Some 4" by code_simp
  note f = frames_show_even_generations [OF n created_replicate [of 1] created_replicate [of 0]]
  from conjunct2 [OF f, rule_format, of 5]
  obtain t where "(calm_step 4)\<^sup>*\<^sup>* (life_start (replicate 900 1) (replicate 900 0)) t" "length (frames t) = 5" by blast
  with conjunct1 [OF f, rule_format, of t] show ?thesis by (intro exI [of _ t]) simp
qed



end
