(* ===== verification/Reverse.thy ===== *)
theory Reverse
  imports C_Base
begin

text \<open>
  \<^verbatim>\<open>cw03/zad1/reverse.c\<close>: both versions of \<open>reverse_file\<close> (byte by byte, and in blocks when
  \<open>BLOCK_SIZE\<close> is defined) and \<open>main\<close>, over the parts of \<open>stdio\<close> they use: a stream being read
  has a position, an error flag and possibly unreadable places; a stream being written is on
  a device that may run full. \<open>reverser\<close> is the interface between \<open>main\<close> and the two versions.
\<close>

section \<open>Streams\<close>

type_synonym byte = "8 word"

definition EOF :: int where "EOF = -1"

record instream =
  data :: "byte list"
  pos :: int
  seekable :: bool
  broken :: "int \<Rightarrow> bool"
  ferror :: bool

record outstream =
  written :: "byte list"
  room :: nat

datatype whence = SEEK_CUR | SEEK_END

text \<open>A failing \<open>fseek\<close> leaves the position alone.\<close>

definition fseek :: "instream \<Rightarrow> int \<Rightarrow> whence \<Rightarrow> int \<times> instream" where
  "fseek f off w =
     (let p = (case w of SEEK_CUR \<Rightarrow> pos f | SEEK_END \<Rightarrow> int (length (data f))) + off
      in if seekable f \<and> 0 \<le> p then (0, f\<lparr>pos := p\<rparr>) else (-1, f))"

definition ftell :: "instream \<Rightarrow> int" where
  "ftell f = pos f"

definition fgetc :: "instream \<Rightarrow> int \<times> instream" where
  "fgetc f =
     (if broken f (pos f) then (EOF, f\<lparr>ferror := True\<rparr>)
      else if pos f < int (length (data f)) then (uint (data f ! nat (pos f)), f\<lparr>pos := pos f + 1\<rparr>)
      else (EOF, f))"

fun fread :: "nat \<Rightarrow> instream \<Rightarrow> byte list \<times> instream" where
  "fread 0 f = ([], f)"
| "fread (Suc n) f =
     (case fgetc f of (c, f') \<Rightarrow>
        if c = EOF then ([], f')
        else case fread n f' of (bs, f'') \<Rightarrow> (word_of_int c # bs, f''))"

definition fputc :: "int \<Rightarrow> outstream \<Rightarrow> int \<times> outstream" where
  "fputc c f =
     (if room f = 0 then (EOF, f)
      else (uint (word_of_int c :: byte), f\<lparr>written := written f @ [word_of_int c], room := room f - 1\<rparr>))"

definition fwrite :: "byte list \<Rightarrow> outstream \<Rightarrow> nat \<times> outstream" where
  "fwrite bs f =
     (let n = min (length bs) (room f)
      in (n, f\<lparr>written := written f @ take n bs, room := room f - n\<rparr>))"

section \<open>Byte by byte\<close>

text \<open>The result is the value returned and the two streams.\<close>

type_synonym rev_result = "int \<times> instream \<times> outstream"

function reverse_bytes_loop :: "int \<Rightarrow> instream \<Rightarrow> outstream \<Rightarrow> rev_result" where
  "reverse_bytes_loop bytes_remaining infile outfile =
     (if bytes_remaining > 0 then
        case fgetc infile of (c, infile1) \<Rightarrow>
          if ferror infile1 then (-1, infile1, outfile)
          else case fputc c outfile of (r, outfile1) \<Rightarrow>
            if r = EOF then (-1, infile1, outfile1)
            else reverse_bytes_loop (bytes_remaining - 1) (snd (fseek infile1 (-2) SEEK_CUR)) outfile1
      else (0, infile, outfile))"
  by pat_completeness auto
termination by (relation "measure (\<lambda>(n, _, _). nat n)") auto

definition reverse_file_bytes :: "instream \<Rightarrow> outstream \<Rightarrow> rev_result" where
  "reverse_file_bytes infile outfile =
     (case fseek infile (-1) SEEK_END of (r, infile1) \<Rightarrow>
        if r \<noteq> 0 then (-1, infile1, outfile)
        else reverse_bytes_loop (ftell infile1 + 1) infile1 outfile)"

section \<open>In blocks\<close>

function reverse_text_loop :: "byte list \<Rightarrow> nat \<Rightarrow> nat \<Rightarrow> byte list" where
  "reverse_text_loop tx len i =
     (if i < len div 2
      then reverse_text_loop (tx[i := tx ! (len - i - 1), len - i - 1 := tx ! i]) len (i + 1)
      else tx)"
  by auto
termination by (relation "measure (\<lambda>(tx, len, i). len - i)") auto

definition reverse_text :: "byte list \<Rightarrow> nat \<Rightarrow> byte list" where
  "reverse_text tx len = reverse_text_loop tx len 0"

declare reverse_bytes_loop.simps [simp del] reverse_text_loop.simps [simp del]

text \<open>
  \<open>-BLOCK_SIZE - bytes_read\<close> is computed in \<open>size_t\<close>, where it wraps, and read as a \<open>long\<close>
  by \<open>fseek\<close>.
\<close>

definition seek_back :: "nat \<Rightarrow> nat \<Rightarrow> int" where
  "seek_back block_size bytes_read = sint (word_of_int (- int block_size) - word_of_nat bytes_read :: 64 word)"

text \<open>
  The loop may not end (a block of nothing moves the stream back without progress), so it
  has a result only when it returns.
\<close>

partial_function (option) reverse_blocks_loop ::
    "nat \<Rightarrow> int \<Rightarrow> byte list \<Rightarrow> instream \<Rightarrow> outstream \<Rightarrow> rev_result option" where
  [code]: "reverse_blocks_loop block_size bytes_remaining buf infile outfile =
     (if bytes_remaining > 0 then
        let (bs, infile1) = fread block_size infile; bytes_read = length bs;
            buf1 = bs @ drop bytes_read buf
        in if ferror infile1 then Some (-1, infile1, outfile)
           else
             let buf2 = reverse_text buf1 bytes_read;
                 (written_bytes, outfile1) = fwrite (take bytes_read buf2) outfile
             in if written_bytes < bytes_read then Some (-1, infile1, outfile1)
                else reverse_blocks_loop block_size (bytes_remaining - int bytes_read) buf2
                       (snd (fseek infile1 (seek_back block_size bytes_read) SEEK_CUR)) outfile1
      else Some (0, infile, outfile))"

text \<open>\<open>junk\<close> is what the array \<open>buf\<close> holds before the first \<open>fread\<close>.\<close>

definition reverse_file_blocks :: "nat \<Rightarrow> (nat \<Rightarrow> byte) \<Rightarrow> instream \<Rightarrow> outstream \<Rightarrow> rev_result option" where
  "reverse_file_blocks block_size junk infile outfile =
     (case fseek infile 0 SEEK_END of (r, infile1) \<Rightarrow>
        if r \<noteq> 0 then Some (-1, infile1, outfile)
        else
          let bytes_remaining = ftell infile1
          in case fseek infile1 (bytes_remaining smod int block_size * -1) SEEK_END of (r2, infile2) \<Rightarrow>
               if r2 \<noteq> 0 then Some (-1, infile2, outfile)
               else reverse_blocks_loop block_size bytes_remaining (map junk [0..<block_size]) infile2 outfile)"

section \<open>\<open>main\<close>\<close>

text \<open>
  The files by their paths. \<open>fopen(argv[2], "w")\<close> empties the output file before anything is
  read. \<open>room\<close> is the free space of the device; the streams are closed at the end, so the
  output file then holds what was written.
\<close>

type_synonym files = "string \<Rightarrow> byte list option"

definition open_in :: "byte list \<Rightarrow> instream" where
  "open_in d = \<lparr>data = d, pos = 0, seekable = True, broken = (\<lambda>_. False), ferror = False\<rparr>"

definition reverse_main ::
    "(instream \<Rightarrow> outstream \<Rightarrow> rev_result option) \<Rightarrow> string list \<Rightarrow> (string \<Rightarrow> bool) \<Rightarrow> nat \<Rightarrow> files \<Rightarrow>
     (exit_code \<times> files) option" where
  "reverse_main reverse_file argv writable space fs =
     (let n_args = int (length argv) - 1
      in if n_args \<noteq> 2 then Some (EXIT_FAILURE, fs)
         else if fs (argv ! 1) = None then Some (EXIT_FAILURE, fs)
         else if \<not> writable (argv ! 2) then Some (EXIT_FAILURE, fs)
         else
           let fs1 = fs(argv ! 2 \<mapsto> [])
           in map_option (\<lambda>(exit_status, _, outfile).
                (if exit_status = -1 then EXIT_FAILURE else EXIT_SUCCESS, fs1(argv ! 2 \<mapsto> written outfile)))
              (reverse_file (open_in (the (fs1 (argv ! 1)))) \<lparr>written = [], room = space\<rparr>))"

section \<open>The byte loop\<close>

text \<open>A stream that can be sought and read everywhere.\<close>

definition healthy :: "instream \<Rightarrow> bool" where
  "healthy f \<longleftrightarrow> seekable f \<and> (\<forall>p. \<not> broken f p) \<and> \<not> ferror f"

lemma uint_byte_not_EOF [simp]: "uint (w :: byte) \<noteq> EOF" "EOF \<noteq> uint (w :: byte)"
proof -
  have "0 \<le> uint w" by simp
  then show "uint w \<noteq> EOF" unfolding EOF_def by linarith
  then show "EOF \<noteq> uint w" by simp
qed

lemma healthy_pos [simp]: "healthy (f\<lparr>pos := p\<rparr>) = healthy f"
  by (simp add: healthy_def)

lemma reverse_bytes_loop_rev:
  assumes "healthy f" "n \<le> length (data f)" "n \<le> room out" "n = 0 \<or> pos f = int n - 1"
  shows "\<exists>f'. reverse_bytes_loop (int n) f out =
    (0, f', out\<lparr>written := written out @ rev (take n (data f)), room := room out - n\<rparr>)"
  using assms
proof (induction n arbitrary: f out)
  case 0
  then show ?case by (auto simp: reverse_bytes_loop.simps)
next
  case (Suc n)
  then have pos: "pos f = int n" by simp
  let ?f1 = "f\<lparr>pos := int n + 1\<rparr>"
  let ?out1 = "out\<lparr>written := written out @ [data f ! n], room := room out - 1\<rparr>"
  let ?f2 = "snd (fseek ?f1 (-2) SEEK_CUR)"
  have c: "fgetc f = (uint (data f ! n), ?f1)"
    using Suc.prems(1,2) pos by (simp add: fgetc_def healthy_def add.commute)
  have w: "fputc (uint (data f ! n)) out = (uint (data f ! n), ?out1)"
    using Suc.prems(3) by (simp add: fputc_def)
  have f2: "healthy ?f2" "data ?f2 = data f" "n = 0 \<or> pos ?f2 = int n - 1"
    using Suc.prems(1) by (auto simp: fseek_def Let_def healthy_def)
  have "reverse_bytes_loop (int (Suc n)) f out = reverse_bytes_loop (int n) ?f2 ?out1"
    using Suc.prems(1) by (subst reverse_bytes_loop.simps) (simp add: c w healthy_def)
  moreover have "rev (take (Suc n) (data f)) = data f ! n # rev (take n (data f))"
    using Suc.prems(2) by (simp add: take_Suc_conv_app_nth)
  ultimately show ?case
    using Suc.IH [OF f2(1) _ _ f2(3), of ?out1] Suc.prems(2,3) f2(2) by simp
qed

section \<open>The block loop\<close>

lemma reverse_text_loop_nth:
  assumes "len \<le> length tx" "i \<le> len div 2"
  shows "length (reverse_text_loop tx len i) = length tx \<and>
    (\<forall>k<length tx. reverse_text_loop tx len i ! k =
       (if i \<le> k \<and> k < len - i then tx ! (len - 1 - k) else tx ! k))"
  using assms
proof (induction tx len i rule: reverse_text_loop.induct)
  case (1 tx len i)
  show ?case
  proof (cases "i < len div 2")
    case True
    let ?t = "tx[i := tx ! (len - i - 1), len - i - 1 := tx ! i]"
    have i: "i < len - i - 1" "len - i - 1 < length tx" using True 1(2) by auto
    have IH: "length (reverse_text_loop ?t len (i + 1)) = length ?t \<and>
      (\<forall>k<length ?t. reverse_text_loop ?t len (i + 1) ! k =
         (if i + 1 \<le> k \<and> k < len - (i + 1) then ?t ! (len - 1 - k) else ?t ! k))"
      using 1(2) True by (intro 1(1)) auto
    have "(if i + 1 \<le> k \<and> k < len - (i + 1) then ?t ! (len - 1 - k) else ?t ! k) =
        (if i \<le> k \<and> k < len - i then tx ! (len - 1 - k) else tx ! k)" if "k < length tx" for k
      using that i by (auto simp: nth_list_update)
    with IH True show ?thesis by (subst (1 2) reverse_text_loop.simps) simp
  next
    case False
    with 1(3) have i: "i = len div 2" by simp
    have same: "(if i \<le> k \<and> k < len - i then tx ! (len - 1 - k) else tx ! k) = tx ! k" for k
    proof (cases "i \<le> k \<and> k < len - i")
      case True
      then have "len - 1 - k = k" using i by presburger
      then show ?thesis by simp
    qed auto
    have "reverse_text_loop tx len i = tx"
      using False by (subst reverse_text_loop.simps) simp
    then show ?thesis by (simp only: same) simp
  qed
qed

lemma reverse_text_rev: "len \<le> length tx \<Longrightarrow> reverse_text tx len = rev (take len tx) @ drop len tx"
  using reverse_text_loop_nth [of len tx 0]
  by (intro nth_equalityI) (auto simp: reverse_text_def nth_append rev_nth)

lemma fread_take:
  assumes "healthy f" "0 \<le> pos f" "pos f \<le> int (length (data f))"
  shows "fread n f = (take n (drop (nat (pos f)) (data f)),
    f\<lparr>pos := pos f + int (min n (length (data f) - nat (pos f)))\<rparr>)"
  using assms
proof (induction n arbitrary: f)
  case (Suc n)
  let ?p = "nat (pos f)"
  show ?case
  proof (cases "pos f < int (length (data f))")
    case True
    then have p: "?p < length (data f)" using Suc.prems(2) by linarith
    have "fgetc f = (uint (data f ! ?p), f\<lparr>pos := pos f + 1\<rparr>)"
      using Suc.prems True by (simp add: fgetc_def healthy_def)
    moreover have "fread n (f\<lparr>pos := pos f + 1\<rparr>) =
        (take n (drop (Suc ?p) (data f)), f\<lparr>pos := pos f + 1 + int (min n (length (data f) - Suc ?p))\<rparr>)"
      using Suc.IH [of "f\<lparr>pos := pos f + 1\<rparr>"] Suc.prems True by (simp add: nat_add_distrib)
    moreover have "drop ?p (data f) = data f ! ?p # drop (Suc ?p) (data f)"
      using p by (rule Cons_nth_drop_Suc [symmetric])
    moreover have "1 + int (min n (length (data f) - Suc ?p)) = int (min (Suc n) (length (data f) - ?p))"
      using p by linarith
    ultimately show ?thesis by simp
  next
    case False
    with Suc.prems have "pos f = int (length (data f))" by simp
    then show ?thesis using Suc.prems by (simp add: fgetc_def healthy_def)
  qed
qed simp

lemma seek_back_eq:
  assumes "block_size + bytes_read < 2 ^ 63"
  shows "seek_back block_size bytes_read = - int block_size - int bytes_read"
proof -
  have "int (block_size + bytes_read) < int (2 ^ 63)" using assms by (simp only: of_nat_less_iff)
  then have "int block_size + int bytes_read < 2 ^ 63" by simp
  moreover have "seek_back block_size bytes_read = sint (word_of_int (- int block_size - int bytes_read) :: 64 word)"
    unfolding seek_back_def by (rule arg_cong [where f = sint]) simp
  ultimately show ?thesis
    by (simp add: sint_sbintrunc' signed_take_bit_int_eq_self del: of_int_diff of_int_minus)
qed

text \<open>
  One block: the bytes from the position on, at most \<open>block_size\<close> of them, are appended in
  reverse, and the position moves back to \<open>block_size\<close> bytes before where it was, if that
  is in the file.
\<close>

lemma reverse_blocks_step:
  assumes "healthy f" "0 \<le> pos f" "pos f \<le> int (length (data f))" "block_size < 2 ^ 62"
    and bs: "bs = take block_size (drop (nat (pos f)) (data f))"
    and "length bs \<le> room out" "0 < remaining" "length buf = block_size"
  obtains f' buf' where
    "reverse_blocks_loop block_size remaining buf f out =
      reverse_blocks_loop block_size (remaining - int (length bs)) buf' f'
        (out\<lparr>written := written out @ rev bs, room := room out - length bs\<rparr>)"
    "length buf' = block_size" "healthy f'" "data f' = data f"
    "int block_size \<le> pos f \<longrightarrow> pos f' = pos f - int block_size"
proof -
  let ?n = "length bs"
  let ?f1 = "f\<lparr>pos := pos f + int ?n\<rparr>"
  let ?buf1 = "bs @ drop ?n buf"
  let ?buf2 = "rev bs @ drop ?n buf"
  let ?f2 = "snd (fseek ?f1 (seek_back block_size ?n) SEEK_CUR)"
  have n: "?n = min block_size (length (data f) - nat (pos f))" by (simp add: bs min.commute)
  have read: "fread block_size f = (bs, ?f1)"
    using fread_take [OF assms(1-3), of block_size] unfolding n by (simp add: bs)
  have rt: "reverse_text ?buf1 ?n = ?buf2" by (simp add: reverse_text_rev)
  have "seek_back block_size ?n = - int block_size - int ?n"
    using assms(4) by (intro seek_back_eq) (simp add: n)
  then have f2: "healthy ?f2" "data ?f2 = data f"
    "int block_size \<le> pos f \<longrightarrow> pos ?f2 = pos f - int block_size"
    using assms(1) by (auto simp: fseek_def Let_def healthy_def)
  have "reverse_blocks_loop block_size remaining buf f out =
      reverse_blocks_loop block_size (remaining - int ?n) ?buf2 ?f2
        (out\<lparr>written := written out @ rev bs, room := room out - ?n\<rparr>)"
    using assms(1,6,7) by (subst reverse_blocks_loop.simps) (simp add: read rt fwrite_def Let_def healthy_def)
  moreover have "length ?buf2 = block_size" using assms(8) by (simp add: n)
  ultimately show thesis using f2 by (intro that [of ?buf2 ?f2])
qed

lemma reverse_blocks_loop_rev:
  assumes "healthy f" "q * block_size \<le> length (data f)" "q = 0 \<or> pos f = int ((q - 1) * block_size)"
    "0 < block_size" "block_size < 2 ^ 62" "q * block_size \<le> room out" "length buf = block_size"
  shows "\<exists>f'. reverse_blocks_loop block_size (int (q * block_size)) buf f out =
    Some (0, f', out\<lparr>written := written out @ rev (take (q * block_size) (data f)), room := room out - q * block_size\<rparr>)"
  using assms
proof (induction q arbitrary: f out buf)
  case 0
  then show ?case by (simp add: reverse_blocks_loop.simps)
next
  case (Suc q)
  let ?bs = "take block_size (drop (q * block_size) (data f))"
  have pos: "pos f = int (q * block_size)" "nat (pos f) = q * block_size"
    using Suc.prems(3) by (simp_all add: nat_mult_distrib)
  have len: "length ?bs = block_size" using Suc.prems(2) by simp
  obtain f' buf' where step:
    "reverse_blocks_loop block_size (int (Suc q * block_size)) buf f out =
      reverse_blocks_loop block_size (int (Suc q * block_size) - int (length ?bs)) buf' f'
        (out\<lparr>written := written out @ rev ?bs, room := room out - length ?bs\<rparr>)"
    and f': "length buf' = block_size" "healthy f'" "data f' = data f"
    "int block_size \<le> pos f \<longrightarrow> pos f' = pos f - int block_size"
  proof (rule reverse_blocks_step [of f block_size ?bs out "int (Suc q * block_size)" buf])
    show "pos f \<le> int (length (data f))" using Suc.prems(2) by (simp add: pos(1) del: of_nat_mult)
    show "?bs = take block_size (drop (nat (pos f)) (data f))" by (simp add: pos(2))
    show "length ?bs \<le> room out" using Suc.prems(6) len by simp
    show "0 < int (Suc q * block_size)" using Suc.prems(4) by (simp only: of_nat_0_less_iff) simp
  qed (use Suc.prems pos in simp_all)
  have "q = 0 \<or> pos f' = int ((q - 1) * block_size)"
    using f'(4) pos(1) by (cases q) simp_all
  then have "\<exists>f''. reverse_blocks_loop block_size (int (q * block_size)) buf' f'
      (out\<lparr>written := written out @ rev ?bs, room := room out - block_size\<rparr>) =
    Some (0, f'', out\<lparr>written := written out @ rev ?bs @ rev (take (q * block_size) (data f)),
      room := room out - block_size - q * block_size\<rparr>)"
    using Suc.IH [of f' "out\<lparr>written := written out @ rev ?bs, room := room out - block_size\<rparr>" buf'] Suc.prems f'(1-3)
    by simp
  moreover have "rev (take (Suc q * block_size) (data f)) = rev ?bs @ rev (take (q * block_size) (data f))"
  proof -
    have "Suc q * block_size = q * block_size + block_size" by simp
    then show ?thesis by (simp only: take_add rev_append)
  qed
  moreover have "int (Suc q * block_size) - int (length ?bs) = int (q * block_size)"
    by (simp only: len) simp
  ultimately show ?case using step unfolding len by simp
qed

lemma reverse_file_blocks_rev:
  assumes "healthy f" "0 < block_size" "block_size < 2 ^ 62"
    "length (data f) \<le> room out"
  shows "\<exists>f'. reverse_file_blocks block_size junk f out =
    Some (0, f', out\<lparr>written := written out @ rev (data f), room := room out - length (data f)\<rparr>)"
proof -
  let ?n = "length (data f)"
  let ?buf = "map junk [0..<block_size]"
  let ?q = "?n div block_size" and ?r = "?n mod block_size"
  let ?f1 = "f\<lparr>pos := int ?n\<rparr>" and ?f2 = "f\<lparr>pos := int (?q * block_size)\<rparr>"
  have qr: "?q * block_size + ?r = ?n" by simp
  have "int ?n smod int block_size = int ?r"
    using assms(2) by (simp add: smod_nonneg of_nat_mod)
  moreover have "int ?n - int ?r = int (?q * block_size)" using qr by linarith
  ultimately have seeks: "fseek f 0 SEEK_END = (0, ?f1)"
    "fseek ?f1 (int ?n smod int block_size * -1) SEEK_END = (0, ?f2)"
    using assms(1) by (simp_all add: fseek_def healthy_def)
  then have run: "reverse_file_blocks block_size junk f out = reverse_blocks_loop block_size (int ?n) ?buf ?f2 out"
    by (simp add: reverse_file_blocks_def ftell_def)
  show ?thesis
  proof (cases "?n = 0")
    case True
    then show ?thesis by (simp add: run reverse_blocks_loop.simps)
  next
    case False
    let ?bs = "take block_size (drop (?q * block_size) (data f))"
    have bs: "?bs = drop (?q * block_size) (data f)" "length ?bs = ?r"
      using qr mod_less_divisor [OF assms(2), of ?n] by (simp_all add: minus_div_mult_eq_mod del: mod_less_divisor)
    obtain f' buf' where step:
      "reverse_blocks_loop block_size (int ?n) ?buf ?f2 out =
        reverse_blocks_loop block_size (int ?n - int (length ?bs)) buf' f'
          (out\<lparr>written := written out @ rev ?bs, room := room out - length ?bs\<rparr>)"
      and f': "length buf' = block_size" "healthy f'" "data f' = data ?f2"
      "int block_size \<le> pos ?f2 \<longrightarrow> pos f' = pos ?f2 - int block_size"
    proof (rule reverse_blocks_step [of ?f2 block_size ?bs out "int ?n" ?buf])
      show "pos ?f2 \<le> int (length (data ?f2))" using qr by (simp add: div_times_less_eq_dividend del: of_nat_mult)
      show "length ?bs \<le> room out" using bs(2) qr assms(4) by linarith
      show "?bs = take block_size (drop (nat (pos ?f2)) (data ?f2))" by (simp add: nat_mult_distrib)
    qed (use assms False in simp_all)
    have "?q = 0 \<or> pos f' = int ((?q - 1) * block_size)"
      using f'(4) by (cases ?q) simp_all
    moreover have "?q * block_size \<le> room out - length ?bs" using bs(2) qr assms(4) by linarith
    ultimately have "\<exists>f''. reverse_blocks_loop block_size (int (?q * block_size)) buf' f'
        (out\<lparr>written := written out @ rev ?bs, room := room out - length ?bs\<rparr>) =
      Some (0, f'', out\<lparr>written := (written out @ rev ?bs) @ rev (take (?q * block_size) (data f)),
        room := room out - length ?bs - ?q * block_size\<rparr>)"
      using reverse_blocks_loop_rev [of f' ?q block_size "out\<lparr>written := written out @ rev ?bs, room := room out - length ?bs\<rparr>" buf']
        f' assms(2,3) by (simp add: div_times_less_eq_dividend)
    moreover have "int ?n - int (length ?bs) = int (?q * block_size)"
      "room out - length ?bs - ?q * block_size = room out - ?n" using bs(2) qr by linarith+
    moreover have "rev ?bs @ rev (take (?q * block_size) (data f)) = rev (data f)"
      by (simp only: bs(1) rev_append [symmetric] append_take_drop_id)
    ultimately show ?thesis using step run by simp
  qed
qed

lemma reverse_file_bytes_rev:
  assumes "healthy f" "data f \<noteq> []" "length (data f) \<le> room out"
  shows "\<exists>f'. reverse_file_bytes f out =
    (0, f', out\<lparr>written := written out @ rev (data f), room := room out - length (data f)\<rparr>)"
proof -
  let ?n = "length (data f)"
  have n: "0 < ?n" using assms(2) by simp
  then have "fseek f (-1) SEEK_END = (0, f\<lparr>pos := int ?n - 1\<rparr>)"
    using assms(1) by (simp add: fseek_def healthy_def Let_def)
  then have "reverse_file_bytes f out = reverse_bytes_loop (int ?n) (f\<lparr>pos := int ?n - 1\<rparr>) out"
    by (simp add: reverse_file_bytes_def ftell_def)
  then show ?thesis
    using reverse_bytes_loop_rev [of "f\<lparr>pos := int ?n - 1\<rparr>" ?n out] assms by simp
qed

lemma reverse_file_bytes_empty: "data f = [] \<Longrightarrow> reverse_file_bytes f out = (-1, f, out)"
  by (simp add: reverse_file_bytes_def fseek_def Let_def)

section \<open>The interface of \<open>main\<close>\<close>

locale reverser =
  fixes reverse_file :: "instream \<Rightarrow> outstream \<Rightarrow> rev_result option"
  assumes reverse_file_rev: "healthy f \<Longrightarrow> data f \<noteq> [] \<Longrightarrow> length (data f) \<le> room out \<Longrightarrow>
    \<exists>f'. reverse_file f out =
      Some (0, f', out\<lparr>written := written out @ rev (data f), room := room out - length (data f)\<rparr>)"
begin

lemma main_reverses:
  assumes "fs a = Some d" "d \<noteq> []" "a \<noteq> b" "writable b" "length d \<le> space"
  shows "reverse_main reverse_file [prog, a, b] writable space fs = Some (EXIT_SUCCESS, fs(b \<mapsto> rev d))"
proof -
  have "\<exists>f'. reverse_file (open_in d) \<lparr>written = [], room = space\<rparr> =
      Some (0, f', \<lparr>written = rev d, room = space - length d\<rparr>)"
    using assms reverse_file_rev [of "open_in d" "\<lparr>written = [], room = space\<rparr>"]
    by (simp add: open_in_def healthy_def)
  then obtain f' where "reverse_file (open_in d) \<lparr>written = [], room = space\<rparr> =
      Some (0, f', \<lparr>written = rev d, room = space - length d\<rparr>)" ..
  with assms show ?thesis by (simp add: reverse_main_def)
qed

lemma main_twice:
  assumes "fs a = Some d" "d \<noteq> []" "a \<noteq> b" "b \<noteq> c" "a \<noteq> c" "writable b" "writable c" "length d \<le> space"
  shows "\<exists>fs1 fs2. reverse_main reverse_file [prog, a, b] writable space fs = Some (EXIT_SUCCESS, fs1) \<and>
    reverse_main reverse_file [prog, b, c] writable space fs1 = Some (EXIT_SUCCESS, fs2) \<and>
    fs1 b = Some (rev d) \<and> fs2 c = Some d \<and> fs2 a = Some d"
  using assms main_reverses [of fs a d b writable space prog]
    main_reverses [of "fs(b \<mapsto> rev d)" b "rev d" c writable space prog]
  by simp

end

text \<open>The two programs the Makefile builds.\<close>

definition BLOCK_SIZE :: nat where "BLOCK_SIZE = 1024"

definition reverse_bytes :: "instream \<Rightarrow> outstream \<Rightarrow> rev_result option" where
  "reverse_bytes infile outfile = Some (reverse_file_bytes infile outfile)"

definition reverse_blocks :: "(nat \<Rightarrow> byte) \<Rightarrow> instream \<Rightarrow> outstream \<Rightarrow> rev_result option" where
  "reverse_blocks junk = reverse_file_blocks BLOCK_SIZE junk"

interpretation bytes: reverser reverse_bytes
  by unfold_locales (auto simp: reverse_bytes_def dest: reverse_file_bytes_rev)

interpretation blocks: reverser "reverse_blocks junk" for junk
  by unfold_locales (auto simp: reverse_blocks_def BLOCK_SIZE_def intro: reverse_file_blocks_rev)

section \<open>Properties\<close>

text \<open>
  C3: the block version reverses a readable file of any length, empty and multiples of the
  block size included, for every block size: its loop ends, it returns 0, and exactly the
  reversed bytes are appended to the output.
\<close>

theorem reverse_blocks_correct:
  assumes "healthy infile" "length (data infile) \<le> room outfile"
    and "0 < block_size" "block_size < 2 ^ 62"
  shows "\<exists>infile'. reverse_file_blocks block_size junk infile outfile =
    Some (0, infile', outfile\<lparr>written := written outfile @ rev (data infile),
      room := room outfile - length (data infile)\<rparr>)"
  using assms by (intro reverse_file_blocks_rev)

theorem reverse_blocks_correct_witness:
  "\<exists>f. reverse_file_blocks 2 (\<lambda>_. 9) (open_in [1, 2, 3, 4]) \<lparr>written = [], room = 10\<rparr> =
    Some (0, f, \<lparr>written = [4, 3, 2, 1], room = 6\<rparr>)"
  using reverse_blocks_correct [of "open_in [1, 2, 3, 4]" "\<lparr>written = [], room = 10\<rparr>" 2 "\<lambda>_. 9"]
  by (simp add: open_in_def healthy_def)

text \<open>
  The byte version reverses every readable file that is not empty; on an empty file it
  fails, because it first seeks to the last byte.
\<close>

theorem reverse_bytes_correct:
  assumes "healthy infile" "length (data infile) \<le> room outfile"
  shows "if data infile = [] then reverse_file_bytes infile outfile = (-1, infile, outfile)
    else \<exists>infile'. reverse_file_bytes infile outfile =
      (0, infile', outfile\<lparr>written := written outfile @ rev (data infile),
        room := room outfile - length (data infile)\<rparr>)"
  using assms reverse_file_bytes_rev [of infile outfile] reverse_file_bytes_empty [of infile outfile] by auto

theorem reverse_bytes_correct_witness:
  "\<exists>f. reverse_file_bytes (open_in [1, 2, 3]) \<lparr>written = [], room = 10\<rparr> =
    (0, f, \<lparr>written = [3, 2, 1], room = 7\<rparr>)"
  using reverse_bytes_correct [of "open_in [1, 2, 3]" "\<lparr>written = [], room = 10\<rparr>"]
  by (simp add: open_in_def healthy_def)

text \<open>
  C33: running either program on a file that is not empty and again on its output restores the
  file (the check of the script \<^verbatim>\<open>tester\<close>), with exit status 0 both times.
\<close>

theorem reverse_twice_restores:
  assumes "prog_body = reverse_bytes \<or> prog_body = reverse_blocks junk"
    and "fs a = Some d" "d \<noteq> []" "a \<noteq> b" "b \<noteq> c" "a \<noteq> c" "writable b" "writable c" "length d \<le> space"
  shows "\<exists>fs1 fs2. reverse_main prog_body [prog, a, b] writable space fs = Some (EXIT_SUCCESS, fs1) \<and>
    reverse_main prog_body [prog, b, c] writable space fs1 = Some (EXIT_SUCCESS, fs2) \<and>
    fs1 b = Some (rev d) \<and> fs2 c = Some d \<and> fs2 a = Some d"
  using assms(1) bytes.main_twice [of fs a d b c writable space prog] blocks.main_twice [of fs a d b c writable space junk prog] assms(2-9)
  by metis

theorem reverse_twice_restores_witness:
  "\<exists>fs1 fs2. reverse_main (reverse_blocks (\<lambda>_. 0)) [''r'', ''a'', ''b''] (\<lambda>_. True) 5 [''a'' \<mapsto> [1, 2, 3]] =
      Some (EXIT_SUCCESS, fs1) \<and>
    reverse_main (reverse_blocks (\<lambda>_. 0)) [''r'', ''b'', ''c''] (\<lambda>_. True) 5 fs1 = Some (EXIT_SUCCESS, fs2) \<and>
    fs1 ''b'' = Some [3, 2, 1] \<and> fs2 ''c'' = Some [1, 2, 3]"
  using reverse_twice_restores [of "reverse_blocks (\<lambda>_. 0)" "\<lambda>_. 0" "[''a'' \<mapsto> [1, 2, 3]]" "''a''" "[1, 2, 3]" "''b''" "''c''"
      "\<lambda>_. True" 5 "''r''"]
  by auto

text \<open>
  Given the same path twice, both programs destroy the file: \<open>fopen\<close> empties it before it
  is read. The byte version then reports a failure, the block version success.
\<close>

theorem reverse_in_place_destroys:
  assumes "fs a = Some d" "writable a"
  shows "reverse_main reverse_bytes [prog, a, a] writable space fs = Some (EXIT_FAILURE, fs(a \<mapsto> [])) \<and>
    reverse_main (reverse_blocks junk) [prog, a, a] writable space fs = Some (EXIT_SUCCESS, fs(a \<mapsto> []))"
proof -
  have "\<exists>f'. reverse_file_blocks BLOCK_SIZE junk (open_in []) \<lparr>written = [], room = space\<rparr> =
      Some (0, f', \<lparr>written = [], room = space\<rparr>)"
    using reverse_file_blocks_rev [of "open_in []" BLOCK_SIZE "\<lparr>written = [], room = space\<rparr>" junk]
    by (simp add: open_in_def healthy_def BLOCK_SIZE_def)
  then obtain f' where "reverse_file_blocks BLOCK_SIZE junk (open_in []) \<lparr>written = [], room = space\<rparr> =
      Some (0, f', \<lparr>written = [], room = space\<rparr>)" ..
  moreover have "data (open_in []) = []" by (simp add: open_in_def)
  ultimately show ?thesis
    using assms by (simp add: reverse_main_def reverse_bytes_def reverse_blocks_def reverse_file_bytes_empty)
qed

theorem reverse_in_place_destroys_witness:
  "reverse_main reverse_bytes [''r'', ''a'', ''a''] (\<lambda>_. True) 9 [''a'' \<mapsto> [1, 2]] = Some (EXIT_FAILURE, [''a'' \<mapsto> []])"
  using reverse_in_place_destroys [of "[''a'' \<mapsto> [1, 2]]" "''a''" "[1, 2]" "\<lambda>_. True" "''r''" 9] by simp

end
