(* ===== verification/Collatz.thy ===== *)
theory Collatz
  imports C_Base
begin

text \<open>
  The Collatz library and its test program (\<^verbatim>\<open>cw02\<close>), with C's \<open>int\<close> arithmetic, and the
  countdown of \<^verbatim>\<open>cw01\<close>.
\<close>

section \<open>\<^verbatim>\<open>cw02/collatz/collatz.c\<close>\<close>

definition collatz_conjecture :: "int \<Rightarrow> int cres" where
  "collatz_conjecture input =
     (if input smod 2 = 0 then c_int (input sdiv 2)
      else cbind (c_int (3 * input)) (\<lambda>t. c_int (t + 1)))"

text \<open>The loop of \<open>test_collatz_convergence\<close>, and the code after it.\<close>

function convergence_loop :: "int \<Rightarrow> int \<Rightarrow> int \<Rightarrow> int cres" where
  "convergence_loop input max_iter iter_count =
     (if input \<noteq> 1 \<and> iter_count < max_iter
      then cbind (collatz_conjecture input) (\<lambda>input'. convergence_loop input' max_iter (iter_count + 1))
      else if input \<noteq> 1 \<and> iter_count = max_iter then Inr (-1)
      else Inr iter_count)"
  by auto
termination by (relation "measure (\<lambda>(input, max_iter, iter_count). nat (max_iter - iter_count))") auto

declare convergence_loop.simps [simp del]

definition test_collatz_convergence :: "int \<Rightarrow> int \<Rightarrow> int cres" where
  "test_collatz_convergence input max_iter = convergence_loop input max_iter 0"

section \<open>\<^verbatim>\<open>cw02/main.c\<close>\<close>

text \<open>
  With \<open>USE_LIB_DYNAMIC\<close> the functions are looked up first; the flags say whether \<open>dlopen\<close>
  and the two \<open>dlsym\<close> calls succeed.
\<close>

datatype linkage = Linked | Dynamic bool bool bool

fun load_library :: "linkage \<Rightarrow> bool" where
  "load_library Linked = True"
| "load_library (Dynamic handle convergence conjecture) =
     (if \<not> handle then False else if \<not> convergence then False else if \<not> conjecture then False else True)"

datatype line = Steps int int | Conjecture_5 int

fun print_steps :: "int list \<Rightarrow> line list cres" where
  "print_steps [] = Inr []"
| "print_steps (i # is) =
     cbind (test_collatz_convergence i 19) (\<lambda>n. cbind (print_steps is) (\<lambda>ls. Inr (Steps i n # ls)))"

definition collatz_main :: "linkage \<Rightarrow> (exit_code \<times> line list) cres" where
  "collatz_main l =
     (if \<not> load_library l then Inr (EXIT_FAILURE, [])
      else cbind (print_steps [1..9]) (\<lambda>ls. cbind (collatz_conjecture 5) (\<lambda>c.
             Inr (EXIT_SUCCESS, ls @ [Conjecture_5 c]))))"

section \<open>\<^verbatim>\<open>cw01/countdown.c\<close>\<close>

datatype out_line = Arg string | Count int

function count_down :: "int \<Rightarrow> out_line list" where
  "count_down i = (if i \<ge> 0 then Count i # count_down (i - 1) else [])"
  by auto
termination by (relation "measure (\<lambda>i. nat (i + 1))") auto

declare count_down.simps [simp del]

definition countdown_main :: "string list \<Rightarrow> out_line list" where
  "countdown_main args = (if length args > 1 then [Arg (args ! 1)] else []) @ count_down 10"

section \<open>The Collatz map on the integers\<close>

definition collatz :: "int \<Rightarrow> int" where
  "collatz x = (if even x then x div 2 else 3 * x + 1)"

definition orbit :: "nat \<Rightarrow> int \<Rightarrow> int" where
  "orbit k x = (collatz ^^ k) x"

lemma orbit_simps [simp]: "orbit 0 x = x" "orbit (Suc k) x = orbit k (collatz x)"
  by (simp_all add: orbit_def funpow_swap1)

text \<open>An odd number whose successor cannot be computed in \<open>int\<close>.\<close>

definition overflows :: "int \<Rightarrow> bool" where
  "overflows x \<longleftrightarrow> odd x \<and> \<not> (in_int (3 * x) \<and> in_int (3 * x + 1))"

lemma collatz_conjecture_eq:
  assumes "in_int x"
  shows "collatz_conjecture x = (if overflows x then Inl Signed_Overflow else Inr (collatz x))"
proof (cases "even x")
  case True
  then have "in_int (x div 2)" using assms by (auto simp: int_range_defs)
  with True show ?thesis
    by (simp add: collatz_conjecture_def collatz_def overflows_def smod_2_eq_0 sdiv_2_even)
next
  case False
  then show ?thesis
    by (auto simp: collatz_conjecture_def collatz_def overflows_def smod_2_eq_0 c_int_def)
qed

lemma in_int_collatz: "in_int x \<Longrightarrow> \<not> overflows x \<Longrightarrow> in_int (collatz x)"
  by (auto simp: overflows_def collatz_def int_range_defs)

text \<open>
  What the loop returns, in terms of the orbit: from the state after \<open>i\<close> of \<open>i + n\<close>
  iterations.
\<close>

definition first_one :: "nat \<Rightarrow> int \<Rightarrow> bool" where
  "first_one r x \<longleftrightarrow> orbit r x = 1 \<and> (\<forall>k<r. orbit k x \<noteq> 1)"

lemma first_one_Suc: "x \<noteq> 1 \<Longrightarrow> first_one (Suc r) x \<longleftrightarrow> first_one r (collatz x)"
  unfolding first_one_def by (auto simp: less_Suc_eq_0_disj)

lemma ball_less_Suc: "(\<forall>k<Suc n. P k) \<longleftrightarrow> P 0 \<and> (\<forall>k<n. P (Suc k))"
  by (auto simp: less_Suc_eq_0_disj)

text \<open>
  Within \<open>n\<close> steps and before a 1 the orbit meets a number whose successor is no \<open>int\<close>.
\<close>

definition stuck :: "nat \<Rightarrow> int \<Rightarrow> bool" where
  "stuck n x \<longleftrightarrow> (\<exists>k<n. overflows (orbit k x) \<and> (\<forall>j<Suc k. orbit j x \<noteq> 1))"

lemma stuck_0 [simp]: "\<not> stuck 0 x"
  by (simp add: stuck_def)

lemma stuck_1 [simp]: "\<not> stuck n 1"
  by (auto simp: stuck_def ball_less_Suc)

lemma stuck_overflows: "overflows x \<Longrightarrow> x \<noteq> 1 \<Longrightarrow> stuck (Suc n) x"
  by (auto simp: stuck_def)

lemma ex_less_Suc_0: "(\<exists>k<Suc n. P k) \<longleftrightarrow> P 0 \<or> (\<exists>k<n. P (Suc k))"
  by (auto simp: less_Suc_eq_0_disj)

lemma stuck_Suc:
  assumes "x \<noteq> 1" "\<not> overflows x"
  shows "stuck (Suc n) x \<longleftrightarrow> stuck n (collatz x)"
  using assms unfolding stuck_def ex_less_Suc_0 [of n] by (simp add: ball_less_Suc)

lemma converges_Suc:
  assumes "x \<noteq> 1"
  shows "(\<exists>k<Suc (Suc n). r = i + int k \<and> first_one k x) \<longleftrightarrow>
    (\<exists>k<Suc n. r = i + 1 + int k \<and> first_one k (collatz x))"
proof -
  have "\<not> first_one 0 x" using assms by (simp add: first_one_def)
  then have "(\<exists>k<Suc (Suc n). r = i + int k \<and> first_one k x) \<longleftrightarrow>
      (\<exists>k<Suc n. r = i + int (Suc k) \<and> first_one (Suc k) x)"
    by (metis less_Suc_eq_0_disj Suc_less_eq)
  with assms show ?thesis by (simp add: first_one_Suc algebra_simps)
qed

lemma convergence_loop_outcome:
  assumes "in_int x"
  shows "case convergence_loop x (i + int n) i of
      Inr r \<Rightarrow> \<not> stuck n x \<and>
        ((r = -1 \<and> (\<forall>k<Suc n. orbit k x \<noteq> 1)) \<or> (\<exists>k<Suc n. r = i + int k \<and> first_one k x))
    | Inl e \<Rightarrow> e = Signed_Overflow \<and> stuck n x"
  using assms
proof (induction n arbitrary: x i)
  case 0
  then show ?case by (subst convergence_loop.simps) (simp add: first_one_def)
next
  case (Suc n)
  consider "x = 1" | "x \<noteq> 1" "overflows x" | "x \<noteq> 1" "\<not> overflows x" by blast
  then show ?case
  proof cases
    case 1
    then show ?thesis
      by (subst convergence_loop.simps) (auto simp: first_one_def intro!: exI [of _ 0])
  next
    case 2
    then show ?thesis
      using Suc.prems
      by (subst convergence_loop.simps) (simp add: collatz_conjecture_eq stuck_overflows)
  next
    case 3
    then have step: "convergence_loop x (i + int (Suc n)) i
        = convergence_loop (collatz x) (i + 1 + int n) (i + 1)"
      using Suc.prems by (subst convergence_loop.simps) (simp add: collatz_conjecture_eq algebra_simps)
    have never: "(\<forall>k<Suc (Suc n). orbit k x \<noteq> 1) \<longleftrightarrow> (\<forall>k<Suc n. orbit k (collatz x) \<noteq> 1)"
      using 3 by (subst ball_less_Suc) simp
    show ?thesis
      using Suc.IH [OF in_int_collatz [OF Suc.prems 3(2)], of "i + 1"]
      unfolding step never converges_Suc [OF 3(1)] stuck_Suc [OF 3] .
  qed
qed

section \<open>Properties\<close>

text \<open>
  C8: for \<open>m \<ge> 0\<close>, \<open>test_collatz_convergence(x, m)\<close> ends in a signed overflow exactly when among
  the first \<open>m\<close> elements of the orbit, and before any 1, there is an odd one whose triple, or whose
  triple plus one, is no \<open>int\<close>. In all other cases it returns the least number of steps in
  which \<open>x\<close> reaches 1 if there is one up to \<open>m\<close>, and -1 if there is none. A negative \<open>m\<close> gives 0
  for every \<open>x\<close>, as if it had converged.
\<close>

theorem convergence_is_least:
  assumes "in_int x"
  shows "(0 \<le> m \<longrightarrow>
     (case test_collatz_convergence x m of
        Inr r \<Rightarrow>
          (\<nexists>k. k < nat m \<and> overflows (orbit k x) \<and> (\<forall>j<Suc k. orbit j x \<noteq> 1)) \<and>
          ((r = -1 \<and> (\<forall>k<Suc (nat m). orbit k x \<noteq> 1)) \<or> (\<exists>k<Suc (nat m). r = int k \<and> first_one k x))
      | Inl e \<Rightarrow> e = Signed_Overflow \<and>
          (\<exists>k<nat m. overflows (orbit k x) \<and> (\<forall>j<Suc k. orbit j x \<noteq> 1)))) \<and>
    (m < 0 \<longrightarrow> test_collatz_convergence x m = Inr 0)"
proof (intro conjI impI)
  assume "0 \<le> m"
  with convergence_loop_outcome [OF assms, where i = 0 and n = "nat m"]
  show "case test_collatz_convergence x m of
        Inr r \<Rightarrow>
          (\<nexists>k. k < nat m \<and> overflows (orbit k x) \<and> (\<forall>j<Suc k. orbit j x \<noteq> 1)) \<and>
          ((r = -1 \<and> (\<forall>k<Suc (nat m). orbit k x \<noteq> 1)) \<or> (\<exists>k<Suc (nat m). r = int k \<and> first_one k x))
      | Inl e \<Rightarrow> e = Signed_Overflow \<and> (\<exists>k<nat m. overflows (orbit k x) \<and> (\<forall>j<Suc k. orbit j x \<noteq> 1))"
    by (simp add: test_collatz_convergence_def stuck_def split: sum.splits)
next
  assume "m < 0"
  then show "test_collatz_convergence x m = Inr 0"
    by (simp add: test_collatz_convergence_def convergence_loop.simps)
qed

theorem convergence_is_least_witness:
  "(\<exists>k<Suc 19. (16::int) = int k \<and> first_one k 7) \<and> test_collatz_convergence 7 (-3) = Inr 0 \<and>
   (\<exists>k<1. overflows (orbit k (-715827883)))"
proof -
  have "test_collatz_convergence 7 19 = Inr 16" by code_simp
  moreover have "test_collatz_convergence (-715827883) 1 = Inl Signed_Overflow" by code_simp
  moreover have "in_int 7" "in_int (-715827883)" by (simp_all add: int_range_defs)
  ultimately show ?thesis
    using convergence_is_least [of 7 19] convergence_is_least [of 7 "-3"]
      convergence_is_least [of "-715827883" 1] by auto
qed

text \<open>
  The test program, linked or with its functions looked up, prints the numbers of steps
  of 1 to 9 and \<open>collatz_conjecture(5) = 16\<close> exactly as in \<^verbatim>\<open>log.txt\<close>; it prints nothing and
  fails when the library or one of its functions cannot be loaded.
\<close>

theorem collatz_main_output:
  "collatz_main l =
     Inr (if load_library l
          then (EXIT_SUCCESS, [Steps 1 0, Steps 2 1, Steps 3 7, Steps 4 2, Steps 5 5, Steps 6 8,
                 Steps 7 16, Steps 8 3, Steps 9 19, Conjecture_5 16])
          else (EXIT_FAILURE, []))"
proof -
  have "print_steps [1..9] = Inr [Steps 1 0, Steps 2 1, Steps 3 7, Steps 4 2, Steps 5 5, Steps 6 8,
      Steps 7 16, Steps 8 3, Steps 9 19]"
    by code_simp
  moreover have "collatz_conjecture 5 = Inr 16" by code_simp
  ultimately show ?thesis by (simp add: collatz_main_def)
qed

text \<open>
  The countdown prints its first argument if there is one and then every number from 10
  to 0, once each.
\<close>

theorem countdown_output:
  "countdown_main args =
     (if length args > 1 then [Arg (args ! 1)] else []) @ map (\<lambda>k. Count (10 - int k)) [0..<11]"
proof -
  have "count_down 10 = map (\<lambda>k. Count (10 - int k)) [0..<11]" by code_simp
  then show ?thesis by (simp add: countdown_main_def)
qed

end
