(* ===== verification/North_Pole.thy ===== *)
theory North_Pole
  imports Transition
begin

text \<open>
  Santa and the reindeer (\<^verbatim>\<open>cw10/main.c\<close>): the threads, the mutex and the two condition
  variables as a transition system that interleaves the threads at every access to shared
  state. \<open>pthread_cond_wait\<close> releases the mutex and blocks in one step; a signal or broadcast
  moves blocked threads to the reacquisition of the mutex, and so may a spurious wakeup,
  which POSIX allows.
\<close>

section \<open>Threads\<close>

definition TOTAL_DELIVARIES :: nat where "TOTAL_DELIVARIES = 4"
definition REINDEER_COUNT :: nat where "REINDEER_COUNT = 9"

datatype reindeer_pc =
    R_Start | R_Leave | R_Holiday | R_Increment | R_Check | R_Wait | R_Waiting | R_Woken | R_Cancelled

datatype santa_pc =
    S_Loop | S_Test | S_Waiting | S_Woken | S_Deliver | S_Reset | S_Broadcast | S_Unlock | S_Cancel | S_Done

text \<open>\<open>mutex\<close> is 1 when it is free; \<open>deliveries\<close> lists the program counters at each delivery.\<close>

record north_pole =
  reindeer_ready_count :: nat
  mutex :: nat
  reindeer :: "reindeer_pc list"
  santa :: santa_pc
  delivery :: nat
  deliveries :: "reindeer_pc list list"

text \<open>The next statement of reindeer \<open>k\<close>; \<open>None\<close> while it is blocked.\<close>

definition move_to :: "nat \<Rightarrow> reindeer_pc \<Rightarrow> north_pole \<Rightarrow> north_pole" where
  "move_to k pc s = s\<lparr>reindeer := (reindeer s)[k := pc]\<rparr>"

definition reindeer_step :: "nat \<Rightarrow> north_pole \<Rightarrow> north_pole option" where
  "reindeer_step k s =
     (case reindeer s ! k of
        R_Start \<Rightarrow> (if mutex s = 0 then None else Some (move_to k R_Leave (s\<lparr>mutex := 0\<rparr>)))
      | R_Leave \<Rightarrow> Some (move_to k R_Holiday (s\<lparr>mutex := 1\<rparr>))
      | R_Holiday \<Rightarrow> (if mutex s = 0 then None else Some (move_to k R_Increment (s\<lparr>mutex := 0\<rparr>)))
      | R_Increment \<Rightarrow> Some (move_to k R_Check (s\<lparr>reindeer_ready_count := reindeer_ready_count s + 1\<rparr>))
      | R_Check \<Rightarrow>
          (if reindeer_ready_count s = REINDEER_COUNT \<and> santa s = S_Waiting
           then Some (move_to k R_Wait (s\<lparr>santa := S_Woken\<rparr>))
           else Some (move_to k R_Wait s))
      | R_Wait \<Rightarrow> Some (move_to k R_Waiting (s\<lparr>mutex := 1\<rparr>))
      | R_Waiting \<Rightarrow> None
      | R_Woken \<Rightarrow> (if mutex s = 0 then None else Some (move_to k R_Leave (s\<lparr>mutex := 0\<rparr>)))
      | R_Cancelled \<Rightarrow> None)"

definition wake :: "reindeer_pc \<Rightarrow> reindeer_pc" where
  "wake pc = (if pc = R_Waiting then R_Woken else pc)"

definition santa_step :: "north_pole \<Rightarrow> north_pole option" where
  "santa_step s =
     (case santa s of
        S_Loop \<Rightarrow>
          (if delivery s < TOTAL_DELIVARIES
           then (if mutex s = 0 then None else Some (s\<lparr>santa := S_Test, mutex := 0\<rparr>))
           else Some (s\<lparr>santa := S_Cancel\<rparr>))
      | S_Test \<Rightarrow>
          (if reindeer_ready_count s < REINDEER_COUNT then Some (s\<lparr>santa := S_Waiting, mutex := 1\<rparr>)
           else Some (s\<lparr>santa := S_Deliver\<rparr>))
      | S_Waiting \<Rightarrow> None
      | S_Woken \<Rightarrow> (if mutex s = 0 then None else Some (s\<lparr>santa := S_Test, mutex := 0\<rparr>))
      | S_Deliver \<Rightarrow> Some (s\<lparr>santa := S_Reset, deliveries := deliveries s @ [reindeer s]\<rparr>)
      | S_Reset \<Rightarrow>
          Some (s\<lparr>reindeer_ready_count := 0,
                  santa := if delivery s \<noteq> TOTAL_DELIVARIES - 1 then S_Broadcast else S_Unlock\<rparr>)
      | S_Broadcast \<Rightarrow> Some (s\<lparr>santa := S_Unlock, reindeer := map wake (reindeer s)\<rparr>)
      | S_Unlock \<Rightarrow> Some (s\<lparr>santa := S_Loop, mutex := 1, delivery := delivery s + 1\<rparr>)
      | S_Cancel \<Rightarrow> Some (s\<lparr>santa := S_Done, reindeer := map (\<lambda>_. R_Cancelled) (reindeer s)\<rparr>)
      | S_Done \<Rightarrow> None)"

text \<open>A spurious return from \<open>pthread_cond_wait\<close>.\<close>

definition reindeer_spurious :: "nat \<Rightarrow> north_pole \<Rightarrow> north_pole option" where
  "reindeer_spurious k s = (if reindeer s ! k = R_Waiting then Some (move_to k R_Woken s) else None)"

definition santa_spurious :: "north_pole \<Rightarrow> north_pole option" where
  "santa_spurious s = (if santa s = S_Waiting then Some (s\<lparr>santa := S_Woken\<rparr>) else None)"

definition init_north_pole :: north_pole where
  "init_north_pole = \<lparr>reindeer_ready_count = 0, mutex = 1, reindeer = replicate REINDEER_COUNT R_Start,
     santa = S_Loop, delivery = 0, deliveries = []\<rparr>"

text \<open>\<open>spurious\<close> says whether \<open>pthread_cond_wait\<close> may return on its own.\<close>

inductive north_step :: "bool \<Rightarrow> north_pole \<Rightarrow> north_pole \<Rightarrow> bool" where
  reindeer_moves: "k < length (reindeer s) \<Longrightarrow> reindeer_step k s = Some t \<Longrightarrow> north_step spurious s t"
| santa_moves: "santa_step s = Some t \<Longrightarrow> north_step spurious s t"
| santa_wakes: "spurious \<Longrightarrow> santa_spurious s = Some t \<Longrightarrow> north_step spurious s t"
| reindeer_wakes: "spurious \<Longrightarrow> k < length (reindeer s) \<Longrightarrow> reindeer_spurious k s = Some t \<Longrightarrow> north_step spurious s t"

section \<open>The invariant without spurious wakeups of reindeer\<close>

definition r_holds :: "reindeer_pc \<Rightarrow> bool" where
  "r_holds pc \<longleftrightarrow> pc \<in> {R_Leave, R_Increment, R_Check, R_Wait}"

definition s_holds :: "santa_pc \<Rightarrow> bool" where
  "s_holds pc \<longleftrightarrow> pc \<in> {S_Test, S_Deliver, S_Reset, S_Broadcast, S_Unlock}"

definition r_counted :: "reindeer_pc \<Rightarrow> bool" where
  "r_counted pc \<longleftrightarrow> pc \<in> {R_Check, R_Wait, R_Waiting}"

definition all_waiting :: "north_pole \<Rightarrow> bool" where
  "all_waiting s \<longleftrightarrow> (\<forall>pc\<in>set (reindeer s). pc = R_Waiting)"

definition r_checks :: "reindeer_pc \<Rightarrow> bool" where
  "r_checks pc \<longleftrightarrow> pc = R_Check"

lemmas pc_classes = r_holds_def r_counted_def r_checks_def s_holds_def

definition all_cancelled :: "north_pole \<Rightarrow> bool" where
  "all_cancelled s \<longleftrightarrow> (\<forall>pc\<in>set (reindeer s). pc = R_Cancelled)"

text \<open>At every delivery all nine reindeer were waiting.\<close>

definition complete :: "reindeer_pc list list \<Rightarrow> bool" where
  "complete ds \<longleftrightarrow> (\<forall>d\<in>set ds. d = replicate REINDEER_COUNT R_Waiting)"

lemma complete_simps [simp]:
  "complete []" "complete (ds @ [d]) \<longleftrightarrow> complete ds \<and> d = replicate REINDEER_COUNT R_Waiting"
  by (auto simp: complete_def)

text \<open>From the last reset on the count stays 0 while the reindeer wait forever.\<close>

definition closing :: "north_pole \<Rightarrow> bool" where
  "closing s \<longleftrightarrow> delivery s = TOTAL_DELIVARIES \<or> (santa s = S_Unlock \<and> delivery s = TOTAL_DELIVARIES - 1)"

text \<open>Who holds the mutex, and what the count counts.\<close>

definition count_inv :: "north_pole \<Rightarrow> bool" where
  "count_inv s \<longleftrightarrow>
     length (reindeer s) = REINDEER_COUNT \<and>
     mutex s + count_where r_holds (reindeer s) + (if s_holds (santa s) then 1 else 0) = 1 \<and>
     (if santa s = S_Done then all_cancelled s
      else if santa s = S_Broadcast \<or> closing s then all_waiting s \<and> reindeer_ready_count s = 0
      else reindeer_ready_count s = count_where r_counted (reindeer s) \<and> R_Cancelled \<notin> set (reindeer s)) \<and>
     (santa s \<in> {S_Deliver, S_Reset} \<longrightarrow> reindeer_ready_count s = REINDEER_COUNT) \<and>
     (santa s = S_Waiting \<and> reindeer_ready_count s = REINDEER_COUNT \<longrightarrow> 0 < count_where r_checks (reindeer s))"

text \<open>How many deliveries there were, and when.\<close>

definition delivery_inv :: "north_pole \<Rightarrow> bool" where
  "delivery_inv s \<longleftrightarrow>
     (santa s \<in> {S_Test, S_Waiting, S_Woken, S_Deliver, S_Reset, S_Unlock} \<longrightarrow> delivery s < TOTAL_DELIVARIES) \<and>
     (santa s = S_Broadcast \<longrightarrow> delivery s < TOTAL_DELIVARIES - 1) \<and>
     (santa s \<in> {S_Cancel, S_Done} \<longrightarrow> delivery s = TOTAL_DELIVARIES) \<and>
     delivery s \<le> TOTAL_DELIVARIES \<and>
     length (deliveries s) = delivery s + (if santa s \<in> {S_Reset, S_Broadcast, S_Unlock} then 1 else 0) \<and>
     complete (deliveries s)"

definition north_inv :: "north_pole \<Rightarrow> bool" where
  "north_inv s \<longleftrightarrow> count_inv s \<and> delivery_inv s"

lemma reindeer_counts:
  assumes "k < length (reindeer s)"
  shows "count_where r_holds ((reindeer s)[k := pc]) + (if r_holds (reindeer s ! k) then 1 else 0) =
      count_where r_holds (reindeer s) + (if r_holds pc then 1 else 0)"
    "count_where r_counted ((reindeer s)[k := pc]) + (if r_counted (reindeer s ! k) then 1 else 0) =
      count_where r_counted (reindeer s) + (if r_counted pc then 1 else 0)"
    "count_where r_checks ((reindeer s)[k := pc]) + (if r_checks (reindeer s ! k) then 1 else 0) =
      count_where r_checks (reindeer s) + (if r_checks pc then 1 else 0)"
  using assms by (rule count_where_update)+

lemma checks_hold: "count_where r_checks rs \<le> count_where r_holds rs"
  by (rule count_where_mono) (simp add: pc_classes)

lemma counted_le: "count_where P rs \<le> length rs"
  by (simp add: count_where_def)

text \<open>A reindeer that holds the mutex is the only one, and not another one at \<open>R_Check\<close>.\<close>

lemma holder_not_check:
  assumes "k < length rs" "r_holds (rs ! k)" "\<not> r_checks (rs ! k)" "count_where r_holds rs \<le> 1"
  shows "count_where r_checks rs = 0"
proof -
  have "count_where r_holds rs = count_where (\<lambda>pc. r_holds pc \<and> \<not> r_checks pc) rs + count_where r_checks rs"
    by (rule count_where_split) (simp add: pc_classes)
  moreover have "0 < count_where (\<lambda>pc. r_holds pc \<and> \<not> r_checks pc) rs"
    using assms(1) by (rule count_where_pos) (use assms in simp)
  ultimately show ?thesis using assms(4) by linarith
qed

lemma reindeer_idle: "reindeer s ! k = R_Waiting \<or> reindeer s ! k = R_Cancelled \<Longrightarrow> reindeer_step k s = None"
  by (auto simp: reindeer_step_def)

lemma waiting_blocked:
  assumes "all_waiting s \<or> all_cancelled s" "k < length (reindeer s)"
  shows "reindeer_step k s = None"
  using assms nth_mem [OF assms(2)] unfolding all_waiting_def all_cancelled_def by (blast intro: reindeer_idle)

lemma reindeer_step_frame:
  "reindeer_step k s = Some t \<Longrightarrow>
     delivery t = delivery s \<and> deliveries t = deliveries s \<and> length (reindeer t) = length (reindeer s) \<and>
     (santa t = santa s \<or> santa s = S_Waiting \<and> santa t = S_Woken)"
  by (auto simp: reindeer_step_def move_to_def split: reindeer_pc.splits if_splits)

lemma uncancelled_update: "R_Cancelled \<notin> set rs \<Longrightarrow> pc \<noteq> R_Cancelled \<Longrightarrow> R_Cancelled \<notin> set (rs[k := pc])"
  using set_update_subset_insert [of rs k pc] by auto

lemma s_holds_simps [simp]: "\<not> s_holds S_Waiting" "\<not> s_holds S_Woken"
  by (simp_all add: s_holds_def)

lemma reindeer_step_delivery:
  assumes "delivery_inv s" "reindeer_step k s = Some t"
  shows "delivery_inv t"
proof -
  note frame = reindeer_step_frame [OF assms(2)]
  show ?thesis
  proof (cases "santa t = santa s")
    case True
    with frame assms(1) show ?thesis by (simp add: delivery_inv_def)
  next
    case False
    with frame have "santa s = S_Waiting" "santa t = S_Woken" by auto
    with frame assms(1) show ?thesis by (simp add: delivery_inv_def)
  qed
qed

lemma reindeer_step_count:
  assumes inv: "count_inv s" and k: "k < length (reindeer s)" and st: "reindeer_step k s = Some t"
  shows "count_inv t"
proof -
  have open_house: "santa s \<noteq> S_Done" "santa s \<noteq> S_Broadcast" "\<not> closing s"
    using inv st waiting_blocked [OF _ k] by (auto simp: count_inv_def split: if_splits)
  then have closed: "\<not> closing t" "santa t \<noteq> S_Done" "santa t \<noteq> S_Broadcast"
    using reindeer_step_frame [OF st] by (auto simp: closing_def)
  have one: "mutex s + count_where r_holds (reindeer s) + (if s_holds (santa s) then 1 else 0) = 1"
    and cnt: "reindeer_ready_count s = count_where r_counted (reindeer s)" "R_Cancelled \<notin> set (reindeer s)"
    and nine: "santa s \<in> {S_Deliver, S_Reset} \<longrightarrow> reindeer_ready_count s = REINDEER_COUNT"
    and sig: "santa s = S_Waiting \<and> reindeer_ready_count s = REINDEER_COUNT \<longrightarrow> 0 < count_where r_checks (reindeer s)"
    using inv open_house by (auto simp: count_inv_def)
  note upd = reindeer_counts [OF k]
  have holds: "mutex t + count_where r_holds (reindeer t) + (if s_holds (santa t) then 1 else 0) = 1"
    using st one upd(1) [of "reindeer t ! k"] k
    by (cases "reindeer s ! k") (auto simp: reindeer_step_def move_to_def r_holds_def split: if_splits)
  have counted: "reindeer_ready_count t = count_where r_counted (reindeer t)"
    using st cnt upd(2) [of "reindeer t ! k"] k
    by (cases "reindeer s ! k") (auto simp: reindeer_step_def move_to_def r_counted_def split: if_splits)
  have uncancelled: "R_Cancelled \<notin> set (reindeer t)"
    using st cnt(2) by (cases "reindeer s ! k")
      (auto simp: reindeer_step_def move_to_def uncancelled_update split: if_splits)
  have "santa t \<in> {S_Deliver, S_Reset} \<longrightarrow> reindeer_ready_count t = REINDEER_COUNT"
    using st nine one count_where_pos [OF k, of r_holds]
    by (cases "reindeer s ! k") (auto simp: reindeer_step_def move_to_def r_holds_def s_holds_def split: if_splits)
  moreover have "santa t = S_Waiting \<and> reindeer_ready_count t = REINDEER_COUNT \<longrightarrow> 0 < count_where r_checks (reindeer t)"
  proof (cases "r_holds (reindeer s ! k) \<and> \<not> r_checks (reindeer s ! k)")
    case True
    then have "count_where r_checks (reindeer s) = 0"
      using one by (intro holder_not_check [OF k]) auto
    with True st sig upd(3) [of "reindeer t ! k"] k show ?thesis
      by (cases "reindeer s ! k") (auto simp: reindeer_step_def move_to_def pc_classes)
  next
    case False
    with st sig one checks_hold [of "reindeer s"] k show ?thesis
      by (cases "reindeer s ! k") (auto simp: reindeer_step_def move_to_def r_holds_def r_checks_def split: if_splits)
  qed
  ultimately show ?thesis
    using holds counted uncancelled closed reindeer_step_frame [OF st] inv by (simp add: count_inv_def)
qed

lemma all_waiting_replicate:
  "length (reindeer s) = REINDEER_COUNT \<Longrightarrow> all_waiting s \<Longrightarrow> reindeer s = replicate REINDEER_COUNT R_Waiting"
  by (rule nth_equalityI) (auto simp: all_waiting_def)

text \<open>While Santa holds the mutex and all nine are counted, all nine wait.\<close>

lemma nine_waiting:
  assumes "length rs = REINDEER_COUNT" "count_where r_counted rs = REINDEER_COUNT" "count_where r_holds rs = 0"
    and "pc \<in> set rs"
  shows "pc = R_Waiting"
proof -
  have "r_counted pc"
  proof (rule ccontr)
    assume "\<not> r_counted pc"
    moreover obtain k where "k < length rs" "rs ! k = pc" using assms(4) by (auto simp: in_set_conv_nth)
    ultimately have "0 < count_where (\<lambda>pc. \<not> r_counted pc) rs" by (intro count_where_pos) auto
    moreover have "count_where (\<lambda>pc. \<not> r_counted pc) rs + count_where r_counted rs = length rs"
      by (simp add: count_where_def sum_length_filter_compl add.commute)
    ultimately show False using assms(1,2) by linarith
  qed
  moreover have "\<not> r_holds pc" using assms(3,4) by (simp add: count_where_0)
  ultimately show ?thesis by (auto simp: pc_classes)
qed

lemma deliver_all_waiting:
  assumes "north_inv s" "santa s = S_Deliver \<or> santa s = S_Reset"
  shows "all_waiting s"
proof -
  have inv: "count_inv s" "delivery_inv s" using assms(1) by (simp_all add: north_inv_def)
  with assms(2) have "\<not> closing s" by (elim disjE) (simp_all add: delivery_inv_def closing_def)
  with assms(2) inv(1) have "length (reindeer s) = REINDEER_COUNT" "count_where r_counted (reindeer s) = REINDEER_COUNT"
    "count_where r_holds (reindeer s) = 0"
    by (elim disjE; simp add: count_inv_def s_holds_def)+
  then show ?thesis unfolding all_waiting_def by (blast intro: nine_waiting)
qed

lemma wake_waiting: "all_waiting s \<Longrightarrow> map wake (reindeer s) = map (\<lambda>_. R_Woken) (reindeer s)"
  by (simp add: all_waiting_def wake_def)

lemma count_where_const [simp]: "count_where P (map (\<lambda>_. x) rs) = (if P x then length rs else 0)"
  by (induction rs) auto

lemma all_waiting_cong: "reindeer s = reindeer t \<Longrightarrow> all_waiting s \<longleftrightarrow> all_waiting t"
  by (simp add: all_waiting_def)

text \<open>The steps of Santa, one by one.\<close>

lemma santa_locks:
  assumes "north_inv s" "santa s = S_Loop \<and> delivery s < TOTAL_DELIVARIES \<or> santa s = S_Woken" "mutex s \<noteq> 0"
  shows "north_inv (s\<lparr>santa := S_Test, mutex := 0\<rparr>)"
  using assms by (elim disjE) (simp_all add: north_inv_def count_inv_def delivery_inv_def closing_def s_holds_def)

lemma santa_leaves_loop:
  assumes "north_inv s" "santa s = S_Loop" "\<not> delivery s < TOTAL_DELIVARIES"
  shows "north_inv (s\<lparr>santa := S_Cancel\<rparr>)"
  using assms
  by (simp add: north_inv_def count_inv_def delivery_inv_def closing_def s_holds_def
      all_waiting_cong [of "s\<lparr>santa := S_Cancel\<rparr>" s])

lemma santa_waits:
  assumes "north_inv s" "santa s = S_Test" "reindeer_ready_count s < REINDEER_COUNT"
  shows "north_inv (s\<lparr>santa := S_Waiting, mutex := 1\<rparr>)"
  using assms by (simp add: north_inv_def count_inv_def delivery_inv_def closing_def s_holds_def)

lemma santa_wakes_up:
  assumes "north_inv s" "santa s = S_Test" "\<not> reindeer_ready_count s < REINDEER_COUNT"
  shows "north_inv (s\<lparr>santa := S_Deliver\<rparr>)"
proof -
  have "\<not> closing s" using assms by (simp add: north_inv_def delivery_inv_def closing_def)
  then have "reindeer_ready_count s = REINDEER_COUNT"
    using assms counted_le [of r_counted "reindeer s"] by (simp add: north_inv_def count_inv_def)
  with assms show ?thesis
    by (simp add: north_inv_def count_inv_def delivery_inv_def closing_def s_holds_def)
qed

lemma santa_delivers:
  assumes "north_inv s" "santa s = S_Deliver"
  shows "north_inv (s\<lparr>santa := S_Reset, deliveries := deliveries s @ [reindeer s]\<rparr>)"
proof -
  have "reindeer s = replicate REINDEER_COUNT R_Waiting"
    using deliver_all_waiting [OF assms(1)] assms by (simp add: north_inv_def count_inv_def all_waiting_replicate)
  with assms show ?thesis
    by (simp add: north_inv_def count_inv_def delivery_inv_def closing_def s_holds_def pc_classes TOTAL_DELIVARIES_def)
qed

lemma santa_resets:
  assumes "north_inv s" "santa s = S_Reset"
  shows "delivery s \<noteq> TOTAL_DELIVARIES - 1 \<Longrightarrow> north_inv (s\<lparr>reindeer_ready_count := 0, santa := S_Broadcast\<rparr>)"
    and "delivery s = TOTAL_DELIVARIES - 1 \<Longrightarrow> north_inv (s\<lparr>reindeer_ready_count := 0, santa := S_Unlock\<rparr>)"
proof -
  have "all_waiting s" using deliver_all_waiting assms by blast
  with assms
  show "delivery s \<noteq> TOTAL_DELIVARIES - 1 \<Longrightarrow> north_inv (s\<lparr>reindeer_ready_count := 0, santa := S_Broadcast\<rparr>)"
    and "delivery s = TOTAL_DELIVARIES - 1 \<Longrightarrow> north_inv (s\<lparr>reindeer_ready_count := 0, santa := S_Unlock\<rparr>)"
    by (simp_all add: north_inv_def count_inv_def delivery_inv_def closing_def s_holds_def all_waiting_def TOTAL_DELIVARIES_def)
qed

lemma santa_broadcasts:
  assumes "north_inv s" "santa s = S_Broadcast"
  shows "north_inv (s\<lparr>santa := S_Unlock, reindeer := map wake (reindeer s)\<rparr>)"
proof -
  have wait: "all_waiting s" using assms by (simp add: north_inv_def count_inv_def)
  have "reindeer_ready_count s = 0" using assms by (simp add: north_inv_def count_inv_def)
  with assms show ?thesis
    by (simp add: north_inv_def count_inv_def delivery_inv_def closing_def s_holds_def r_holds_def
        r_counted_def wake_waiting [OF wait] image_constant_conv TOTAL_DELIVARIES_def)
qed

lemma santa_unlocks:
  assumes "north_inv s" "santa s = S_Unlock"
  shows "north_inv (s\<lparr>santa := S_Loop, mutex := 1, delivery := delivery s + 1\<rparr>)"
proof (cases "delivery s = TOTAL_DELIVARIES - 1")
  case True
  with assms show ?thesis
    by (simp add: north_inv_def count_inv_def delivery_inv_def closing_def s_holds_def TOTAL_DELIVARIES_def
        all_waiting_def)
next
  case False
  with assms show ?thesis
    by (simp add: north_inv_def count_inv_def delivery_inv_def closing_def s_holds_def TOTAL_DELIVARIES_def)
qed

lemma santa_cancels:
  assumes "north_inv s" "santa s = S_Cancel"
  shows "north_inv (s\<lparr>santa := S_Done, reindeer := map (\<lambda>_. R_Cancelled) (reindeer s)\<rparr>)"
proof -
  have "all_waiting s" using assms by (simp add: north_inv_def count_inv_def delivery_inv_def closing_def)
  then have "count_where r_holds (reindeer s) = 0" by (auto simp: count_where_0 all_waiting_def r_holds_def)
  with assms show ?thesis
    by (simp add: north_inv_def count_inv_def delivery_inv_def closing_def s_holds_def r_holds_def all_cancelled_def)
qed

lemma santa_step_inv: "santa_step s = Some t \<Longrightarrow> north_inv s \<Longrightarrow> north_inv t"
  unfolding santa_step_def
  by (cases "santa s")
    (auto simp del: One_nat_def split: if_splits intro: santa_locks santa_leaves_loop santa_waits santa_wakes_up
      santa_delivers santa_resets santa_broadcasts santa_unlocks santa_cancels)

lemma north_step_inv: "north_inv s \<Longrightarrow> north_step False s t \<Longrightarrow> north_inv t"
  by (erule north_step.cases)
    (auto intro: reindeer_step_count reindeer_step_delivery dest: santa_step_inv simp: north_inv_def)

lemma init_north_inv: "north_inv init_north_pole"
  by (simp add: north_inv_def count_inv_def delivery_inv_def init_north_pole_def closing_def pc_classes
      TOTAL_DELIVARIES_def)

interpretation north: inductive_invariant "\<lambda>s. s = init_north_pole" "north_step False" north_inv
  by unfold_locales (simp_all add: init_north_inv north_step_inv)

section \<open>Progress\<close>

lemma reindeer_blocked:
  "reindeer_step k s = None \<Longrightarrow> reindeer s ! k \<notin> {R_Waiting, R_Cancelled} \<Longrightarrow>
   mutex s = 0 \<and> \<not> r_holds (reindeer s ! k)"
  by (cases "reindeer s ! k") (auto simp: reindeer_step_def r_holds_def split: if_splits)

lemma santa_blocked:
  "santa_step s = None \<Longrightarrow> santa s = S_Done \<or> santa s = S_Waiting \<or> (mutex s = 0 \<and> \<not> s_holds (santa s))"
  by (cases "santa s") (auto simp: santa_step_def s_holds_def split: if_splits)

text \<open>A reindeer can move unless all of them wait or Santa has the mutex.\<close>

lemma reindeer_progress:
  assumes inv: "count_inv s" and "santa s \<noteq> S_Done" "\<not> s_holds (santa s)"
    and stuck: "\<And>k. k < length (reindeer s) \<Longrightarrow> reindeer_step k s = None"
  shows "mutex s = 1" "all_waiting s"
proof -
  have alive: "R_Cancelled \<notin> set (reindeer s)"
    using inv assms(2) by (auto simp: count_inv_def all_waiting_def split: if_splits)
  have pcs: "reindeer s ! k = R_Waiting \<or> (mutex s = 0 \<and> \<not> r_holds (reindeer s ! k))" if "k < length (reindeer s)" for k
  proof -
    have "reindeer s ! k \<noteq> R_Cancelled" using alive nth_mem [OF that] by metis
    with reindeer_blocked [OF stuck [OF that]] show ?thesis by auto
  qed
  then have "\<not> r_holds pc" if "pc \<in> set (reindeer s)" for pc
    using that by (fastforce simp: in_set_conv_nth r_holds_def)
  then have "count_where r_holds (reindeer s) = 0" by (simp add: count_where_0)
  then show "mutex s = 1" using inv assms(3) by (simp add: count_inv_def)
  with pcs show "all_waiting s" by (auto simp: all_waiting_def in_set_conv_nth)
qed

lemma north_progress:
  assumes inv: "north_inv s" and "santa s \<noteq> S_Done"
  shows "\<exists>t. north_step False s t"
proof (rule ccontr)
  assume stuck: "\<nexists>t. north_step False s t"
  have s_stuck: "santa_step s = None"
    using stuck north_step.santa_moves [of s _ False] by (cases "santa_step s") auto
  have r_stuck: "reindeer_step k s = None" if "k < length (reindeer s)" for k
    using stuck north_step.reindeer_moves [OF that, of _ False] by (cases "reindeer_step k s") auto
  have c: "count_inv s" and d: "delivery_inv s" using inv by (simp_all add: north_inv_def)
  have "\<not> s_holds (santa s)" using santa_blocked [OF s_stuck] assms(2) by auto
  from reindeer_progress [OF c assms(2) this r_stuck]
  have free: "mutex s = 1" "all_waiting s" by auto
  then have waiting: "santa s = S_Waiting" using santa_blocked [OF s_stuck] assms(2) by auto
  then have "\<not> closing s" using d by (simp add: delivery_inv_def closing_def)
  then have "reindeer_ready_count s = count_where r_counted (reindeer s)" "length (reindeer s) = REINDEER_COUNT"
    using c waiting by (simp_all add: count_inv_def)
  moreover have "reindeer s = replicate REINDEER_COUNT R_Waiting"
    using free(2) calculation(2) by (rule all_waiting_replicate [rotated])
  ultimately have "reindeer_ready_count s = REINDEER_COUNT" "count_where r_checks (reindeer s) = 0"
    by (simp_all add: pc_classes)
  then show False using c waiting by (simp add: count_inv_def)
qed

section \<open>Termination\<close>

text \<open>
  An upper bound of the steps left. A reindeer is woken only by the broadcast of a delivery,
  and Santa only by the reindeer that completes the nine.
\<close>

fun reindeer_work :: "reindeer_pc \<Rightarrow> nat" where
  "reindeer_work R_Start = 6" | "reindeer_work R_Woken = 6" | "reindeer_work R_Leave = 5"
| "reindeer_work R_Holiday = 4" | "reindeer_work R_Increment = 3" | "reindeer_work R_Check = 2"
| "reindeer_work R_Wait = 1" | "reindeer_work R_Waiting = 0" | "reindeer_work R_Cancelled = 0"

fun santa_work :: "santa_pc \<Rightarrow> nat" where
  "santa_work S_Loop = 606" | "santa_work S_Woken = 605" | "santa_work S_Test = 604"
| "santa_work S_Waiting = 603" | "santa_work S_Deliver = 602" | "santa_work S_Reset = 601"
| "santa_work S_Broadcast = 600" | "santa_work S_Unlock = 1" | "santa_work S_Cancel = 1" | "santa_work S_Done = 0"

definition work_left :: "north_pole \<Rightarrow> nat" where
  "work_left s = 10 * sum_list (map reindeer_work (reindeer s)) + santa_work (santa s) +
     1000 * (TOTAL_DELIVARIES - delivery s)"

lemma sum_list_map_update:
  "k < length xs \<Longrightarrow> sum_list (map f (xs[k := x])) + f (xs ! k) = sum_list (map f xs) + (f x :: nat)"
proof (induction xs arbitrary: k)
  case (Cons y ys)
  then show ?case by (cases k) auto
qed simp

lemma reindeer_step_work:
  assumes "k < length (reindeer s)" "reindeer_step k s = Some t"
  shows "work_left t < work_left s"
  using assms(2) sum_list_map_update [OF assms(1), of reindeer_work "reindeer t ! k"] assms(1)
  by (cases "reindeer s ! k") (auto simp: reindeer_step_def move_to_def work_left_def split: if_splits)

lemma sum_list_map_const: "sum_list (map (\<lambda>_. c) xs) = length xs * (c::nat)"
  by (induction xs) simp_all

lemma woken_work: "sum_list (map reindeer_work (map wake rs)) \<le> sum_list (map reindeer_work rs) + 6 * length rs"
  by (induction rs) (auto simp: wake_def)

lemma cancelled_work: "reindeer_work \<circ> (\<lambda>_. R_Cancelled) = (\<lambda>_. 0)"
  by auto

lemma santa_step_work:
  assumes "north_inv s" "santa_step s = Some t"
  shows "work_left t < work_left s"
proof (cases "santa s = S_Broadcast \<or> santa s = S_Cancel")
  case True
  have "length (reindeer s) = 9" using assms(1) by (simp add: north_inv_def count_inv_def REINDEER_COUNT_def)
  with True assms(2) woken_work [of "reindeer s"] show ?thesis
    by (elim disjE) (auto simp: santa_step_def work_left_def cancelled_work)
next
  case False
  have "santa s = S_Unlock \<Longrightarrow> delivery s < TOTAL_DELIVARIES"
    using assms(1) by (simp add: north_inv_def delivery_inv_def)
  with False assms(2) show ?thesis
    by (cases "santa s") (auto simp: santa_step_def work_left_def split: if_splits)
qed

lemma north_step_work: "north_step False s t \<Longrightarrow> north_inv s \<Longrightarrow> work_left t < work_left s"
  by (erule north_step.cases) (auto intro: reindeer_step_work santa_step_work)

lemma init_north_work: "work_left init_north_pole = 5146"
  by (simp add: init_north_pole_def work_left_def TOTAL_DELIVARIES_def REINDEER_COUNT_def sum_list_replicate)

lemma north_runs:
  "(north_step False ^^ k) init_north_pole s \<Longrightarrow> north_inv s \<and> k + work_left s \<le> 5146"
proof (induction k arbitrary: s)
  case 0
  then show ?case
    using init_north_work init_north_inv by auto
next
  case (Suc k)
  then obtain r where r: "(north_step False ^^ k) init_north_pole r" "north_step False r s" by auto
  with Suc.IH [OF r(1)] north_step_work [OF r(2)] show ?case by (auto intro: north_step_inv)
qed

section \<open>Schedules\<close>

datatype turn = Reindeer nat | Santa_Turn | Spurious nat

definition take_turn :: "turn \<Rightarrow> north_pole \<Rightarrow> north_pole option" where
  "take_turn m s =
     (case m of
        Reindeer k \<Rightarrow> if k < length (reindeer s) then reindeer_step k s else None
      | Santa_Turn \<Rightarrow> santa_step s
      | Spurious k \<Rightarrow> if k < length (reindeer s) then reindeer_spurious k s else None)"

fun take_turns :: "turn list \<Rightarrow> north_pole \<Rightarrow> north_pole option" where
  "take_turns [] s = Some s"
| "take_turns (m # ms) s = (case take_turn m s of None \<Rightarrow> None | Some t \<Rightarrow> take_turns ms t)"

fun is_spurious :: "turn \<Rightarrow> bool" where
  "is_spurious (Spurious k) = True"
| "is_spurious _ = False"

lemma take_turn_step: "take_turn m s = Some t \<Longrightarrow> spurious \<or> \<not> is_spurious m \<Longrightarrow> north_step spurious s t"
  by (cases m) (auto simp: take_turn_def intro: north_step.intros split: if_splits)

lemma take_turns_steps:
  "take_turns ms s = Some t \<Longrightarrow> spurious \<or> list_all (\<lambda>m. \<not> is_spurious m) ms \<Longrightarrow>
   (north_step spurious ^^ length ms) s t"
proof (induction ms arbitrary: s)
  case (Cons m ms)
  then obtain u where u: "take_turn m s = Some u" "take_turns ms u = Some t" by (auto split: option.splits)
  with Cons.prems have "north_step spurious s u" by (intro take_turn_step) auto
  moreover have "(north_step spurious ^^ length ms) u t" using Cons u by auto
  ultimately show ?case by (simp only: list.size add_0_right add_Suc_right) (rule relpowp_Suc_I2)
qed simp

definition holiday :: "nat \<Rightarrow> turn list" where
  "holiday k = replicate 6 (Reindeer k)"

text \<open>Everyone counts once and Santa delivers.\<close>

definition first_delivery :: "turn list" where
  "first_delivery = [Santa_Turn, Santa_Turn] @ concat (map holiday [0..<9]) @ replicate 3 Santa_Turn"

text \<open>
  Reindeer 0 returns from its wait without a broadcast, goes on a second holiday and is
  counted again, while reindeer 8 is still on its first one.
\<close>

definition early_delivery :: "turn list" where
  "early_delivery = [Santa_Turn, Santa_Turn, Reindeer 8, Reindeer 8] @ holiday 0 @ [Spurious 0] @ holiday 0 @
     concat (map holiday [1..<8]) @ replicate 3 Santa_Turn"

section \<open>Properties\<close>

text \<open>
  C32: if \<open>pthread_cond_wait\<close> returns only when signalled, Santa delivers only when all nine
  reindeer wait for him, and he delivers once per round.
\<close>

theorem santa_delivers_to_nine:
  assumes "(north_step False ^^ k) init_north_pole s"
  shows "(santa s = S_Deliver \<longrightarrow> reindeer s = replicate REINDEER_COUNT R_Waiting) \<and>
    (\<forall>d\<in>set (deliveries s). d = replicate REINDEER_COUNT R_Waiting) \<and>
    length (deliveries s) \<le> TOTAL_DELIVARIES"
proof -
  have inv: "north_inv s" using north_runs [OF assms] by simp
  then have d: "delivery_inv s" by (simp add: north_inv_def)
  then have "complete (deliveries s)" by (simp add: delivery_inv_def)
  moreover have "length (deliveries s) \<le> TOTAL_DELIVARIES"
    using d by (cases "santa s") (simp_all add: delivery_inv_def TOTAL_DELIVARIES_def)
  moreover have "santa s = S_Deliver \<longrightarrow> reindeer s = replicate REINDEER_COUNT R_Waiting"
    using deliver_all_waiting [OF inv] inv by (simp add: north_inv_def count_inv_def all_waiting_replicate)
  ultimately show ?thesis by (simp add: complete_def)
qed

definition after_turns :: "turn list \<Rightarrow> (north_pole \<Rightarrow> bool) \<Rightarrow> bool" where
  "after_turns ms P = (case take_turns ms init_north_pole of None \<Rightarrow> False | Some t \<Rightarrow> P t)"

lemma after_turns_steps:
  assumes "after_turns ms P" "spurious \<or> list_all (\<lambda>m. \<not> is_spurious m) ms"
  obtains t where "(north_step spurious ^^ length ms) init_north_pole t" "P t"
  using assms by (auto simp: after_turns_def split: option.splits intro: take_turns_steps)

lemma first_delivery_quiet: "list_all (\<lambda>m. \<not> is_spurious m) first_delivery"
  by code_simp

lemma first_delivery_run: "after_turns first_delivery (\<lambda>s. santa s = S_Reset \<and> length (deliveries s) = 1)"
  by code_simp

theorem santa_delivers_to_nine_witness:
  "\<exists>s :: north_pole. deliveries s = [replicate REINDEER_COUNT R_Waiting]"
proof -
  obtain s where s: "(north_step False ^^ length first_delivery) init_north_pole s" "length (deliveries s) = 1"
    using after_turns_steps [OF first_delivery_run disjI2 [OF first_delivery_quiet]] by blast
  from santa_delivers_to_nine [OF s(1)] s(2) have "deliveries s = [replicate REINDEER_COUNT R_Waiting]"
    by (cases "deliveries s") auto
  then show ?thesis ..
qed

text \<open>
  C4: without spurious wakeups the program always ends, with no deadlock before: every run has
  at most 5146 steps, a state that cannot move is the one after Santa has cancelled the
  reindeer, and then there were exactly four deliveries.
\<close>

theorem north_pole_terminates:
  assumes "(north_step False ^^ k) init_north_pole s"
  shows "k \<le> 5146 \<and> (santa s = S_Done \<or> (\<exists>t. north_step False s t)) \<and>
    (santa s = S_Done \<longrightarrow> length (deliveries s) = TOTAL_DELIVARIES)"
proof -
  have "north_inv s \<and> k + work_left s \<le> 5146" using assms by (rule north_runs)
  then show ?thesis
    using north_progress [of s] by (auto simp: north_inv_def delivery_inv_def)
qed

theorem north_pole_terminates_witness: "\<exists>t. north_step False init_north_pole t"
  using north_pole_terminates [of 0 init_north_pole] by (simp add: init_north_pole_def)

text \<open>
  Because the reindeer wait without a loop around \<open>pthread_cond_wait\<close>, one spurious wakeup
  makes Santa deliver although a reindeer is still on holiday: another one counted twice.
\<close>

theorem spurious_wakeup_breaks_delivery:
  "\<exists>k s. (north_step True ^^ k) init_north_pole s \<and> length (deliveries s) = 1 \<and>
     hd (deliveries s) ! 8 = R_Holiday \<and> hd (deliveries s) ! 0 = R_Waiting"
proof -
  have "after_turns early_delivery (\<lambda>s. length (deliveries s) = 1 \<and>
      hd (deliveries s) ! 8 = R_Holiday \<and> hd (deliveries s) ! 0 = R_Waiting)"
    by code_simp
  then show ?thesis by (rule after_turns_steps [OF _ disjI1]) auto
qed

end
