(* ===== verification/MQ_Kernel.thy ===== *)
theory MQ_Kernel
  imports C_Base
begin

text \<open>
  POSIX message queues as the programs of \<^verbatim>\<open>cw07\<close> use them, with the constants and types of
  \<^verbatim>\<open>queue_spec.h\<close>: bounded boxes ordered by priority, names that lead to them, and descriptors,
  which stay valid when the name is removed. The descriptors of all processes are numbered
  apart.
\<close>

section \<open>\<^verbatim>\<open>queue_spec.h\<close>\<close>

definition MQ_MAX_CLIENTS :: nat where "MQ_MAX_CLIENTS = 50"
definition MAX_MSG_BUF_SIZE :: nat where "MAX_MSG_BUF_SIZE = 1024"
definition MAX_MESSAGES :: nat where "MAX_MESSAGES = 10"

datatype msg_type_t = INIT | RECEIVE_ID | TEXT | CLIENT_EXIT

record msg_t =
  mtype :: msg_type_t
  id_of :: int
  body :: "char list"

definition server_queue_name :: string where "server_queue_name = ''/chat-server-queue''"

text \<open>\<open>sprintf(buf, "/chat-client-queue-%d", pid)\<close>.\<close>

definition client_queue_name :: "int \<Rightarrow> string" where
  "client_queue_name pid =
     ''/chat-client-queue-'' @ format_d pid"

section \<open>Queues\<close>

text \<open>A box holds messages with their priorities, in the order in which they will be received.\<close>

type_synonym box = "(nat \<times> msg_t) list"

definition box_insert :: "nat \<Rightarrow> msg_t \<Rightarrow> box \<Rightarrow> box" where
  "box_insert prio m b = takeWhile (\<lambda>(p, _). prio \<le> p) b @ (prio, m) # dropWhile (\<lambda>(p, _). prio \<le> p) b"

record kernel =
  names :: "string \<Rightarrow> nat option"
  boxes :: "nat \<Rightarrow> box"
  fds :: "int \<Rightarrow> nat option"
  next_fd :: int
  next_queue :: nat

text \<open>
  \<open>mq_open(name, O_WRONLY)\<close>: -1 if there is no such queue; with \<open>O_CREAT\<close> a new one is made,
  which the system may refuse.
\<close>

definition new_fd :: "nat \<Rightarrow> kernel \<Rightarrow> int \<times> kernel" where
  "new_fd q k = (next_fd k, k\<lparr>fds := (fds k)(next_fd k \<mapsto> q), next_fd := next_fd k + 1\<rparr>)"

definition mq_open :: "string \<Rightarrow> kernel \<Rightarrow> int \<times> kernel" where
  "mq_open name k = (case names k name of None \<Rightarrow> (-1, k) | Some q \<Rightarrow> new_fd q k)"

definition mq_create :: "bool \<Rightarrow> string \<Rightarrow> kernel \<Rightarrow> int \<times> kernel" where
  "mq_create allowed name k =
     (case names k name of
        Some q \<Rightarrow> new_fd q k
      | None \<Rightarrow> if \<not> allowed then (-1, k) else new_fd (next_queue k)
          (k\<lparr>names := (names k)(name \<mapsto> next_queue k), boxes := (boxes k)(next_queue k := []),
             next_queue := next_queue k + 1\<rparr>))"

definition mq_close :: "int \<Rightarrow> kernel \<Rightarrow> kernel" where
  "mq_close fd k = k\<lparr>fds := (fds k)(fd := None)\<rparr>"

definition mq_unlink :: "string \<Rightarrow> kernel \<Rightarrow> kernel" where
  "mq_unlink name k = k\<lparr>names := (names k)(name := None)\<rparr>"

text \<open>
  \<open>mq_send\<close>: -1 on a descriptor that is not open; \<open>None\<close> while the queue is full, when the call
  blocks. \<open>mq_receive\<close>: -1 (no message), \<open>None\<close> while the queue is empty.
\<close>

definition mq_send :: "int \<Rightarrow> msg_t \<Rightarrow> nat \<Rightarrow> kernel \<Rightarrow> (int \<times> kernel) option" where
  "mq_send fd m prio k =
     (case fds k fd of
        None \<Rightarrow> Some (-1, k)
      | Some q \<Rightarrow>
          if MAX_MESSAGES \<le> length (boxes k q) then None
          else Some (0, k\<lparr>boxes := (boxes k)(q := box_insert prio m (boxes k q))\<rparr>))"

definition mq_receive :: "int \<Rightarrow> kernel \<Rightarrow> (msg_t option \<times> kernel) option" where
  "mq_receive fd k =
     (case fds k fd of
        None \<Rightarrow> Some (None, k)
      | Some q \<Rightarrow>
          (case boxes k q of
             [] \<Rightarrow> None
           | (p, m) # b \<Rightarrow> Some (Some m, k\<lparr>boxes := (boxes k)(q := b)\<rparr>)))"

section \<open>Well-formed kernels\<close>

text \<open>Descriptors are below \<open>next_fd\<close> and lead to queues below \<open>next_queue\<close>, as names do.\<close>

definition wf_kernel :: "kernel \<Rightarrow> bool" where
  "wf_kernel k \<longleftrightarrow> 0 \<le> next_fd k \<and>
     (\<forall>fd q. fds k fd = Some q \<longrightarrow> 0 \<le> fd \<and> fd < next_fd k \<and> q < next_queue k) \<and>
     (\<forall>name q. names k name = Some q \<longrightarrow> q < next_queue k)"

lemma wf_kernel_boxes [simp]: "wf_kernel (k\<lparr>boxes := b\<rparr>) = wf_kernel k"
  by (simp add: wf_kernel_def)

lemma wf_kernel_minus: "wf_kernel k \<Longrightarrow> fds k (-1) = None"
  unfolding wf_kernel_def by (metis neg_0_le_iff_le not_None_eq not_one_le_zero)

lemma new_fd_wf: "wf_kernel k \<Longrightarrow> q < next_queue k \<Longrightarrow> new_fd q k = (fd, k') \<Longrightarrow> wf_kernel k' \<and> 0 \<le> fd"
  by (auto simp: new_fd_def wf_kernel_def split: if_splits) force+

lemma mq_open_wf: "wf_kernel k \<Longrightarrow> mq_open name k = (fd, k') \<Longrightarrow> wf_kernel k' \<and> -1 \<le> fd"
  by (fastforce simp: mq_open_def wf_kernel_def dest: new_fd_wf [rotated 2] split: option.splits)

lemma mq_create_wf: "wf_kernel k \<Longrightarrow> mq_create allowed name k = (fd, k') \<Longrightarrow> wf_kernel k' \<and> -1 \<le> fd"
  by (auto simp: mq_create_def new_fd_def wf_kernel_def split: option.splits if_splits) force+

lemma mq_send_wf: "wf_kernel k \<Longrightarrow> mq_send fd m prio k = Some (r, k') \<Longrightarrow> wf_kernel k'"
  by (auto simp: mq_send_def split: option.splits if_splits)

lemma mq_receive_wf: "wf_kernel k \<Longrightarrow> mq_receive fd k = Some (r, k') \<Longrightarrow> wf_kernel k'"
  by (auto simp: mq_receive_def split: option.splits list.splits)

lemma mq_close_wf: "wf_kernel k \<Longrightarrow> wf_kernel (mq_close fd k)"
  by (simp add: wf_kernel_def mq_close_def)

lemma mq_unlink_wf: "wf_kernel k \<Longrightarrow> wf_kernel (mq_unlink name k)"
  by (simp add: wf_kernel_def mq_unlink_def)

text \<open>Messages of one priority are received in the order they were sent; a higher one overtakes.\<close>

lemma box_insert_last: "\<forall>(p, x)\<in>set b. prio \<le> p \<Longrightarrow> box_insert prio m b = b @ [(prio, m)]"
  by (induction b) (auto simp: box_insert_def)

lemma box_insert_first: "\<forall>(p, x)\<in>set b. p < prio \<Longrightarrow> box_insert prio m b = (prio, m) # b"
  by (cases b) (auto simp: box_insert_def)

lemma length_box_insert [simp]: "length (box_insert prio m b) = Suc (length b)"
  by (induction b) (auto simp: box_insert_def)

section \<open>Queue names\<close>

lemma client_queue_name_NUL: "NUL \<notin> set (client_queue_name pid)"
  by (simp add: client_queue_name_def format_d_NUL)

text \<open>Different processes have different queues.\<close>

lemma client_queue_name_inject: "client_queue_name p = client_queue_name q \<Longrightarrow> p = q"
  by (simp add: client_queue_name_def format_d_inject)

lemma client_not_server_queue: "client_queue_name pid \<noteq> server_queue_name"
  by (simp add: client_queue_name_def server_queue_name_def)

end
