(* ===== verification/MQ_Chat.thy ===== *)
theory MQ_Chat
  imports MQ_Kernel
begin

text \<open>
  The chat over POSIX message queues (\<^verbatim>\<open>cw07\<close>): the handlers and the loop of \<^verbatim>\<open>server.c\<close>, the
  input loop and the listener of \<^verbatim>\<open>client.c\<close>, over the queues of \<open>MQ_Kernel\<close>. The line the
  server prints for each message, whose text is taken to have its NUL, is left out.
\<close>

section \<open>\<^verbatim>\<open>server.c\<close>\<close>

record mq_server =
  curr_max_client_num :: nat
  client_queues :: "int list"
  kern :: kernel

text \<open>
  A call returns, or blocks in \<open>mq_send\<close> and leaves the state as it is at that moment.
\<close>

datatype 'a progress = Ready 'a | Blocked 'a

type_synonym mq_result = "mq_server progress cres"

definition handle_init_message :: "msg_t \<Rightarrow> mq_server \<Rightarrow> mq_result" where
  "handle_init_message message st =
     (let new_client_num = curr_max_client_num st; (fd, k) = mq_open (cstr (body message)) (kern st)
      in if \<not> new_client_num < length (client_queues st) then Inl Oob_Write
         else
           let st1 = st\<lparr>client_queues := (client_queues st)[new_client_num := fd], kern := k\<rparr>
           in if fd < 0 then Inr (Ready st1)
              else
                let st2 = st1\<lparr>curr_max_client_num := curr_max_client_num st1 + 1\<rparr>;
                    id_msg = \<lparr>mtype = RECEIVE_ID, id_of = int new_client_num, body = replicate MAX_MSG_BUF_SIZE NUL\<rparr>
                in case mq_send fd id_msg 1 (kern st2) of
                     None \<Rightarrow> Inr (Blocked st2)
                   | Some (r, k') \<Rightarrow> Inr (Ready (st2\<lparr>kern := k'\<rparr>)))"

text \<open>The loop of \<open>handle_text_message\<close> over the first \<open>n\<close> slots, from slot \<open>i\<close>.\<close>

fun send_slots :: "msg_t \<Rightarrow> int list \<Rightarrow> kernel \<Rightarrow> kernel progress" where
  "send_slots message [] k = Ready k"
| "send_slots message (fd # rest) k =
     (if fd = -1 then send_slots message rest k
      else case mq_send fd message 1 k of
             None \<Rightarrow> Blocked k
           | Some (r, k') \<Rightarrow> send_slots message rest k')"

definition handle_text_message :: "msg_t \<Rightarrow> mq_server \<Rightarrow> mq_result" where
  "handle_text_message message st =
     (if length (client_queues st) < curr_max_client_num st then Inl Oob_Read
      else case send_slots message (take (curr_max_client_num st) (client_queues st)) (kern st) of
             Blocked k \<Rightarrow> Inr (Blocked (st\<lparr>kern := k\<rparr>))
           | Ready k \<Rightarrow> Inr (Ready (st\<lparr>kern := k\<rparr>)))"

definition handle_client_exit_message :: "msg_t \<Rightarrow> mq_server \<Rightarrow> mq_result" where
  "handle_client_exit_message message st =
     (if 0 \<le> id_of message \<and> id_of message < int MQ_MAX_CLIENTS
      then let i = nat (id_of message)
           in Inr (Ready (st\<lparr>kern := mq_close (client_queues st ! i) (kern st),
                             client_queues := (client_queues st)[i := -1]\<rparr>))
      else Inr (Ready st))"

definition dispatch_message_type :: "msg_t \<Rightarrow> mq_server \<Rightarrow> mq_result" where
  "dispatch_message_type message st =
     (case mtype message of
        INIT \<Rightarrow> handle_init_message message st
      | TEXT \<Rightarrow> handle_text_message message st
      | CLIENT_EXIT \<Rightarrow> handle_client_exit_message message st
      | _ \<Rightarrow> Inr (Ready st))"

definition boot_mq_server :: "kernel \<Rightarrow> mq_server" where
  "boot_mq_server k = \<lparr>curr_max_client_num = 0, client_queues = replicate MQ_MAX_CLIENTS (-1), kern = k\<rparr>"

text \<open>
  The loop of \<open>main\<close> on the messages it receives; between them the clients empty their boxes
  as \<open>drain\<close> says.
\<close>

fun serve_messages :: "(kernel \<Rightarrow> kernel) \<Rightarrow> msg_t list \<Rightarrow> mq_server \<Rightarrow> mq_result" where
  "serve_messages drain [] st = Inr (Ready st)"
| "serve_messages drain (m # ms) st =
     cbind (dispatch_message_type m st) (\<lambda>r.
       case r of Blocked st' \<Rightarrow> Inr (Blocked st')
       | Ready st' \<Rightarrow> serve_messages drain ms (st'\<lparr>kern := drain (kern st')\<rparr>))"

text \<open>\<open>sig_handler\<close>: every open slot is closed and the name of the server's queue removed.\<close>

definition mq_sig_handler :: "mq_server \<Rightarrow> exit_code \<times> kernel" where
  "mq_sig_handler st =
     (EXIT_SUCCESS,
      mq_unlink server_queue_name
        (fold (\<lambda>fd k. if fd \<noteq> -1 then mq_close fd k else k) (client_queues st) (kern st)))"

section \<open>\<^verbatim>\<open>client.c\<close>\<close>

text \<open>\<open>buf[strcspn(buf, "\\n")] = 0\<close>.\<close>

definition cut_newline :: "char list \<Rightarrow> char list" where
  "cut_newline buf = buf[length (takeWhile (\<lambda>c. c \<noteq> CHR 0x0A) (cstr buf)) := NUL]"

datatype input_step = Continue "char list" "char list" | Return_Loop | Send msg_t "char list" "char list"

text \<open>One iteration of \<open>handle_text_input\<close>, with the bytes \<open>buf\<close> held before.\<close>

definition text_input_step :: "int \<Rightarrow> char list \<Rightarrow> char list \<Rightarrow> input_step cres" where
  "text_input_step client_id buf inp =
     (case fgets MAX_MSG_BUF_SIZE buf inp of
        None \<Rightarrow> Inr (Continue buf inp)
      | Some (buf1, rest) \<Rightarrow>
          cbind (strlen buf1) (\<lambda>len.
            if len + 1 > MAX_MSG_BUF_SIZE then Inr (Continue buf1 rest)
            else
              let buf2 = cut_newline buf1
              in cbind (strncmp_eq buf2 (c_lit '':exit'') MAX_MSG_BUF_SIZE) (\<lambda>exit_cmd.
                   if exit_cmd then Inr Return_Loop
                   else cbind (memcpy_bytes buf2 MAX_MSG_BUF_SIZE) (\<lambda>bytes.
                     Inr (Send \<lparr>mtype = TEXT, id_of = client_id, body = bytes\<rparr> buf2 rest)))))"

text \<open>
  The loop, over the values \<open>is_running\<close> has each time it is tested, which the signal handler
  clears: the messages sent, and whether the loop has returned. The list only cuts the run;
  the loop has no bound of its own.
\<close>

fun handle_text_input :: "bool list \<Rightarrow> int \<Rightarrow> char list \<Rightarrow> char list \<Rightarrow> (msg_t list \<times> bool) cres" where
  "handle_text_input [] client_id buf inp = Inr ([], False)"
| "handle_text_input (is_running # later) client_id buf inp =
     (if \<not> is_running then Inr ([], True)
      else cbind (text_input_step client_id buf inp) (\<lambda>r.
       case r of
         Return_Loop \<Rightarrow> Inr ([], True)
       | Continue buf' rest \<Rightarrow> handle_text_input later client_id buf' rest
       | Send m buf' rest \<Rightarrow>
           cbind (handle_text_input later client_id buf' rest) (\<lambda>(ms, done). Inr (m # ms, done))))"

text \<open>What \<open>listen_for_messages\<close> prints of the messages it receives.\<close>

definition listen_for_messages :: "msg_t list \<Rightarrow> (int \<times> char list) list" where
  "listen_for_messages msgs = map (\<lambda>m. (id_of m, cstr (body m))) (filter (\<lambda>m. mtype m = TEXT) msgs)"

text \<open>\<open>CLIENT_EXIT\<close> goes out with priority 2, everything else with 1.\<close>

definition exit_message :: "int \<Rightarrow> msg_t" where
  "exit_message client_id = \<lparr>mtype = CLIENT_EXIT, id_of = client_id, body = replicate MAX_MSG_BUF_SIZE NUL\<rparr>"

section \<open>Well-formed servers\<close>

definition wf_mq_server :: "mq_server \<Rightarrow> bool" where
  "wf_mq_server st \<longleftrightarrow> wf_kernel (kern st) \<and> length (client_queues st) = MQ_MAX_CLIENTS \<and>
     curr_max_client_num st \<le> MQ_MAX_CLIENTS"

lemma send_slots_wf: "send_slots m slots k = Ready k' \<or> send_slots m slots k = Blocked k' \<Longrightarrow> wf_kernel k \<Longrightarrow> wf_kernel k'"
  by (induction m slots k rule: send_slots.induct) (auto split: if_splits option.splits dest: mq_send_wf)

text \<open>What one message does to the number of ids given out.\<close>

lemma dispatch_bounds:
  assumes "wf_mq_server st" "mtype m = INIT \<longrightarrow> curr_max_client_num st < MQ_MAX_CLIENTS"
  shows "case dispatch_message_type m st of
      Inl e \<Rightarrow> False
    | Inr (Blocked st') \<Rightarrow> True
    | Inr (Ready st') \<Rightarrow> wf_mq_server st' \<and>
        curr_max_client_num st' \<le> curr_max_client_num st + (if mtype m = INIT then 1 else 0)"
proof (cases "mtype m")
  case INIT
  obtain fd k where o: "mq_open (cstr (body m)) (kern st) = (fd, k)" by fastforce
  have "wf_kernel k" using mq_open_wf [OF _ o] assms(1) by (simp add: wf_mq_server_def)
  with INIT o assms show ?thesis
    by (auto simp: dispatch_message_type_def handle_init_message_def wf_mq_server_def Let_def
        dest: mq_send_wf split: option.splits)
next
  case TEXT
  with assms(1) show ?thesis
    by (auto simp: dispatch_message_type_def handle_text_message_def wf_mq_server_def
        dest: send_slots_wf [OF disjI1] split: progress.splits)
next
  case CLIENT_EXIT
  with assms(1) show ?thesis
    by (auto simp: dispatch_message_type_def handle_client_exit_message_def wf_mq_server_def Let_def mq_close_wf)
next
  case RECEIVE_ID
  with assms(1) show ?thesis by (simp add: dispatch_message_type_def)
qed

lemma serve_bounds:
  assumes "wf_mq_server st" "\<And>k. wf_kernel k \<Longrightarrow> wf_kernel (drain k)"
    and "curr_max_client_num st + length (filter (\<lambda>m. mtype m = INIT) ms) \<le> MQ_MAX_CLIENTS"
  shows "\<exists>r. serve_messages drain ms st = Inr r"
  using assms(1,3)
proof (induction ms arbitrary: st)
  case (Cons m ms)
  then have ok: "mtype m = INIT \<longrightarrow> curr_max_client_num st < MQ_MAX_CLIENTS" by auto
  note b = dispatch_bounds [OF Cons.prems(1) ok]
  show ?case
  proof (cases "dispatch_message_type m st")
    case (Inl e)
    with b show ?thesis by simp
  next
    case (Inr r)
    show ?thesis
    proof (cases r)
      case (Blocked st')
      with Inr show ?thesis by simp
    next
      case (Ready st')
      let ?st = "st'\<lparr>kern := drain (kern st')\<rparr>"
      have "wf_mq_server st'" and c: "curr_max_client_num st' \<le> curr_max_client_num st + (if mtype m = INIT then 1 else 0)"
        using b Inr Ready by auto
      then have "wf_mq_server ?st" using assms(2) by (simp add: wf_mq_server_def)
      moreover have "curr_max_client_num ?st + length (filter (\<lambda>m. mtype m = INIT) ms) \<le> MQ_MAX_CLIENTS"
        using c Cons.prems(2) by (auto split: if_splits)
      ultimately have "\<exists>r. serve_messages drain ms ?st = Inr r" by (rule Cons.IH)
      with Inr Ready show ?thesis by simp
    qed
  qed
qed simp

lemma boot_wf: "wf_kernel k \<Longrightarrow> wf_mq_server (boot_mq_server k)"
  by (simp add: wf_mq_server_def boot_mq_server_def)

section \<open>Broadcast\<close>

text \<open>The queues behind the registered slots.\<close>

definition slot_queues :: "int list \<Rightarrow> kernel \<Rightarrow> nat list" where
  "slot_queues slots k = map (\<lambda>fd. the (fds k fd)) (filter (\<lambda>fd. fd \<noteq> -1) slots)"

definition deliverable :: "int list \<Rightarrow> kernel \<Rightarrow> bool" where
  "deliverable slots k \<longleftrightarrow> (\<forall>fd\<in>set slots. fd \<noteq> -1 \<longrightarrow> fds k fd \<noteq> None) \<and> distinct (slot_queues slots k) \<and>
     (\<forall>q\<in>set (slot_queues slots k). length (boxes k q) < MAX_MESSAGES)"

definition received :: "msg_t \<Rightarrow> nat set \<Rightarrow> (nat \<Rightarrow> box) \<Rightarrow> nat \<Rightarrow> box" where
  "received m qs bs = (\<lambda>q. if q \<in> qs then box_insert 1 m (bs q) else bs q)"

lemma slot_queues_Cons [simp]:
  "slot_queues (fd # slots) k = (if fd = -1 then slot_queues slots k else the (fds k fd) # slot_queues slots k)"
  by (simp add: slot_queues_def)

lemma slot_queues_boxes [simp]: "slot_queues slots (k\<lparr>boxes := b\<rparr>) = slot_queues slots k"
  by (simp add: slot_queues_def)

lemma send_slots_received:
  "deliverable slots k \<Longrightarrow>
   send_slots m slots k = Ready (k\<lparr>boxes := received m (set (slot_queues slots k)) (boxes k)\<rparr>)"
proof (induction slots arbitrary: k)
  case Nil
  then show ?case by (simp add: slot_queues_def received_def)
next
  case (Cons fd slots)
  show ?case
  proof (cases "fd = -1")
    case True
    with Cons show ?thesis by (simp add: deliverable_def)
  next
    case False
    with Cons.prems obtain q where q: "fds k fd = Some q" "length (boxes k q) < MAX_MESSAGES"
      by (auto simp: deliverable_def)
    let ?k = "k\<lparr>boxes := (boxes k)(q := box_insert 1 m (boxes k q))\<rparr>"
    have new: "q \<notin> set (slot_queues slots k)" "deliverable slots ?k"
      using Cons.prems False q by (auto simp: deliverable_def)
    have "mq_send fd m 1 k = Some (0, ?k)" using q by (simp add: mq_send_def)
    moreover have "received m (set (slot_queues slots k)) (boxes ?k) =
        received m (set (slot_queues (fd # slots) k)) (boxes k)"
      using new(1) q False by (auto simp: received_def)
    ultimately show ?thesis using Cons.IH [OF new(2)] False by (simp del: fun_upd_apply)
  qed
qed

text \<open>One full box among them blocks the loop, wherever it stands.\<close>

lemma send_slots_blocked:
  assumes "fd \<in> set slots" "fd \<noteq> -1" "fds k fd = Some q" "MAX_MESSAGES \<le> length (boxes k q)"
  shows "\<exists>k'. send_slots m slots k = Blocked k'"
  using assms
proof (induction m slots k rule: send_slots.induct)
  case (2 m fd' rest k)
  have grows: "length (boxes k' q) \<ge> length (boxes k q) \<and> fds k' = fds k" if "mq_send fd' m 1 k = Some (r, k')" for r k'
    using that length_box_insert [of 1 m "boxes k q"] by (auto simp: mq_send_def split: option.splits if_splits)
  show ?case
  proof (cases "fd' = fd")
    case True
    with 2 show ?thesis by (simp add: mq_send_def)
  next
    case False
    show ?thesis
    proof (cases "fd' = -1")
      case True
      with 2 False show ?thesis by simp
    next
      case open_slot: False
      show ?thesis
      proof (cases "mq_send fd' m 1 k")
        case None
        with open_slot show ?thesis by simp
      next
        case (Some x)
        obtain r k' where x: "x = (r, k')" by fastforce
        note g = grows [OF Some [unfolded x]]
        have "\<exists>k''. send_slots m rest k' = Blocked k''"
          by (rule "2.IH"(2) [OF open_slot Some x [symmetric]]) (use 2 False g in auto)
        with open_slot Some x show ?thesis by simp
      qed
    qed
  qed
qed simp

text \<open>What has been sent when it blocks: the slots before the first full box have the message.\<close>

lemma send_slots_until_blocked:
  assumes "deliverable pre k" "fd \<noteq> -1" "fds k fd = Some q" "q \<notin> set (slot_queues pre k)"
    and "MAX_MESSAGES \<le> length (boxes k q)"
  shows "send_slots m (pre @ fd # rest) k = Blocked (k\<lparr>boxes := received m (set (slot_queues pre k)) (boxes k)\<rparr>)"
proof -
  have append: "send_slots m (slots @ slots') k =
      (case send_slots m slots k of Blocked k' \<Rightarrow> Blocked k' | Ready k' \<Rightarrow> send_slots m slots' k')" for slots slots' k
    by (induction m slots k rule: send_slots.induct) (auto split: option.split)
  show ?thesis
    using assms by (simp add: append send_slots_received mq_send_def received_def)
qed

section \<open>The client's input\<close>

lemma cut_newline_line:
  assumes "CHR 0x0A \<notin> set l" "NUL \<notin> set l"
  shows "cut_newline (l @ CHR 0x0A # NUL # r) = l @ NUL # NUL # r"
proof -
  have "cstr (l @ CHR 0x0A # NUL # r) = l @ [CHR 0x0A]"
    using assms(2) cstr_append [of "l @ [CHR 0x0A]" r] by simp
  moreover have "takeWhile (\<lambda>c. c \<noteq> CHR 0x0A) (l @ [CHR 0x0A]) = l"
    using assms(1) by (simp add: takeWhile_append)
  ultimately show ?thesis by (simp add: cut_newline_def)
qed

lemma text_input_line:
  assumes "length buf = MAX_MSG_BUF_SIZE" "CHR 0x0A \<notin> set l" "NUL \<notin> set l" "length l + 2 \<le> MAX_MSG_BUF_SIZE"
  shows "text_input_step client_id buf (l @ CHR 0x0A # rest) =
    (if l = '':exit'' then Inr Return_Loop
     else let buf' = l @ NUL # NUL # drop (length l + 2) buf
          in Inr (Send \<lparr>mtype = TEXT, id_of = client_id, body = buf'\<rparr> buf' rest))"
proof -
  let ?r = "drop (length l + 2) buf"
  let ?buf1 = "l @ CHR 0x0A # NUL # ?r" and ?buf2 = "l @ NUL # NUL # ?r"
  have "read_line (MAX_MSG_BUF_SIZE - 1) (l @ CHR 0x0A # rest) = (l @ [CHR 0x0A], rest)"
    using assms(2,4) by (intro read_line_newline) (auto simp: MAX_MSG_BUF_SIZE_def)
  then have fg: "fgets MAX_MSG_BUF_SIZE buf (l @ CHR 0x0A # rest) = Some (?buf1, rest)"
    by (simp add: fgets_def)
  have c1: "cstr ?buf1 = l @ [CHR 0x0A]" using assms(3) cstr_append [of "l @ [CHR 0x0A]" ?r] by simp
  then have len: "strlen ?buf1 = Inr (length l + 1)" by (simp add: strlen_def terminated_def)
  have lens: "length ?buf2 = MAX_MSG_BUF_SIZE" using assms(1,4) by simp
  have "cstr ?buf2 = l" using assms(3) by (simp add: cstr_append)
  moreover have "readable MAX_MSG_BUF_SIZE ?buf2" by (rule readable_length) (simp only: lens)
  moreover have "readable MAX_MSG_BUF_SIZE (c_lit '':exit'')" by (simp add: readable_terminated)
  ultimately have "strncmp_eq ?buf2 (c_lit '':exit'') MAX_MSG_BUF_SIZE =
      Inr (take MAX_MSG_BUF_SIZE l = take MAX_MSG_BUF_SIZE '':exit'')"
    by (subst strncmp_eq_readable) simp_all
  then have cmp: "strncmp_eq ?buf2 (c_lit '':exit'') MAX_MSG_BUF_SIZE = Inr (l = '':exit'')"
    using assms(4) by (simp add: MAX_MSG_BUF_SIZE_def)
  have "memcpy_bytes b (length b) = Inr b" for b by (simp add: memcpy_bytes_def)
  from this [of ?buf2] have "memcpy_bytes ?buf2 MAX_MSG_BUF_SIZE = Inr ?buf2" by (simp only: lens)
  with fg len cmp assms(4) cut_newline_line [OF assms(2,3)] show ?thesis
    by (simp add: text_input_step_def Let_def)
qed

lemma text_input_eof: "handle_text_input (replicate n True) client_id buf [] = Inr ([], False)"
  by (induction n) (simp_all add: text_input_step_def fgets_def)

section \<open>Properties\<close>

text \<open>
  C29: the slot array of the server has room for 50 registrations in all: with at most 50
  \<open>INIT\<close> messages no sequence of messages, in any order and with the clients draining their
  boxes in any way, leaves the array; once 50 clients have registered the next \<open>INIT\<close> writes
  past it, whether or not its queue opens, even if every client has left in between, because
  slots are never reused.
\<close>

theorem mq_slots_bound:
  assumes "wf_kernel k" "\<And>k. wf_kernel k \<Longrightarrow> wf_kernel (drain k)"
    and "length (filter (\<lambda>m. mtype m = INIT) ms) \<le> MQ_MAX_CLIENTS"
  shows "(\<exists>r. serve_messages drain ms (boot_mq_server k) = Inr r) \<and>
    (\<forall>st m. curr_max_client_num st = MQ_MAX_CLIENTS \<and> length (client_queues st) = MQ_MAX_CLIENTS \<and>
       mtype m = INIT \<longrightarrow> dispatch_message_type m st = Inl Oob_Write)"
  using serve_bounds [OF boot_wf [OF assms(1)] assms(2), where ms = ms] assms(3)
  by (auto simp: boot_mq_server_def dispatch_message_type_def handle_init_message_def split: prod.splits)

definition one_queue :: kernel where
  "one_queue = \<lparr>names = [''/q'' \<mapsto> 0], boxes = \<lambda>_. [], fds = Map.empty, next_fd = 3, next_queue = 1\<rparr>"

definition visit :: "nat \<Rightarrow> msg_t list" where
  "visit i = [\<lparr>mtype = INIT, id_of = -1, body = ''/q'' @ [NUL]\<rparr>,
     \<lparr>mtype = CLIENT_EXIT, id_of = int i, body = [NUL]\<rparr>]"

definition drain_all :: "kernel \<Rightarrow> kernel" where
  "drain_all k = k\<lparr>boxes := \<lambda>_. []\<rparr>"

text \<open>A server all of whose clients have left, after \<open>i\<close> registrations.\<close>

definition deserted :: "nat \<Rightarrow> mq_server \<Rightarrow> bool" where
  "deserted i st \<longleftrightarrow> curr_max_client_num st = i \<and> client_queues st = replicate MQ_MAX_CLIENTS (-1) \<and>
     names (kern st) = [''/q'' \<mapsto> 0] \<and> boxes (kern st) = (\<lambda>_. []) \<and> 0 \<le> next_fd (kern st)"

lemma replicate_update_same: "(replicate n x)[i := x] = replicate n x"
  by (induction n arbitrary: i) (auto split: nat.split)

lemma visit_step:
  assumes "deserted i st" "i < MQ_MAX_CLIENTS"
  obtains st' where "deserted (Suc i) st'"
    "\<And>ms. serve_messages drain_all (visit i @ ms) st = serve_messages drain_all ms st'"
proof -
  obtain f n nq where st: "st = \<lparr>curr_max_client_num = i, client_queues = replicate MQ_MAX_CLIENTS (-1),
      kern = \<lparr>names = [''/q'' \<mapsto> 0], boxes = \<lambda>_. [], fds = f, next_fd = n, next_queue = nq\<rparr>\<rparr>" and n: "0 \<le> n"
    using assms(1) by (cases st; cases "kern st") (simp add: deserted_def)
  let ?st = "\<lparr>curr_max_client_num = Suc i, client_queues = replicate MQ_MAX_CLIENTS (-1),
      kern = \<lparr>names = [''/q'' \<mapsto> 0], boxes = \<lambda>_. [], fds = f(n := None), next_fd = n + 1, next_queue = nq\<rparr>\<rparr>"
  have "deserted (Suc i) ?st" using n by (simp add: deserted_def)
  moreover have keep: "(replicate MQ_MAX_CLIENTS (-1))[i := -1] = replicate MQ_MAX_CLIENTS (-1 :: int)"
    by (rule replicate_update_same)
  have "serve_messages drain_all (visit i @ ms) st = serve_messages drain_all ms ?st" for ms
    using n assms(2)
    by (simp add: st visit_def dispatch_message_type_def handle_init_message_def
        handle_client_exit_message_def mq_open_def mq_send_def mq_close_def drain_all_def MAX_MESSAGES_def
        new_fd_def keep)
  ultimately show thesis by (rule that)
qed

lemma visits:
  "n \<le> MQ_MAX_CLIENTS \<Longrightarrow> deserted 0 st \<Longrightarrow>
   \<exists>st'. deserted n st' \<and> (\<forall>ms. serve_messages drain_all (concat (map visit [0..<n]) @ ms) st = serve_messages drain_all ms st')"
proof (induction n)
  case (Suc n)
  then obtain st1 where st1: "deserted n st1"
    "\<forall>ms. serve_messages drain_all (concat (map visit [0..<n]) @ ms) st = serve_messages drain_all ms st1"
    by (meson Suc_leD)
  have "n < MQ_MAX_CLIENTS" using Suc.prems(1) by simp
  with st1(1) obtain st2 where st2: "deserted (Suc n) st2"
    "\<And>ms. serve_messages drain_all (visit n @ ms) st1 = serve_messages drain_all ms st2"
    using visit_step by blast
  have "serve_messages drain_all (concat (map visit [0..<Suc n]) @ ms) st = serve_messages drain_all ms st2" for ms
    using st1(2) [rule_format, of "visit n @ ms"] st2(2) [of ms] by simp
  with st2(1) show ?case by blast
qed auto

theorem mq_slots_bound_witness:
  "(\<exists>r. serve_messages drain_all (concat (map visit [0..<50])) (boot_mq_server one_queue) = Inr r) \<and>
   serve_messages drain_all (concat (map visit [0..<51])) (boot_mq_server one_queue) = Inl Oob_Write"
proof
  have "wf_kernel one_queue" by (simp add: wf_kernel_def one_queue_def)
  moreover have "wf_kernel (drain_all k)" if "wf_kernel k" for k
    using that by (simp add: drain_all_def)
  moreover have "length (filter (\<lambda>m. mtype m = INIT) (concat (map visit [0..<50]))) \<le> MQ_MAX_CLIENTS"
    by code_simp
  ultimately show "\<exists>r. serve_messages drain_all (concat (map visit [0..<50])) (boot_mq_server one_queue) = Inr r"
    using mq_slots_bound by blast
  have "deserted 0 (boot_mq_server one_queue)"
    by (simp add: deserted_def boot_mq_server_def one_queue_def)
  then obtain st where st: "deserted 50 st"
    "serve_messages drain_all (concat (map visit [0..<50]) @ visit 50) (boot_mq_server one_queue) =
      serve_messages drain_all (visit 50) st"
    using visits [of 50 "boot_mq_server one_queue"] by (auto simp: MQ_MAX_CLIENTS_def)
  have "[0..<51] = [0..<50] @ [50::nat]" by (simp add: upt_rec)
  then have "concat (map visit [0..<51]) = concat (map visit [0..<50]) @ visit 50"
    by (simp only: map_append concat_append) simp
  moreover have "serve_messages drain_all (visit 50) st = Inl Oob_Write"
    using st(1) by (simp add: visit_def deserted_def dispatch_message_type_def handle_init_message_def
        MQ_MAX_CLIENTS_def split: prod.splits)
  ultimately show "serve_messages drain_all (concat (map visit [0..<51])) (boot_mq_server one_queue) = Inl Oob_Write"
    using st(2) by (simp only:)
qed

text \<open>
  C30: a \<open>TEXT\<close> message is put exactly once into the box of every registered client, its author
  included, and into no other; one client that does not empty its box of 10 messages blocks
  the server, and with it every client: the slots before the full one have the message
  then, and those behind it do not.
\<close>

theorem mq_broadcast:
  assumes "wf_mq_server st" "mtype m = TEXT"
    and "slots = take (curr_max_client_num st) (client_queues st)"
  shows "(deliverable slots (kern st) \<longrightarrow>
      dispatch_message_type m st =
        Inr (Ready (st\<lparr>kern := (kern st)\<lparr>boxes := received m (set (slot_queues slots (kern st))) (boxes (kern st))\<rparr>\<rparr>))) \<and>
    (\<forall>fd\<in>set slots. \<forall>q. fds (kern st) fd = Some q \<and> MAX_MESSAGES \<le> length (boxes (kern st) q) \<and>
       fd \<noteq> -1 \<longrightarrow> (\<exists>st'. dispatch_message_type m st = Inr (Blocked st'))) \<and>
    (\<forall>pre fd post q. slots = pre @ fd # post \<and> deliverable pre (kern st) \<and> fd \<noteq> -1 \<and> fds (kern st) fd = Some q \<and>
       q \<notin> set (slot_queues pre (kern st)) \<and> MAX_MESSAGES \<le> length (boxes (kern st) q) \<longrightarrow>
       dispatch_message_type m st =
         Inr (Blocked (st\<lparr>kern := (kern st)\<lparr>boxes := received m (set (slot_queues pre (kern st))) (boxes (kern st))\<rparr>\<rparr>)))"
proof -
  have sent: "dispatch_message_type m st =
      (case send_slots m slots (kern st) of
         Blocked k \<Rightarrow> Inr (Blocked (st\<lparr>kern := k\<rparr>)) | Ready k \<Rightarrow> Inr (Ready (st\<lparr>kern := k\<rparr>)))"
    using assms by (simp add: dispatch_message_type_def handle_text_message_def wf_mq_server_def)
  have "\<exists>st'. dispatch_message_type m st = Inr (Blocked st')"
    if "fd \<in> set slots" "fds (kern st) fd = Some q" "MAX_MESSAGES \<le> length (boxes (kern st) q)" "fd \<noteq> -1" for fd q
    using send_slots_blocked [OF that(1,4,2,3), of m] by (auto simp: sent)
  then show ?thesis
    by (auto simp: sent send_slots_received send_slots_until_blocked)
qed

definition two_clients :: mq_server where
  "two_clients = \<lparr>curr_max_client_num = 3, client_queues = [3, -1, 4] @ replicate 47 (-1),
     kern = \<lparr>names = [''/a'' \<mapsto> 0, ''/b'' \<mapsto> 1], boxes = \<lambda>_. [], fds = [3 \<mapsto> 0, 4 \<mapsto> 1], next_fd = 5, next_queue = 2\<rparr>\<rparr>"

theorem mq_broadcast_witness:
  "let m = \<lparr>mtype = TEXT, id_of = 0, body = [CHR ''x'', NUL]\<rparr> in
   \<exists>st. dispatch_message_type m two_clients = Inr (Ready st) \<and>
     boxes (kern st) 0 = [(1, m)] \<and> boxes (kern st) 1 = [(1, m)]"
proof -
  let ?m = "\<lparr>mtype = TEXT, id_of = 0, body = [CHR ''x'', NUL]\<rparr>"
  have "wf_mq_server two_clients"
    by (auto simp: wf_mq_server_def two_clients_def wf_kernel_def MQ_MAX_CLIENTS_def)
  moreover have "deliverable [3, -1, 4] (kern two_clients)"
    by (simp add: deliverable_def two_clients_def MAX_MESSAGES_def slot_queues_def)
  moreover have "[3, -1, 4] = take (curr_max_client_num two_clients) (client_queues two_clients)"
    by (simp add: two_clients_def)
  ultimately have "dispatch_message_type ?m two_clients =
      Inr (Ready (two_clients\<lparr>kern := (kern two_clients)\<lparr>boxes := received ?m (set (slot_queues [3, -1, 4] (kern two_clients)))
        (boxes (kern two_clients))\<rparr>\<rparr>))"
    using mq_broadcast [of two_clients ?m "[3, -1, 4]"] by simp
  then show ?thesis
    by (simp add: two_clients_def slot_queues_def received_def box_insert_def)
qed

text \<open>
  A line the user types is sent as one \<open>TEXT\<close> message that carries exactly that line, and
  \<open>:exit\<close> ends the loop. At the end of the input the loop never returns: it keeps reading
  nothing.
\<close>

theorem mq_client_input:
  assumes "length buf = MAX_MSG_BUF_SIZE" "CHR 0x0A \<notin> set l" "NUL \<notin> set l" "length l + 2 \<le> MAX_MSG_BUF_SIZE"
  shows "(l = '':exit'' \<longrightarrow> handle_text_input (True # later) client_id buf (l @ CHR 0x0A # rest) = Inr ([], True)) \<and>
    (l \<noteq> '':exit'' \<longrightarrow> (\<exists>m buf'. cstr (body m) = l \<and> mtype m = TEXT \<and> id_of m = client_id \<and> length buf' = MAX_MSG_BUF_SIZE \<and>
       handle_text_input (True # later) client_id buf (l @ CHR 0x0A # rest) =
         cbind (handle_text_input later client_id buf' rest) (\<lambda>(ms, done). Inr (m # ms, done)))) \<and>
    handle_text_input (replicate n True) client_id buf [] = Inr ([], False)"
proof (intro conjI impI)
  assume "l = '':exit''"
  with text_input_line [OF assms, of client_id rest]
  show "handle_text_input (True # later) client_id buf (l @ CHR 0x0A # rest) = Inr ([], True)" by simp
next
  assume l: "l \<noteq> '':exit''"
  let ?buf = "l @ NUL # NUL # drop (length l + 2) buf"
  have "length ?buf = MAX_MSG_BUF_SIZE" using assms(1,4) by simp
  moreover have "cstr ?buf = l" using assms(3) by (simp add: cstr_append)
  moreover have "handle_text_input (True # later) client_id buf (l @ CHR 0x0A # rest) =
      cbind (handle_text_input later client_id ?buf rest)
        (\<lambda>(ms, done). Inr (\<lparr>mtype = TEXT, id_of = client_id, body = ?buf\<rparr> # ms, done))"
    using text_input_line [OF assms, of client_id rest] l by (simp add: Let_def)
  ultimately show "\<exists>m buf'. cstr (body m) = l \<and> mtype m = TEXT \<and> id_of m = client_id \<and> length buf' = MAX_MSG_BUF_SIZE \<and>
      handle_text_input (True # later) client_id buf (l @ CHR 0x0A # rest) =
        cbind (handle_text_input later client_id buf' rest) (\<lambda>(ms, done). Inr (m # ms, done))"
    by (intro exI [of _ "\<lparr>mtype = TEXT, id_of = client_id, body = ?buf\<rparr>"] exI [of _ ?buf]) simp
qed (rule text_input_eof)

theorem mq_client_input_witness:
  "\<exists>m. cstr (body m) = ''hi'' \<and>
     handle_text_input [True, True] 7 (replicate 1024 NUL) (''hi'' @ CHR 0x0A # []) = Inr ([m], False)"
  using mq_client_input [of "replicate 1024 NUL" "''hi''" "[True]" 7 "[]"]
  by (auto simp: MAX_MSG_BUF_SIZE_def text_input_step_def fgets_def)

end
