(* ===== verification/MQ_System.thy ===== *)
theory MQ_System
  imports MQ_Chat
begin

text \<open>
  The two \<open>main\<close> functions of \<^verbatim>\<open>cw07\<close> and what they make of each other: a client creates its
  queue, announces it, is given an id, talks and leaves; the server receives one message per
  turn. The processes share the kernel; a call that blocks is \<open>None\<close>, and runs once it can.
\<close>

section \<open>The \<open>main\<close> of \<^verbatim>\<open>client.c\<close>\<close>

record mq_client =
  client_q_fd :: int
  server_q_fd :: int
  client_q_name :: "char list"

definition mq_cleanup :: "mq_client \<Rightarrow> kernel \<Rightarrow> kernel" where
  "mq_cleanup c k = mq_unlink (cstr (client_q_name c)) (mq_close (client_q_fd c) (mq_close (server_q_fd c) k))"

text \<open>Opening the two queues; \<open>buf\<close> is what the name's buffer held before.\<close>

definition client_open :: "bool \<Rightarrow> int \<Rightarrow> char list \<Rightarrow> kernel \<Rightarrow> ((exit_code + mq_client) \<times> kernel) cres" where
  "client_open allowed pid buf k =
     (let s = client_queue_name pid
      in if length buf \<le> length s then Inl Oob_Write
         else
           let name = s @ NUL # drop (length s + 1) buf; (cfd, k1) = mq_create allowed (cstr name) k
           in if cfd < 0 then Inr (Inl EXIT_FAILURE, k1)
              else
                let (sfd, k2) = mq_open server_queue_name k1
                in if sfd < 0 then Inr (Inl EXIT_FAILURE, mq_unlink (cstr name) (mq_close cfd k2))
                   else Inr (Inr \<lparr>client_q_fd = cfd, server_q_fd = sfd, client_q_name = name\<rparr>, k2))"

text \<open>The first message; a failed \<open>mq_send\<close> leaves both queues open and the name in place.\<close>

definition client_announce :: "mq_client \<Rightarrow> kernel \<Rightarrow> (exit_code option \<times> kernel) option cres" where
  "client_announce c k =
     cbind (memcpy_bytes (client_q_name c) MAX_MSG_BUF_SIZE) (\<lambda>bytes.
       Inr (case mq_send (server_q_fd c) \<lparr>mtype = INIT, id_of = -1, body = bytes\<rparr> 1 k of
              None \<Rightarrow> None
            | Some (r, k') \<Rightarrow> Some (if r < 0 then Some EXIT_FAILURE else None, k')))"

text \<open>The answer: the \<open>id\<close> of the first message of the own queue, of whatever type it is.\<close>

definition client_get_id :: "mq_client \<Rightarrow> kernel \<Rightarrow> ((exit_code + int) \<times> kernel) option" where
  "client_get_id c k =
     (case mq_receive (client_q_fd c) k of
        None \<Rightarrow> None
      | Some (None, k') \<Rightarrow> Some (Inl EXIT_FAILURE, mq_cleanup c k')
      | Some (Some id_msg, k') \<Rightarrow> Some (Inr (id_of id_msg), k'))"

text \<open>One line of \<open>handle_text_input\<close> on its way to the server.\<close>

definition client_post :: "mq_client \<Rightarrow> msg_t \<Rightarrow> kernel \<Rightarrow> kernel option" where
  "client_post c m k = map_option snd (mq_send (server_q_fd c) m 1 k)"

text \<open>One turn of the loop of \<open>listen_for_messages\<close>; \<open>old\<close> is what \<open>msg\<close> held before.\<close>

definition listen_turn :: "mq_client \<Rightarrow> msg_t \<Rightarrow> kernel \<Rightarrow> ((int \<times> char list) list \<times> msg_t \<times> kernel) option" where
  "listen_turn c old k =
     (case mq_receive (client_q_fd c) k of
        None \<Rightarrow> None
      | Some (got, k') \<Rightarrow>
          let msg = (case got of None \<Rightarrow> old | Some m \<Rightarrow> m)
          in Some (if mtype msg = TEXT then [(id_of msg, cstr (body msg))] else [], msg, k'))"

text \<open>After the input loop: the farewell, with priority 2, and the clean-up.\<close>

definition client_leave :: "mq_client \<Rightarrow> int \<Rightarrow> kernel \<Rightarrow> (exit_code \<times> kernel) option" where
  "client_leave c client_id k =
     (case mq_send (server_q_fd c) (exit_message client_id) 2 k of
        None \<Rightarrow> None
      | Some (r, k') \<Rightarrow> Some (EXIT_SUCCESS, mq_cleanup c k'))"

section \<open>The \<open>main\<close> of \<^verbatim>\<open>server.c\<close>\<close>

definition mq_server_start :: "bool \<Rightarrow> kernel \<Rightarrow> exit_code + int \<times> mq_server" where
  "mq_server_start allowed k =
     (let (queue, k1) = mq_create allowed server_queue_name k
      in if queue < 0 then Inl EXIT_FAILURE else Inr (queue, boot_mq_server k1))"

datatype mq_turn = Waiting | Stuck mq_server | Exited exit_code kernel | Served mq_server

definition server_turn :: "int \<Rightarrow> mq_server \<Rightarrow> mq_turn cres" where
  "server_turn queue st =
     (case mq_receive queue (kern st) of
        None \<Rightarrow> Inr Waiting
      | Some (None, k) \<Rightarrow> Inr (Exited EXIT_FAILURE (mq_unlink server_queue_name (mq_close queue k)))
      | Some (Some message, k) \<Rightarrow>
          cbind (dispatch_message_type message (st\<lparr>kern := k\<rparr>))
            (\<lambda>r. Inr (case r of Blocked st' \<Rightarrow> Stuck st' | Ready st' \<Rightarrow> Served st')))"

section \<open>Single calls\<close>

text \<open>The name of any process id fits the buffer.\<close>

lemma client_queue_name_length:
  assumes "in_int pid"
  shows "length (client_queue_name pid) < MAX_MSG_BUF_SIZE"
proof -
  have "length (decimal (nat \<bar>pid\<bar>)) \<le> Suc 9"
    by (rule decimal_length) (use assms in \<open>auto simp: int_range_defs\<close>)
  then show ?thesis by (auto simp: client_queue_name_def format_d_def MAX_MSG_BUF_SIZE_def)
qed

lemma mq_send_room:
  "fds k fd = Some q \<Longrightarrow> length (boxes k q) < MAX_MESSAGES \<Longrightarrow>
   mq_send fd m p k = Some (0, k\<lparr>boxes := (boxes k)(q := box_insert p m (boxes k q))\<rparr>)"
  by (simp add: mq_send_def)

lemma mq_receive_first:
  "fds k fd = Some q \<Longrightarrow> boxes k q = (p, m) # b \<Longrightarrow> mq_receive fd k = Some (Some m, k\<lparr>boxes := (boxes k)(q := b)\<rparr>)"
  by (simp add: mq_receive_def)

text \<open>Client \<open>c\<close> holds slot \<open>i\<close>: slot and client lead to the same queue, which is not the server's.\<close>

definition registered :: "nat \<Rightarrow> mq_client \<Rightarrow> nat \<Rightarrow> mq_server \<Rightarrow> bool" where
  "registered Q c i st \<longleftrightarrow> i < curr_max_client_num st \<and> fds (kern st) (server_q_fd c) = Some Q \<and>
     (\<exists>q. fds (kern st) (client_queues st ! i) = Some q \<and> fds (kern st) (client_q_fd c) = Some q \<and> q \<noteq> Q)"

text \<open>What is left of opening the queues when nothing stands in the way.\<close>

lemma client_open_success:
  assumes wf: "wf_kernel k" and Q: "names k server_queue_name = Some Q"
    and pid: "names k (client_queue_name pid) = None" "in_int pid" and buf: "length buf = MAX_MSG_BUF_SIZE"
  defines "name \<equiv> client_queue_name pid" and "q \<equiv> next_queue k" and "f \<equiv> next_fd k"
  shows "client_open True pid buf k =
    Inr (Inr \<lparr>client_q_fd = f, server_q_fd = f + 1, client_q_name = name @ NUL # drop (length name + 1) buf\<rparr>,
      k\<lparr>names := (names k)(name \<mapsto> q), boxes := (boxes k)(q := []), fds := (fds k)(f \<mapsto> q, f + 1 \<mapsto> Q),
        next_fd := f + 2, next_queue := q + 1\<rparr>)"
  using assms client_queue_name_length [OF pid(2)] client_queue_name_NUL [of pid] client_not_server_queue [of pid]
  by (simp add: client_open_def Let_def mq_create_def mq_open_def new_fd_def cstr_append wf_kernel_def)

lemma client_announce_success:
  assumes "length (client_q_name c) = MAX_MSG_BUF_SIZE" "fds k (server_q_fd c) = Some Q" "length (boxes k Q) < MAX_MESSAGES"
  shows "client_announce c k = Inr (Some (None,
    k\<lparr>boxes := (boxes k)(Q := box_insert 1 \<lparr>mtype = INIT, id_of = -1, body = client_q_name c\<rparr> (boxes k Q))\<rparr>))"
  using assms by (simp add: client_announce_def memcpy_bytes_def mq_send_room)

text \<open>A turn of the server that finds \<open>m\<close> first in its queue.\<close>

lemma server_turn_first:
  assumes "fds (kern st) queue = Some Q" "boxes (kern st) Q = (p, m) # b"
  shows "server_turn queue st =
    cbind (dispatch_message_type m (st\<lparr>kern := (kern st)\<lparr>boxes := (boxes (kern st))(Q := b)\<rparr>\<rparr>))
      (\<lambda>r. Inr (case r of Blocked st' \<Rightarrow> Stuck st' | Ready st' \<Rightarrow> Served st'))"
  using assms by (simp add: server_turn_def mq_receive_first)

lemma init_dispatch:
  assumes "names (kern st) (cstr (body m)) = Some q" "mtype m = INIT" "boxes (kern st) q = []"
    "curr_max_client_num st < length (client_queues st)" "0 \<le> next_fd (kern st)"
  defines "i \<equiv> curr_max_client_num st" and "f \<equiv> next_fd (kern st)"
  shows "dispatch_message_type m st = Inr (Ready (st\<lparr>curr_max_client_num := i + 1,
      client_queues := (client_queues st)[i := f],
      kern := (kern st)\<lparr>fds := (fds (kern st))(f \<mapsto> q), next_fd := f + 1,
        boxes := (boxes (kern st))(q := [(1, \<lparr>mtype = RECEIVE_ID, id_of = int i, body = replicate MAX_MSG_BUF_SIZE NUL\<rparr>)])\<rparr>\<rparr>))"
  using assms
  by (simp add: dispatch_message_type_def handle_init_message_def mq_open_def new_fd_def Let_def mq_send_def
      MAX_MESSAGES_def box_insert_def)

section \<open>Properties\<close>

text \<open>
  C17: a client that finds the server waiting and no queue of its own name gets into its own
  queue, as the answer to its first message, the number of the slot in which the server has
  put the descriptor of that very queue; the other slots keep theirs.
\<close>

theorem mq_registration:
  assumes "wf_mq_server st" "curr_max_client_num st < MQ_MAX_CLIENTS"
    and "fds (kern st) queue = Some Q" "names (kern st) server_queue_name = Some Q" "boxes (kern st) Q = []"
    and "names (kern st) (client_queue_name pid) = None" "in_int pid" "length buf = MAX_MSG_BUF_SIZE"
  shows "\<exists>c k1 k2 st' k3.
    client_open True pid buf (kern st) = Inr (Inr c, k1) \<and>
    client_announce c k1 = Inr (Some (None, k2)) \<and>
    server_turn queue (st\<lparr>kern := k2\<rparr>) = Inr (Served st') \<and>
    client_get_id c (kern st') = Some (Inr (int (curr_max_client_num st)), k3) \<and>
    registered Q c (curr_max_client_num st) (st'\<lparr>kern := k3\<rparr>) \<and>
    curr_max_client_num st' = Suc (curr_max_client_num st) \<and>
    (\<forall>i. i \<noteq> curr_max_client_num st \<longrightarrow> client_queues st' ! i = client_queues st ! i) \<and>
    boxes k3 Q = []"
proof -
  let ?k = "kern st" let ?i = "curr_max_client_num st" let ?n = "client_queue_name pid"
  let ?q = "next_queue ?k" and ?f = "next_fd ?k"
  let ?name = "?n @ NUL # drop (length ?n + 1) buf"
  let ?c = "\<lparr>client_q_fd = ?f, server_q_fd = ?f + 1, client_q_name = ?name\<rparr>"
  let ?m = "\<lparr>mtype = INIT, id_of = -1, body = ?name\<rparr>"
  let ?k1 = "?k\<lparr>names := (names ?k)(?n \<mapsto> ?q), boxes := (boxes ?k)(?q := []), fds := (fds ?k)(?f \<mapsto> ?q, ?f + 1 \<mapsto> Q),
      next_fd := ?f + 2, next_queue := ?q + 1\<rparr>"
  let ?k2 = "?k1\<lparr>boxes := (boxes ?k1)(Q := [(1, ?m)])\<rparr>"
  let ?id = "\<lparr>mtype = RECEIVE_ID, id_of = int ?i, body = replicate MAX_MSG_BUF_SIZE NUL\<rparr>"
  let ?st = "st\<lparr>curr_max_client_num := ?i + 1, client_queues := (client_queues st)[?i := ?f + 2],
      kern := ?k1\<lparr>fds := (fds ?k1)(?f + 2 \<mapsto> ?q), next_fd := ?f + 3, boxes := (boxes ?k)(?q := [(1, ?id)])\<rparr>\<rparr>"
  have wf: "wf_kernel ?k" "?i < length (client_queues st)" using assms(1,2) by (simp_all add: wf_mq_server_def)
  then have Q: "Q \<noteq> ?q" "queue < ?f" "0 \<le> ?f" using assms(3) by (auto simp: wf_kernel_def)
  have len: "length ?name = MAX_MSG_BUF_SIZE" using client_queue_name_length [OF assms(7)] assms(8) by simp
  have name: "cstr ?name = ?n" using client_queue_name_NUL [of pid] by (simp add: cstr_append)
  have 1: "client_open True pid buf ?k = Inr (Inr ?c, ?k1)"
    using client_open_success [OF wf(1) assms(4,6-8)] by simp
  have 2: "client_announce ?c ?k1 = Inr (Some (None, ?k2))"
    using client_announce_success [of ?c ?k1 Q] len Q assms(5) by (simp add: MAX_MESSAGES_def box_insert_def)
  have 3: "server_turn queue (st\<lparr>kern := ?k2\<rparr>) = Inr (Served ?st)"
    using Q assms(3,5) wf(2) name
    by (simp add: server_turn_first [where Q = Q and p = 1 and m = ?m and b = "[]"] init_dispatch [where q = ?q]
        fun_upd_twist fun_upd_idem)
  let ?k3 = "kern ?st\<lparr>boxes := (boxes (kern ?st))(?q := [])\<rparr>"
  have 4: "client_get_id ?c (kern ?st) = Some (Inr (int ?i), ?k3)"
    using Q by (simp add: client_get_id_def mq_receive_first [where q = ?q])
  have 5: "registered Q ?c ?i (?st\<lparr>kern := ?k3\<rparr>)" using Q wf(2) by (simp add: registered_def)
  have 6: "\<forall>i. i \<noteq> ?i \<longrightarrow> client_queues ?st ! i = client_queues st ! i" by simp
  have 7: "boxes ?k3 Q = []" using assms(5) Q by simp
  have 8: "curr_max_client_num ?st = Suc ?i" by simp
  show ?thesis using 1 2 3 4 5 6 7 8 by blast
qed

definition waiting_server :: mq_server where
  "waiting_server = boot_mq_server
     \<lparr>names = [server_queue_name \<mapsto> 0], boxes = \<lambda>_. [], fds = [3 \<mapsto> 0], next_fd = 4, next_queue = 1\<rparr>"

theorem mq_registration_witness:
  "\<exists>c k1 k2 st' k3.
    client_open True 7 (replicate 1024 NUL) (kern waiting_server) = Inr (Inr c, k1) \<and>
    client_announce c k1 = Inr (Some (None, k2)) \<and>
    server_turn 3 (waiting_server\<lparr>kern := k2\<rparr>) = Inr (Served st') \<and>
    client_get_id c (kern st') = Some (Inr 0, k3) \<and> registered 0 c 0 (st'\<lparr>kern := k3\<rparr>)"
proof -
  have "wf_mq_server waiting_server" "curr_max_client_num waiting_server < MQ_MAX_CLIENTS"
    "fds (kern waiting_server) 3 = Some 0" "names (kern waiting_server) server_queue_name = Some 0"
    "boxes (kern waiting_server) 0 = []" "names (kern waiting_server) (client_queue_name 7) = None" "in_int 7"
    "length (replicate 1024 NUL) = MAX_MSG_BUF_SIZE"
    using client_not_server_queue [of 7]
    by (simp_all add: waiting_server_def boot_mq_server_def wf_mq_server_def wf_kernel_def MQ_MAX_CLIENTS_def
        MAX_MSG_BUF_SIZE_def int_range_defs)
  from mq_registration [OF this] show ?thesis
    by (auto simp: waiting_server_def boot_mq_server_def)
qed

text \<open>
  C19: the farewell overtakes every text that waits in the server's queue: the next turn of the
  server clears exactly the slot of the client that leaves, the waiting texts still wait
  (those of the client itself too), and the name of its queue is free again.
\<close>

theorem mq_departure:
  assumes "wf_mq_server st" "registered Q c i st" "fds (kern st) queue = Some Q"
    and "queue \<noteq> client_q_fd c" "queue \<noteq> server_q_fd c"
    and "\<forall>(p, m)\<in>set (boxes (kern st) Q). p = 1" "length (boxes (kern st) Q) < MAX_MESSAGES"
  shows "\<exists>k1 st'. client_leave c (int i) (kern st) = Some (EXIT_SUCCESS, k1) \<and>
    server_turn queue (st\<lparr>kern := k1\<rparr>) = Inr (Served st') \<and>
    client_queues st' = (client_queues st)[i := -1] \<and> boxes (kern st') = boxes (kern st) \<and>
    names (kern st') = (names (kern st))(cstr (client_q_name c) := None)"
proof -
  let ?k = "kern st" let ?b = "boxes ?k Q"
  let ?k1 = "mq_cleanup c (?k\<lparr>boxes := (boxes ?k)(Q := (2, exit_message (int i)) # ?b)\<rparr>)"
  have "\<forall>(p, m)\<in>set ?b. p < 2" using assms(6) by auto
  note first = box_insert_first [OF this, of "exit_message (int i)"]
  have 1: "client_leave c (int i) ?k = Some (EXIT_SUCCESS, ?k1)"
    using assms(2,7) first by (simp add: client_leave_def mq_send_room [where q = Q] registered_def)
  have i: "int i < int MQ_MAX_CLIENTS" using assms(1,2) by (simp add: registered_def wf_mq_server_def)
  have 2: "fds ?k1 queue = Some Q" "boxes ?k1 Q = (2, exit_message (int i)) # ?b"
    using assms(3-5) by (simp_all add: mq_cleanup_def mq_unlink_def mq_close_def)
  let ?st = "st\<lparr>client_queues := (client_queues st)[i := -1],
      kern := mq_close (client_queues st ! i) (?k1\<lparr>boxes := boxes ?k\<rparr>)\<rparr>"
  have "boxes ?k1 = (boxes ?k)(Q := (2, exit_message (int i)) # ?b)"
    by (simp add: mq_cleanup_def mq_unlink_def mq_close_def)
  then have 3: "server_turn queue (st\<lparr>kern := ?k1\<rparr>) = Inr (Served ?st)"
    using 2 i by (simp add: server_turn_first dispatch_message_type_def handle_client_exit_message_def exit_message_def)
  have 4: "names (kern ?st) = (names ?k)(cstr (client_q_name c) := None)" "boxes (kern ?st) = boxes ?k"
    by (simp_all add: mq_cleanup_def mq_unlink_def mq_close_def)
  have 5: "client_queues ?st = (client_queues st)[i := -1]" by simp
  show ?thesis using 1 3 4 5 by blast
qed

text \<open>A server with one client, which holds slot 0.\<close>

definition sole_client :: mq_client where
  "sole_client = \<lparr>client_q_fd = 4, server_q_fd = 5, client_q_name = ''/q'' @ [NUL]\<rparr>"

definition sole_server :: mq_server where
  "sole_server = \<lparr>curr_max_client_num = 1, client_queues = 6 # replicate 49 (-1),
     kern = \<lparr>names = [server_queue_name \<mapsto> 0, ''/q'' \<mapsto> 1], boxes = \<lambda>_. [], fds = [3 \<mapsto> 0, 4 \<mapsto> 1, 5 \<mapsto> 0, 6 \<mapsto> 1],
       next_fd = 7, next_queue = 2\<rparr>\<rparr>"

lemma sole_server_wf: "wf_mq_server sole_server" "registered 0 sole_client 0 sole_server"
  by (auto simp: sole_server_def sole_client_def wf_mq_server_def wf_kernel_def registered_def MQ_MAX_CLIENTS_def)

theorem mq_departure_witness:
  "\<exists>k1 st'. client_leave sole_client 0 (kern sole_server) = Some (EXIT_SUCCESS, k1) \<and>
    server_turn 3 (sole_server\<lparr>kern := k1\<rparr>) = Inr (Served st') \<and> client_queues st' = replicate 50 (-1)"
proof -
  have "fds (kern sole_server) 3 = Some 0" "3 \<noteq> client_q_fd sole_client" "3 \<noteq> server_q_fd sole_client"
    "\<forall>(p, m)\<in>set (boxes (kern sole_server) 0). p = 1" "length (boxes (kern sole_server) 0) < MAX_MESSAGES"
    by (simp_all add: sole_server_def sole_client_def MAX_MESSAGES_def)
  moreover have "(client_queues sole_server)[0 := -1] = replicate 50 (-1)"
    by (simp add: sole_server_def numeral_eq_Suc)
  ultimately show ?thesis using mq_departure [OF sole_server_wf, of 3] by auto
qed

text \<open>
  C18: a line that a registered client types is printed, under that client's id, by every
  registered client that waits for a message, the author included; one turn of the server is
  enough.
\<close>

theorem mq_line_is_printed:
  assumes "wf_mq_server st" "fds (kern st) queue = Some Q" "boxes (kern st) Q = []"
    and "slots = take (curr_max_client_num st) (client_queues st)"
    and "deliverable slots (kern st)" "Q \<notin> set (slot_queues slots (kern st))" "registered Q c i st"
    and "length buf = MAX_MSG_BUF_SIZE" "CHR 0x0A \<notin> set l" "NUL \<notin> set l" "length l + 2 \<le> MAX_MSG_BUF_SIZE"
    and "l \<noteq> '':exit''"
  shows "\<exists>m buf' k1 st'.
    text_input_step (int i) buf (l @ CHR 0x0A # rest) = Inr (Send m buf' rest) \<and>
    client_post c m (kern st) = Some k1 \<and>
    server_turn queue (st\<lparr>kern := k1\<rparr>) = Inr (Served st') \<and>
    (\<forall>d j q old. registered Q d j st \<and> fds (kern st) (client_q_fd d) = Some q \<and> boxes (kern st) q = [] \<longrightarrow>
       (\<exists>k2. listen_turn d old (kern st') = Some ([(int i, l)], m, k2)))"
proof -
  let ?k = "kern st" let ?buf = "l @ NUL # NUL # drop (length l + 2) buf"
  let ?m = "\<lparr>mtype = TEXT, id_of = int i, body = ?buf\<rparr>" let ?qs = "set (slot_queues slots ?k)"
  let ?k1 = "?k\<lparr>boxes := (boxes ?k)(Q := [(1, ?m)])\<rparr>"
  let ?st = "st\<lparr>kern := ?k\<lparr>boxes := received ?m ?qs (boxes ?k)\<rparr>\<rparr>"
  have 1: "text_input_step (int i) buf (l @ CHR 0x0A # rest) = Inr (Send ?m ?buf rest)"
    using text_input_line [OF assms(8-11), of "int i" rest] assms(12) by (simp add: Let_def)
  have 2: "client_post c ?m ?k = Some ?k1"
    using assms(3,7) by (simp add: client_post_def mq_send_room [where q = Q] registered_def MAX_MESSAGES_def box_insert_def)
  have "(boxes ?k)(Q := []) = boxes ?k" using assms(3) by (simp add: fun_upd_idem)
  then have 3: "server_turn queue (st\<lparr>kern := ?k1\<rparr>) = Inr (Served ?st)"
    using assms(1,2,4) send_slots_received [OF assms(5), of ?m]
    by (simp add: server_turn_first [where Q = Q and p = 1 and m = ?m and b = "[]"] dispatch_message_type_def
        handle_text_message_def wf_mq_server_def)
  have l: "cstr ?buf = l" using assms(10) by (simp add: cstr_append)
  have 4: "listen_turn d old (kern ?st) = Some ([(int i, l)], ?m, kern ?st\<lparr>boxes := (boxes (kern ?st))(q := [])\<rparr>)"
    if d: "registered Q d j st" "fds ?k (client_q_fd d) = Some q" "boxes ?k q = []" for d j q old
  proof -
    have "fds ?k (-1) = None" using wf_kernel_minus [of ?k] assms(1) by (simp add: wf_mq_server_def)
    then have "client_queues st ! j \<in> set slots" "fds ?k (client_queues st ! j) = Some q" "client_queues st ! j \<noteq> -1"
      using d assms(1) by (auto simp: registered_def assms(4) wf_mq_server_def in_set_conv_nth)
    then have "q \<in> ?qs" by (force simp: slot_queues_def)
    then have "boxes (kern ?st) q = [(1, ?m)]" using d(3) by (simp add: received_def box_insert_def)
    then show ?thesis using d(2) l by (simp add: listen_turn_def mq_receive_first [where q = q])
  qed
  show ?thesis using 1 2 3 4 by blast
qed

theorem mq_line_is_printed_witness:
  "\<exists>m buf' k1 st' k2.
    text_input_step 0 (replicate 1024 NUL) (''hi'' @ [CHR 0x0A]) = Inr (Send m buf' []) \<and>
    client_post sole_client m (kern sole_server) = Some k1 \<and>
    server_turn 3 (sole_server\<lparr>kern := k1\<rparr>) = Inr (Served st') \<and>
    listen_turn sole_client m (kern st') = Some ([(0, ''hi'')], m, k2)"
proof -
  have s: "fds (kern sole_server) 3 = Some 0" "boxes (kern sole_server) 0 = []"
    "[6] = take (curr_max_client_num sole_server) (client_queues sole_server)"
    "deliverable [6] (kern sole_server)" "0 \<notin> set (slot_queues [6] (kern sole_server))"
    "fds (kern sole_server) (client_q_fd sole_client) = Some 1" "boxes (kern sole_server) 1 = []"
    by (simp_all add: sole_server_def sole_client_def deliverable_def slot_queues_def MAX_MESSAGES_def)
  have l: "length (replicate 1024 NUL) = MAX_MSG_BUF_SIZE" "CHR 0x0A \<notin> set ''hi''" "NUL \<notin> set ''hi''"
    "length ''hi'' + 2 \<le> MAX_MSG_BUF_SIZE" "''hi'' \<noteq> '':exit''" by (simp_all add: MAX_MSG_BUF_SIZE_def)
  obtain m buf' k1 st' where
    "text_input_step (int 0) (replicate 1024 NUL) (''hi'' @ CHR 0x0A # []) = Inr (Send m buf' [])"
    "client_post sole_client m (kern sole_server) = Some k1"
    "server_turn 3 (sole_server\<lparr>kern := k1\<rparr>) = Inr (Served st')"
    "\<exists>k2. listen_turn sole_client m (kern st') = Some ([(int 0, ''hi'')], m, k2)"
    using mq_line_is_printed [OF sole_server_wf(1) s(1-5) sole_server_wf(2) l, of "[]"] sole_server_wf(2) s(6,7)
    by blast
  then show ?thesis unfolding semiring_1_class.of_nat_0 by blast
qed

text \<open>
  C39: the name of a client's queue is made of its process id, and the queue is opened without
  \<open>O_EXCL\<close>: if a process of the same id has left its queue behind (as \<open>main\<close> does where
  \<open>fork\<close> or the first \<open>mq_send\<close> fails), the new client takes for its id whatever the
  first message left there says, before the server has answered at all; when it leaves, the
  server clears the slot of that number, whoever holds it.
\<close>

theorem mq_stale_queue:
  assumes "wf_kernel k" "names k server_queue_name = Some Q" "length (boxes k Q) < MAX_MESSAGES"
    and "names k (client_queue_name pid) = Some q" "boxes k q = (p, old) # b" "q \<noteq> Q"
    and "in_int pid" "length buf = MAX_MSG_BUF_SIZE" "wf_mq_server st" "0 \<le> id_of old" "id_of old < int MQ_MAX_CLIENTS"
  shows "(\<exists>c k1 k2 k3. client_open allowed pid buf k = Inr (Inr c, k1) \<and>
      client_announce c k1 = Inr (Some (None, k2)) \<and> client_get_id c k2 = Some (Inr (id_of old), k3)) \<and>
    (\<exists>st'. dispatch_message_type (exit_message (id_of old)) st = Inr (Ready st') \<and>
      client_queues st' = (client_queues st)[nat (id_of old) := -1])"
proof -
  let ?n = "client_queue_name pid" let ?f = "next_fd k"
  let ?name = "?n @ NUL # drop (length ?n + 1) buf"
  let ?c = "\<lparr>client_q_fd = ?f, server_q_fd = ?f + 1, client_q_name = ?name\<rparr>"
  let ?k1 = "k\<lparr>fds := (fds k)(?f \<mapsto> q, ?f + 1 \<mapsto> Q), next_fd := ?f + 2\<rparr>"
  let ?k2 = "?k1\<lparr>boxes := (boxes k)(Q := box_insert 1 \<lparr>mtype = INIT, id_of = -1, body = ?name\<rparr> (boxes k Q))\<rparr>"
  have f: "0 \<le> ?f" using assms(1) by (simp add: wf_kernel_def)
  have name: "cstr ?name = ?n" using client_queue_name_NUL [of pid] by (simp add: cstr_append)
  have len: "length ?name = MAX_MSG_BUF_SIZE" using client_queue_name_length [OF assms(7)] assms(8) by simp
  have "client_open allowed pid buf k = Inr (Inr ?c, ?k1)"
    using assms(2,4,8) f name client_queue_name_length [OF assms(7)]
    by (simp add: client_open_def Let_def mq_create_def mq_open_def new_fd_def)
  moreover have "client_announce ?c ?k1 = Inr (Some (None, ?k2))"
    using client_announce_success [of ?c ?k1 Q] len assms(3) by simp
  moreover have "client_get_id ?c ?k2 = Some (Inr (id_of old), ?k2\<lparr>boxes := (boxes ?k2)(q := b)\<rparr>)"
    using assms(5,6) by (simp add: client_get_id_def mq_receive_first [where q = q])
  moreover have "dispatch_message_type (exit_message (id_of old)) st =
      Inr (Ready (st\<lparr>kern := mq_close (client_queues st ! nat (id_of old)) (kern st),
        client_queues := (client_queues st)[nat (id_of old) := -1]\<rparr>))"
    using assms(10,11) by (simp add: dispatch_message_type_def handle_client_exit_message_def exit_message_def Let_def)
  ultimately show ?thesis by fastforce
qed

definition leftover :: kernel where
  "leftover = \<lparr>names = [server_queue_name \<mapsto> 0, client_queue_name 7 \<mapsto> 1],
     boxes = (\<lambda>q. if q = 1 then [(1, \<lparr>mtype = TEXT, id_of = 4, body = [NUL]\<rparr>)] else []),
     fds = [3 \<mapsto> 0], next_fd = 4, next_queue = 2\<rparr>"

theorem mq_stale_queue_witness:
  "\<exists>c k1 k2 k3. client_open True 7 (replicate 1024 NUL) leftover = Inr (Inr c, k1) \<and>
     client_announce c k1 = Inr (Some (None, k2)) \<and> client_get_id c k2 = Some (Inr 4, k3)"
proof -
  have "wf_kernel leftover" "names leftover server_queue_name = Some 0" "length (boxes leftover 0) < MAX_MESSAGES"
    "names leftover (client_queue_name 7) = Some 1" "boxes leftover 1 = (1, \<lparr>mtype = TEXT, id_of = 4, body = [NUL]\<rparr>) # []"
    "1 \<noteq> (0 :: nat)" "in_int 7" "length (replicate 1024 NUL) = MAX_MSG_BUF_SIZE"
    using client_not_server_queue [of 7]
    by (auto simp: leftover_def wf_kernel_def MAX_MESSAGES_def MAX_MSG_BUF_SIZE_def int_range_defs)
  from mq_stale_queue [OF this sole_server_wf(1)] show ?thesis by (simp add: MQ_MAX_CLIENTS_def)
qed

end
