(* ===== verification/Integral.thy ===== *)
theory Integral
  imports Complex_Main Partition
begin

text \<open>
  The two integrators of \<^verbatim>\<open>cw06\<close>: \<^verbatim>\<open>zad1\<close> splits the Riemann sum for \<open>\<pi>\<close> among forked processes
  that answer through pipes, \<^verbatim>\<open>zad2\<close> serves ranges through named pipes. Every floating-point
  operation is the exact one followed by a rounding \<open>rnd\<close>, a parameter; the error bounds are
  those of the method, with \<open>rnd\<close> the identity.
\<close>

section \<open>\<^verbatim>\<open>cw06/zad1/main.c\<close>\<close>

definition range_start :: real where "range_start = 0"
definition range_stop :: real where "range_stop = 1"

text \<open>The loop of \<open>calculate_part\<close> from iteration \<open>i\<close>.\<close>

function area_loop :: "(real \<Rightarrow> real) \<Rightarrow> real \<Rightarrow> real \<Rightarrow> int \<Rightarrow> int \<Rightarrow> real \<Rightarrow> real" where
  "area_loop rnd start dx steps i area =
     (if i < steps then
        let x = rnd (start + rnd (rnd (of_int i) * dx));
            fx = rnd (4 / rnd (rnd (x * x) + 1))
        in area_loop rnd start dx steps (i + 1) (rnd (area + rnd (fx * dx)))
      else area)"
  by auto
termination by (relation "measure (\<lambda>(rnd, start, dx, steps, i, area). nat (steps - i))") auto

declare area_loop.simps [simp del]

definition calculate_part :: "(real \<Rightarrow> real) \<Rightarrow> real \<Rightarrow> real \<Rightarrow> int \<Rightarrow> real" where
  "calculate_part rnd start dx steps = area_loop rnd start dx steps 0 0"

text \<open>What child \<open>i\<close> computes and writes to its pipe.\<close>

definition part_steps :: "int \<Rightarrow> int \<Rightarrow> int \<Rightarrow> int" where
  "part_steps n_processes n_intervals i =
     (let steps_per_process = n_intervals sdiv n_processes
      in if i = n_processes - 1 then steps_per_process + n_intervals smod n_processes else steps_per_process)"

definition child_result :: "(real \<Rightarrow> real) \<Rightarrow> int \<Rightarrow> int \<Rightarrow> real \<Rightarrow> int \<Rightarrow> real" where
  "child_result rnd n_processes n_intervals dx i =
     (let steps_per_process = n_intervals sdiv n_processes
      in calculate_part rnd (rnd (range_start + rnd (rnd (of_int (i * steps_per_process)) * dx))) dx
           (part_steps n_processes n_intervals i))"

text \<open>
  \<open>fork_ok i\<close>: the \<open>i\<close>-th \<open>fork\<close> succeeds. A failure ends the distribution; otherwise pipe
  \<open>i\<close> gets the result of child \<open>i\<close>.
\<close>

fun fork_children :: "(int \<Rightarrow> bool) \<Rightarrow> (int \<Rightarrow> real) \<Rightarrow> int list \<Rightarrow> real list option" where
  "fork_children fork_ok child [] = Some []"
| "fork_children fork_ok child (i # is) =
     (if \<not> fork_ok i then None else map_option ((#) (child i)) (fork_children fork_ok child is))"

definition distribute_calculations ::
    "(real \<Rightarrow> real) \<Rightarrow> (int \<Rightarrow> bool) \<Rightarrow> int \<Rightarrow> int \<Rightarrow> real \<Rightarrow> real list option" where
  "distribute_calculations rnd fork_ok n_processes n_intervals dx =
     fork_children fork_ok (child_result rnd n_processes n_intervals dx) [0..n_processes - 1]"

text \<open>
  What the system answers to the calls of the program: \<open>pipe\<close>, \<open>fork\<close>, the \<open>write\<close> of child
  \<open>i\<close>, the \<open>read\<close> of its pipe, the two times as seconds and microseconds, the report file.
  \<open>format_lf\<close> is what \<open>%.10lf\<close> prints, \<open>strtod\<close> the conversion of the C library.
\<close>

record pi_env =
  pipe_ok :: "int \<Rightarrow> bool"
  fork_ok :: "int \<Rightarrow> bool"
  write_ok :: "int \<Rightarrow> bool"
  read_ok :: "int \<Rightarrow> bool"
  start_time :: "int \<times> int"
  end_time :: "int \<times> int"
  fopen_ok :: bool
  fprintf_ok :: bool
  fclose_ok :: bool
  format_lf :: "real \<Rightarrow> string"
  strtod :: "string \<Rightarrow> real"

text \<open>
  The loop of \<open>main\<close> that reads the pipes. A child that could not write leaves an empty pipe:
  \<open>read\<close> returns 0 and \<open>result\<close> keeps its 0.
\<close>

fun sum_results :: "(real \<Rightarrow> real) \<Rightarrow> pi_env \<Rightarrow> (int \<times> real) list \<Rightarrow> real \<Rightarrow> real option" where
  "sum_results rnd env [] acc = Some acc"
| "sum_results rnd env ((i, r) # rest) acc =
     (if \<not> read_ok env i then None
      else let result = (if write_ok env i then r else 0) in sum_results rnd env rest (rnd (acc + result)))"

text \<open>\<open>write_time_to_file\<close>: its result and the file, which the line joins when all goes well.\<close>

definition write_time_to_file :: "pi_env \<Rightarrow> real \<Rightarrow> real \<Rightarrow> int \<Rightarrow> string \<Rightarrow> int \<times> string" where
  "write_time_to_file env elapsed_time dx n_processes file =
     (let line = ''dx: '' @ format_lf env dx @ '', n: '' @ format_d n_processes @ '', time: '' @
            format_lf env elapsed_time @ [CHR 0x0A]
      in if \<not> fopen_ok env then (-1, file)
         else if \<not> fprintf_ok env then (-1, file)
         else if \<not> fclose_ok env then (-1, file)
         else (0, file @ line))"

definition time_taken :: "(real \<Rightarrow> real) \<Rightarrow> pi_env \<Rightarrow> real" where
  "time_taken rnd env =
     (let t = rnd (of_int (fst (end_time env) - fst (start_time env)) * 1000000)
      in rnd (rnd (t + of_int (snd (end_time env) - snd (start_time env))) * rnd (1 / 1000000)))"

text \<open>
  \<open>main\<close>: the exit code, the result it prints, the report file after the run. The conversion of
  a \<open>double\<close> that does not fit to \<open>long\<close> is undefined.
\<close>

definition pi_main ::
    "(real \<Rightarrow> real) \<Rightarrow> pi_env \<Rightarrow> string list \<Rightarrow> string \<Rightarrow> (exit_code \<times> real option \<times> string) cres" where
  "pi_main rnd env argv file =
     (if length argv \<noteq> 3 then Inr (EXIT_FAILURE, None, file)
      else
        let dx = strtod env (argv ! 1); n_processes = fst (strtol10 (argv ! 2))
        in if n_processes \<le> 0 then Inr (EXIT_FAILURE, None, file)
           else if dx \<le> 0 then Inr (EXIT_FAILURE, None, file)
           else cbind (c_long \<lceil>rnd (rnd (range_stop - range_start) / dx)\<rceil>) (\<lambda>n_intervals.
             if n_intervals < n_processes then Inr (EXIT_FAILURE, None, file)
             else if \<not> list_all (pipe_ok env) [0..n_processes - 1] then Inr (EXIT_FAILURE, None, file)
             else case distribute_calculations rnd (fork_ok env) n_processes n_intervals dx of
                    None \<Rightarrow> Inr (EXIT_FAILURE, None, file)
                  | Some results \<Rightarrow>
                      (case sum_results rnd env (zip [0..n_processes - 1] results) 0 of
                         None \<Rightarrow> Inr (EXIT_FAILURE, None, file)
                       | Some acc \<Rightarrow>
                           Inr (EXIT_SUCCESS, Some acc, snd (write_time_to_file env (time_taken rnd env) dx n_processes file)))))"

text \<open>The exit code of child \<open>i\<close>, which runs the code of the parent when its \<open>write\<close> fails.\<close>

definition child_exit :: "pi_env \<Rightarrow> int \<Rightarrow> exit_code" where
  "child_exit env i = (if write_ok env i then EXIT_SUCCESS else EXIT_FAILURE)"

section \<open>\<^verbatim>\<open>cw06/zad2\<close>\<close>

record range_info =
  r_start :: real
  r_stop :: real
  n_intervals_of :: int

function integral_loop :: "(real \<Rightarrow> real) \<Rightarrow> range_info \<Rightarrow> real \<Rightarrow> int \<Rightarrow> real \<Rightarrow> real" where
  "integral_loop rnd r dx i integral =
     (if i < n_intervals_of r then
        let x = rnd (r_start r + rnd (rnd (of_int i) * dx));
            fx = rnd (4 / rnd (1 + rnd (x * x)))
        in integral_loop rnd r dx (i + 1) (rnd (integral + fx))
      else integral)"
  by auto
termination by (relation "measure (\<lambda>(rnd, r, dx, i, integral). nat (n_intervals_of r - i))") auto

declare integral_loop.simps [simp del]

definition integrate :: "(real \<Rightarrow> real) \<Rightarrow> range_info \<Rightarrow> real" where
  "integrate rnd r =
     (let dx = rnd (rnd (r_stop r - r_start r) / rnd (of_int (n_intervals_of r)))
      in rnd (integral_loop rnd r dx 0 0 * dx))"

section \<open>The method\<close>

definition witch :: "real \<Rightarrow> real" where
  "witch x = 4 / (1 + x * x)"

text \<open>Both loops, exactly.\<close>

lemma area_loop_exact:
  "area_loop id start dx steps i area = area + (\<Sum>k\<in>{i..<steps}. witch (start + of_int k * dx) * dx)"
proof (induction "id :: real \<Rightarrow> real" start dx steps i area rule: area_loop.induct)
  case (1 start dx steps i area)
  show ?case
  proof (cases "i < steps")
    case True
    then have "{i..<steps} = insert i {i + 1..<steps}" by auto
    with 1 True show ?thesis
      by (subst area_loop.simps) (simp add: Let_def witch_def add.commute)
  next
    case False
    then show ?thesis by (subst area_loop.simps) simp
  qed
qed

lemma calculate_part_exact:
  "calculate_part id start dx steps = (\<Sum>k\<in>{0..<steps}. witch (start + of_int k * dx) * dx)"
  by (simp add: calculate_part_def area_loop_exact)

lemma integral_loop_exact:
  "integral_loop id r dx i integral =
   integral + (\<Sum>k\<in>{i..<n_intervals_of r}. witch (r_start r + of_int k * dx))"
proof (induction "id :: real \<Rightarrow> real" r dx i integral rule: integral_loop.induct)
  case (1 r dx i integral)
  show ?case
  proof (cases "i < n_intervals_of r")
    case True
    then have "{i..<n_intervals_of r} = insert i {i + 1..<n_intervals_of r}" by auto
    with 1 True show ?thesis
      by (subst integral_loop.simps) (simp add: Let_def witch_def)
  next
    case False
    then show ?thesis by (subst integral_loop.simps) simp
  qed
qed

text \<open>\<open>witch\<close> has Lipschitz constant 4, and \<open>4 arctan\<close> is its antiderivative.\<close>

lemma abs_sum_le_prod: "\<bar>a\<bar> + \<bar>z\<bar> \<le> (1 + a * a) * (1 + z * z)" for a z :: real
proof -
  have sq: "2 * \<bar>x\<bar> \<le> 1 + x * x" for x :: real
    using zero_le_power2 [of "\<bar>x\<bar> - 1"] by (simp add: power2_eq_square algebra_simps)
  have nonneg: "0 \<le> a * a" "0 \<le> z * z" "0 \<le> (a * a) * (z * z)" by simp_all
  have "(1 + a * a) * (1 + z * z) = 1 + a * a + z * z + (a * a) * (z * z)" by (simp add: algebra_simps)
  with nonneg sq [of a] sq [of z] show ?thesis by linarith
qed

lemma witch_lipschitz: "\<bar>witch z - witch a\<bar> \<le> 4 * \<bar>z - a\<bar>"
proof -
  let ?p = "(1 + a * a) * (1 + z * z)"
  have pos: "0 < 1 + a * a" "0 < 1 + z * z" by (simp_all add: add_pos_nonneg)
  then have p: "0 < ?p" by simp
  have "witch z - witch a = 4 * ((a - z) * (a + z)) / ?p"
    using pos by (simp add: witch_def field_simps)
  then have "\<bar>witch z - witch a\<bar> = 4 * \<bar>z - a\<bar> * (\<bar>a + z\<bar> / ?p)"
    using p by (simp add: abs_mult abs_divide abs_minus_commute)
  also have "\<dots> \<le> 4 * \<bar>z - a\<bar> * 1"
  proof (rule mult_left_mono)
    have "\<bar>a + z\<bar> \<le> ?p" using abs_sum_le_prod [of a z] abs_triangle_ineq [of a z] by linarith
    then show "\<bar>a + z\<bar> / ?p \<le> 1" using p by simp
  qed simp
  finally show ?thesis by simp
qed

lemma witch_step:
  assumes "0 < dx"
  shows "\<bar>witch a * dx - (4 * arctan (a + dx) - 4 * arctan a)\<bar> \<le> 4 * dx\<^sup>2"
proof -
  have "DERIV (\<lambda>x. 4 * arctan x) x :> witch x" for x
    by (rule DERIV_cong, rule DERIV_cmult [OF DERIV_arctan]) (simp add: witch_def power2_eq_square field_simps)
  then obtain z where z: "a < z" "z < a + dx" "4 * arctan (a + dx) - 4 * arctan a = (a + dx - a) * witch z"
    using MVT2 [of a "a + dx" "\<lambda>x. 4 * arctan x" witch] assms by auto
  have "\<bar>witch a * dx - (4 * arctan (a + dx) - 4 * arctan a)\<bar> = \<bar>witch a - witch z\<bar> * dx"
    using z(3) assms by (simp add: abs_mult left_diff_distrib [symmetric] mult.commute [of dx])
  also have "\<dots> \<le> (4 * \<bar>a - z\<bar>) * dx"
    using assms by (intro mult_right_mono witch_lipschitz) simp
  also have "\<dots> \<le> (4 * dx) * dx"
    using z assms by (intro mult_right_mono) auto
  finally show ?thesis by (simp add: power2_eq_square)
qed

lemma riemann_error:
  assumes "0 < dx"
  shows "\<bar>(\<Sum>k\<in>{0..<int n}. witch (a + of_int k * dx) * dx) - (4 * arctan (a + real n * dx) - 4 * arctan a)\<bar>
    \<le> real n * (4 * dx\<^sup>2)"
proof (induction n)
  case (Suc n)
  have "{0..<int (Suc n)} = insert (int n) {0..<int n}" by auto
  moreover have "a + real n * dx + dx = a + real (Suc n) * dx" by (simp add: algebra_simps)
  with witch_step [OF assms, of "a + real n * dx"]
  have "\<bar>witch (a + real n * dx) * dx - (4 * arctan (a + real (Suc n) * dx) - 4 * arctan (a + real n * dx))\<bar> \<le> 4 * dx\<^sup>2"
    by simp
  ultimately show ?case using Suc.IH by (simp add: distrib_right)
qed simp

section \<open>The split\<close>

abbreviation part_start :: "int \<Rightarrow> int \<Rightarrow> int \<Rightarrow> int" where
  "part_start n_processes n_intervals i \<equiv> i * (n_intervals sdiv n_processes)"

interpretation intervals: partition "Suc m" "\<lambda>i. part_start (int (Suc m)) (int t) (int i)"
    "\<lambda>i. part_start (int (Suc m)) (int t) (int i) + part_steps (int (Suc m)) (int t) (int i)" "int t" for m t
proof (unfold_locales, goal_cases)
  case 3
  have "int m * (int t div int (Suc m)) + (int t div int (Suc m) + int t mod int (Suc m)) =
      int (Suc m) * (int t div int (Suc m)) + int t mod int (Suc m)"
    by (simp add: algebra_simps)
  also have "\<dots> = int t" by (rule mult_div_mod_eq)
  finally show ?case
    by (simp add: part_steps_def sdiv_nonneg smod_nonneg Let_def)
next
  case (4 i)
  then show ?case by (simp add: part_steps_def Let_def algebra_simps)
next
  case (5 i)
  have "0 \<le> int t div int (Suc m)" "0 \<le> int t mod int (Suc m)"
    by (simp_all add: pos_imp_zdiv_nonneg_iff)
  then show ?case by (simp add: part_steps_def Let_def sdiv_nonneg smod_nonneg)
qed simp_all

lemma child_result_exact:
  "child_result id n t dx i =
   (\<Sum>k\<in>{part_start n t i..<part_start n t i + part_steps n t i}. witch (of_int k * dx) * dx)"
proof -
  let ?s = "part_start n t i" and ?c = "part_steps n t i"
  have "child_result id n t dx i = (\<Sum>k\<in>{0..<?c}. witch (of_int (?s + k) * dx) * dx)"
    by (simp add: child_result_def calculate_part_exact range_start_def Let_def algebra_simps)
  also have "\<dots> = (\<Sum>k\<in>(+) ?s ` {0..<?c}. witch (of_int k * dx) * dx)"
    by (subst sum.reindex) (simp_all add: comp_def)
  also have "(+) ?s ` {0..<?c} = {?s..<?s + ?c}"
    by (simp add: image_add_atLeastLessThan add.commute)
  finally show ?thesis .
qed

lemma fork_children_all:
  "\<forall>i\<in>set is. ok i \<Longrightarrow> fork_children ok child is = Some (map child is)"
  by (induction "is") simp_all

lemma upto_upt: "[0..int m] = map int [0..<Suc m]"
  by (rule nth_equalityI) (auto simp: nth_upto simp del: upt_Suc)

lemma sum_results_all:
  "\<forall>(i, r)\<in>set rs. read_ok env i \<Longrightarrow>
   sum_results id env rs a = Some (a + sum_list (map (\<lambda>(i, r). if write_ok env i then r else 0) rs))"
  by (induction rs arbitrary: a) (auto simp: Let_def)

lemma parts_total:
  "sum_list (map (child_result id (int (Suc m)) (int t) dx) [0..int m]) =
   (\<Sum>k\<in>{0..<int t}. witch (of_int k * dx) * dx)"
proof -
  have "sum_list (map (child_result id (int (Suc m)) (int t) dx) [0..int m]) =
      (\<Sum>i<Suc m. child_result id (int (Suc m)) (int t) dx (int i))"
    by (simp only: upto_upt map_map comp_def interv_sum_list_conv_sum_set_nat atLeast0LessThan set_upt)
  also have "\<dots> = (\<Sum>k\<in>{0..<int t}. witch (of_int k * dx) * dx)"
    unfolding child_result_exact by (rule intervals.sum_parts)
  finally show ?thesis .
qed

lemma sum_list_without:
  assumes "j \<in> set is" "distinct is"
  shows "sum_list (map (\<lambda>i. if i \<noteq> j then f i else 0) is) = sum_list (map f is) - (f j :: real)"
  using assms
proof (induction "is")
  case (Cons i "is")
  have "sum_list (map (\<lambda>i. if i \<noteq> j then f i else 0) is) = sum_list (map f is)" if "j \<notin> set is"
    using that by (intro arg_cong [of _ _ sum_list] map_cong) auto
  with Cons show ?case by (cases "i = j") auto
qed simp

text \<open>The numbers \<open>main\<close> accepts.\<close>

lemma accepted_counts:
  assumes "1 \<le> n" "n \<le> \<lceil>1 / dx\<rceil>"
  shows "\<exists>m t. n = int (Suc m) \<and> \<lceil>1 / dx\<rceil> = int t"
proof (intro exI conjI)
  have "0 \<le> \<lceil>1 / dx\<rceil>" "0 \<le> n - 1" using assms by linarith+
  then show "n = int (Suc (nat (n - 1)))" "\<lceil>1 / dx\<rceil> = int (nat \<lceil>1 / dx\<rceil>)" by linarith+
qed

text \<open>\<open>main\<close> on accepted arguments, when every pipe, fork and read succeeds.\<close>

lemma pi_main_run:
  assumes "length argv = 3" "strtod env (argv ! 1) = dx" "0 < dx" "fst (strtol10 (argv ! 2)) = n"
    and n: "n = int (Suc m)" and t: "\<lceil>1 / dx\<rceil> = int t"
    and "n \<le> int t" "int t \<le> long_max" "\<forall>i. pipe_ok env i \<and> fork_ok env i \<and> read_ok env i"
  shows "\<exists>file'. pi_main id env argv file = Inr (EXIT_SUCCESS,
    Some (sum_list (map (\<lambda>i. if write_ok env i then child_result id n (int t) dx i else 0) [0..int m])), file')"
proof -
  let ?rs = "map (child_result id n (int t) dx) [0..int m]"
  have pre: "in_long (int t)" using assms(8) by (simp add: int_range_defs)
  have dist: "distribute_calculations id (fork_ok env) n (int t) dx = Some ?rs"
    using assms(9) n by (simp add: distribute_calculations_def fork_children_all)
  have m: "n - 1 = int m" "\<not> n \<le> 0" "\<not> int t < n" using n assms(7) by simp_all
  have "sum_results id env (zip [0..int m] ?rs) 0 =
      Some (sum_list (map (\<lambda>(i, r). if write_ok env i then r else 0) (zip [0..int m] ?rs)))"
    using assms(9) by (subst sum_results_all) auto
  also have "map (\<lambda>(i, r). if write_ok env i then r else 0) (zip [0..int m] ?rs) =
      map (\<lambda>i. if write_ok env i then child_result id n (int t) dx i else 0) [0..int m]"
    by (simp add: zip_map2 zip_same_conv_map)
  finally have "sum_results id env (zip [0..n - 1] ?rs) 0 =
      Some (sum_list (map (\<lambda>i. if write_ok env i then child_result id n (int t) dx i else 0) [0..int m]))"
    by (simp only: m)
  with assms(1-4,9) pre m(2,3) show ?thesis
    by (simp add: pi_main_def Let_def range_start_def range_stop_def t dist list_all_iff)
qed

section \<open>Properties\<close>

text \<open>
  C26: for all accepted arguments, when every call succeeds, the sum of the
  children's results is the Riemann sum of the single-process loop over all intervals, each
  taken once, whatever the number of processes; in exact arithmetic it is \<open>\<pi>\<close> up to
  \<open>4 (1 + dx) dx + 4 dx\<close>.
\<close>

theorem pi_main_result:
  assumes "length argv = 3" "strtod env (argv ! 1) = dx" "0 < dx" "fst (strtol10 (argv ! 2)) = n"
    and "1 \<le> n" "n \<le> \<lceil>1 / dx\<rceil>" "\<lceil>1 / dx\<rceil> \<le> long_max"
    and "\<forall>i. pipe_ok env i \<and> fork_ok env i \<and> write_ok env i \<and> read_ok env i"
  shows "\<exists>s file'. pi_main id env argv file = Inr (EXIT_SUCCESS, Some s, file') \<and>
    s = calculate_part id 0 dx \<lceil>1 / dx\<rceil> \<and> \<bar>s - pi\<bar> \<le> 4 * (1 + dx) * dx + 4 * dx"
proof -
  obtain m t where n: "n = int (Suc m)" and t: "\<lceil>1 / dx\<rceil> = int t"
    using accepted_counts [OF assms(5,6)] by blast
  let ?s = "calculate_part id 0 dx (int t)"
  have "sum_list (map (\<lambda>i. if write_ok env i then child_result id n (int t) dx i else 0) [0..int m]) = ?s"
    using assms(8) parts_total [of m t dx] by (simp add: n calculate_part_exact)
  then have run: "\<exists>file'. pi_main id env argv file = Inr (EXIT_SUCCESS, Some ?s, file')"
    using pi_main_run [OF assms(1-4) n t] assms(6-8) by (simp add: t)
  have upper: "real t * dx < 1 + dx" and lower: "1 \<le> real t * dx"
  proof -
    have "1 / dx \<le> real t" "real t < 1 / dx + 1" using t by linarith+
    then show "real t * dx < 1 + dx" "1 \<le> real t * dx" using assms(3) by (simp_all add: field_simps)
  qed
  have "\<bar>?s - 4 * arctan (real t * dx)\<bar> \<le> real t * (4 * dx\<^sup>2)"
    using riemann_error [OF assms(3), of 0 t] by (simp add: calculate_part_exact)
  moreover have "real t * (4 * dx\<^sup>2) \<le> 4 * (1 + dx) * dx"
    using mult_right_mono [of "real t * dx" "1 + dx" "4 * dx"] upper assms(3)
    by (simp add: power2_eq_square algebra_simps)
  moreover have "0 \<le> 4 * arctan (real t * dx) - pi \<and> 4 * arctan (real t * dx) - pi \<le> 4 * dx"
  proof -
    have "arctan 1 \<le> arctan (real t * dx)" using lower by (simp add: arctan_monotone')
    moreover have "arctan (real t * dx) - arctan 1 \<le> real t * dx - 1"
    proof (cases "real t * dx = 1")
      case False
      with lower have less: "1 < real t * dx" by simp
      then obtain z where z: "1 < z" "arctan (real t * dx) - arctan 1 = (real t * dx - 1) * inverse (1 + z\<^sup>2)"
        using MVT2 [of 1 "real t * dx" arctan "\<lambda>x. inverse (1 + x\<^sup>2)"] DERIV_arctan by blast
      have "inverse (1 + z\<^sup>2) \<le> 1" by (simp add: inverse_le_1_iff)
      then show ?thesis using z less mult_left_mono [of "inverse (1 + z\<^sup>2)" 1 "real t * dx - 1"] by simp
    qed simp
    ultimately show ?thesis using upper by (simp add: arctan_one)
  qed
  ultimately have "\<bar>?s - pi\<bar> \<le> 4 * (1 + dx) * dx + 4 * dx" by linarith
  with run t show ?thesis by auto
qed

definition calm_env :: pi_env where
  "calm_env = \<lparr>pipe_ok = \<lambda>_. True, fork_ok = \<lambda>_. True, write_ok = \<lambda>_. True, read_ok = \<lambda>_. True,
     start_time = (5, 900000), end_time = (6, 100000), fopen_ok = True, fprintf_ok = True, fclose_ok = True,
     format_lf = \<lambda>_. ''0'', strtod = \<lambda>_. 1 / 10\<rparr>"

theorem pi_main_result_witness:
  "\<exists>s file. pi_main id calm_env [''pi'', ''0.1'', ''3''] [] = Inr (EXIT_SUCCESS, Some s, file) \<and>
     s = calculate_part id 0 (1 / 10) 10 \<and> \<bar>s - pi\<bar> \<le> 4 * (11 / 10) / 10 + 4 / 10"
proof -
  have "fst (strtol10 ''3'') = 3" by code_simp
  then show ?thesis
    using pi_main_result [of "[''pi'', ''0.1'', ''3'']" calm_env "1 / 10" 3 "[]"]
    by (simp add: long_max_def calm_env_def)
qed

text \<open>
  C40: when the \<open>write\<close> of one child fails, the child exits with a failure and \<open>main\<close> does not
  notice: the empty pipe counts as 0, and the sum without that part is printed as the final
  result, with exit code 0.
\<close>

theorem lost_part_goes_unnoticed:
  assumes "length argv = 3" "strtod env (argv ! 1) = dx" "0 < dx" "fst (strtol10 (argv ! 2)) = n"
    and "1 \<le> n" "n \<le> \<lceil>1 / dx\<rceil>" "\<lceil>1 / dx\<rceil> \<le> long_max"
    and "\<forall>i. pipe_ok env i \<and> fork_ok env i \<and> read_ok env i" "\<forall>i. write_ok env i \<longleftrightarrow> i \<noteq> j" "0 \<le> j" "j < n"
  shows "\<exists>file'. pi_main id env argv file = Inr (EXIT_SUCCESS,
      Some (calculate_part id 0 dx \<lceil>1 / dx\<rceil> - child_result id n \<lceil>1 / dx\<rceil> dx j), file') \<and>
    child_exit env j = EXIT_FAILURE"
proof -
  obtain m t where n: "n = int (Suc m)" and t: "\<lceil>1 / dx\<rceil> = int t"
    using accepted_counts [OF assms(5,6)] by blast
  let ?c = "child_result id n (int t) dx"
  have "sum_list (map (\<lambda>i. if write_ok env i then ?c i else 0) [0..int m]) = sum_list (map ?c [0..int m]) - ?c j"
    using assms(9-11) by (simp add: n sum_list_without)
  moreover have "sum_list (map ?c [0..int m]) = calculate_part id 0 dx (int t)"
    using parts_total [of m t dx] by (simp add: n calculate_part_exact)
  ultimately show ?thesis
    using pi_main_run [OF assms(1-4) n t] assms(6-9) by (simp add: t child_exit_def)
qed

theorem lost_part_goes_unnoticed_witness:
  "\<exists>file. pi_main id (calm_env\<lparr>write_ok := \<lambda>i. i \<noteq> 1\<rparr>) [''pi'', ''0.1'', ''3''] [] =
     Inr (EXIT_SUCCESS, Some (calculate_part id 0 (1 / 10) 10 - child_result id 3 10 (1 / 10) 1), file)"
proof -
  have "fst (strtol10 ''3'') = 3" by code_simp
  then show ?thesis
    using lost_part_goes_unnoticed [of "[''pi'', ''0.1'', ''3'']" "calm_env\<lparr>write_ok := \<lambda>i. i \<noteq> 1\<rparr>" "1 / 10" 3 1 "[]"]
    by (simp add: long_max_def calm_env_def)
qed

text \<open>
  C28: for every range the caller lets through (\<open>start < stop\<close>, \<open>0 < n_intervals\<close>), the answer of the
  calculator is, in exact arithmetic, where nothing is rounded (\<open>rnd = id\<close>),
  the integral of \<open>4 / (1 + x\<^sup>2)\<close> over it up to \<open>4 (stop - start)\<^sup>2 / n_intervals\<close>.
\<close>

theorem integrate_error:
  assumes "0 < n_intervals_of r" "r_start r < r_stop r"
  shows "\<bar>integrate id r - (4 * arctan (r_stop r) - 4 * arctan (r_start r))\<bar>
    \<le> 4 * (r_stop r - r_start r)\<^sup>2 / of_int (n_intervals_of r)"
proof -
  define n where "n = nat (n_intervals_of r)"
  have n: "n_intervals_of r = int n" "0 < n" using assms(1) by (simp_all add: n_def)
  let ?dx = "(r_stop r - r_start r) / real n"
  have dx: "0 < ?dx" using assms(2) n(2) by simp
  have stop: "r_start r + real n * ?dx = r_stop r" using n(2) by simp
  have "integrate id r = (\<Sum>k\<in>{0..<int n}. witch (r_start r + of_int k * ?dx) * ?dx)"
    by (simp add: integrate_def integral_loop_exact n(1) sum_distrib_right Let_def)
  moreover have "real n * (4 * ?dx\<^sup>2) = 4 * (r_stop r - r_start r)\<^sup>2 / real n"
    using n(2) by (simp add: power2_eq_square)
  ultimately show ?thesis
    using riemann_error [OF dx, of "r_start r" n] unfolding stop by (simp add: n(1))
qed

theorem integrate_error_witness:
  "\<bar>integrate id \<lparr>r_start = 0, r_stop = 1, n_intervals_of = 8\<rparr> - pi\<bar> \<le> 1 / 2"
  using integrate_error [of "\<lparr>r_start = 0, r_stop = 1, n_intervals_of = 8\<rparr>"] by (simp add: arctan_one)

end
