(* ===== verification/Integral_Service.thy ===== *)
theory Integral_Service
  imports Integral
begin

text \<open>
  The integration service of \<^verbatim>\<open>cw06/zad2\<close>: the calculator and the caller with the two named
  pipes between them, from the creation of the pipes to the end of either process.
\<close>

section \<open>The named pipes\<close>

definition INPUT_PIPE_NAME :: string where "INPUT_PIPE_NAME = ''integral_input''"
definition OUTPUT_PIPE_NAME :: string where "OUTPUT_PIPE_NAME = ''integral_output''"

text \<open>The file system is the set of the names that exist.\<close>

definition remove_pipes :: "string set \<Rightarrow> string set" where
  "remove_pipes fs = fs - {INPUT_PIPE_NAME, OUTPUT_PIPE_NAME}"

record calculator_env =
  mkfifo_in_ok :: bool
  mkfifo_out_ok :: bool
  open_in_ok :: bool
  open_out_ok :: bool

text \<open>
  The \<open>main\<close> of \<^verbatim>\<open>calculator.c\<close> up to its loop: the exit code if it gives up, and the names.
\<close>

definition calculator_start :: "calculator_env \<Rightarrow> string set \<Rightarrow> exit_code option \<times> string set" where
  "calculator_start env fs =
     (let fs0 = remove_pipes fs
      in if \<not> mkfifo_in_ok env then (Some EXIT_FAILURE, fs0)
         else
           let fs1 = insert INPUT_PIPE_NAME fs0
           in if \<not> mkfifo_out_ok env then (Some EXIT_FAILURE, fs1)
              else
                let fs2 = insert OUTPUT_PIPE_NAME fs1
                in if \<not> open_in_ok env then (Some EXIT_FAILURE, remove_pipes fs2)
                   else if \<not> open_out_ok env then (Some EXIT_FAILURE, remove_pipes fs2)
                   else (None, fs2))"

text \<open>\<open>caller\<close> opens the pipes; \<open>Some EXIT_FAILURE\<close> if one is missing or refused.\<close>

definition caller_start :: "bool \<Rightarrow> bool \<Rightarrow> string set \<Rightarrow> exit_code option" where
  "caller_start in_ok out_ok fs =
     (if INPUT_PIPE_NAME \<notin> fs \<or> \<not> in_ok then Some EXIT_FAILURE
      else if OUTPUT_PIPE_NAME \<notin> fs \<or> \<not> out_ok then Some EXIT_FAILURE
      else None)"

section \<open>A session\<close>

record service =
  calculator_alive :: bool
  input_fifo :: "range_info list"
  output_fifo :: "real list"

definition fresh_service :: service where
  "fresh_service = \<lparr>calculator_alive = True, input_fifo = [], output_fifo = []\<rparr>"

text \<open>
  One iteration of the loop of the calculator. When its \<open>write\<close> fails it leaves the loop and
  closes the pipes; with nothing to read it waits.
\<close>

definition calculator_turn :: "(real \<Rightarrow> real) \<Rightarrow> bool \<Rightarrow> service \<Rightarrow> service" where
  "calculator_turn rnd reply_ok s =
     (if \<not> calculator_alive s then s
      else case input_fifo s of
             [] \<Rightarrow> s
           | r # rest \<Rightarrow>
               let result = integrate rnd r
               in if \<not> reply_ok then s\<lparr>calculator_alive := False, input_fifo := rest\<rparr>
                  else s\<lparr>input_fifo := rest, output_fifo := output_fifo s @ [result]\<rparr>)"

text \<open>The three \<open>scanf\<close> calls of the caller and its check of the range.\<close>

datatype 'i request = Stop | Ask range_info 'i

definition scan_request ::
    "('i \<Rightarrow> (real \<times> 'i) option) \<Rightarrow> ('i \<Rightarrow> (int \<times> 'i) option) \<Rightarrow> 'i \<Rightarrow> 'i request" where
  "scan_request scan_lf scan_ld inp =
     (case scan_lf inp of None \<Rightarrow> Stop | Some (start, inp1) \<Rightarrow>
      case scan_lf inp1 of None \<Rightarrow> Stop | Some (stop, inp2) \<Rightarrow>
      case scan_ld inp2 of None \<Rightarrow> Stop | Some (n_intervals, inp3) \<Rightarrow>
        if n_intervals \<le> 0 \<or> start \<ge> stop then Stop
        else Ask \<lparr>r_start = start, r_stop = stop, n_intervals_of = n_intervals\<rparr> inp3)"

text \<open>
  The loop of the caller, from iteration \<open>i\<close> and for at most \<open>n\<close> of them: what it prints, how
  it ends, and the service. A \<open>write\<close> into the pipe of a dead calculator raises \<open>SIGPIPE\<close>;
  the \<open>read\<close> waits for the calculator's turn, and returns 0 if the calculator has closed the
  pipe without an answer: \<open>integral\<close> keeps its 0.
\<close>

record caller_env =
  ask_ok :: "nat \<Rightarrow> bool"
  answer_ok :: "nat \<Rightarrow> bool"
  reply_ok :: "nat \<Rightarrow> bool"

datatype caller_end = Ended | Killed_By_SIGPIPE | Still_Running

fun caller_loop ::
    "(real \<Rightarrow> real) \<Rightarrow> ('i \<Rightarrow> (real \<times> 'i) option) \<Rightarrow> ('i \<Rightarrow> (int \<times> 'i) option) \<Rightarrow> caller_env \<Rightarrow>
     nat \<Rightarrow> nat \<Rightarrow> 'i \<Rightarrow> service \<Rightarrow> real list \<times> caller_end \<times> service" where
  "caller_loop rnd scan_lf scan_ld env i 0 inp s = ([], Still_Running, s)"
| "caller_loop rnd scan_lf scan_ld env i (Suc n) inp s =
     (case scan_request scan_lf scan_ld inp of
        Stop \<Rightarrow> ([], Ended, s)
      | Ask r inp' \<Rightarrow>
          if \<not> calculator_alive s then ([], Killed_By_SIGPIPE, s)
          else if \<not> ask_ok env i then ([], Ended, s)
          else
            let s1 = calculator_turn rnd (reply_ok env i) (s\<lparr>input_fifo := input_fifo s @ [r]\<rparr>)
            in if \<not> answer_ok env i then ([], Ended, s1)
               else
                 let (integral, s2) =
                   (case output_fifo s1 of [] \<Rightarrow> (0, s1) | x # xs \<Rightarrow> (x, s1\<lparr>output_fifo := xs\<rparr>));
                   (printed, ending, s3) = caller_loop rnd scan_lf scan_ld env (Suc i) n inp' s2
                 in (integral # printed, ending, s3))"

text \<open>
  After its loop the caller closes the pipes and returns 0, whatever ended the loop; the
  calculator reads the end of the input, leaves its loop and returns 0. The names stay.
\<close>

definition caller_exit :: "caller_end \<Rightarrow> exit_code option" where
  "caller_exit e = (case e of Ended \<Rightarrow> Some EXIT_SUCCESS | _ \<Rightarrow> None)"

definition calculator_hangup :: "service \<Rightarrow> exit_code option \<times> service" where
  "calculator_hangup s =
     (if calculator_alive s \<and> input_fifo s = [] then (Some EXIT_SUCCESS, s\<lparr>calculator_alive := False\<rparr>)
      else (None, s))"

section \<open>Rounds of the session\<close>

text \<open>An input from which the three calls read the ranges \<open>rs\<close>, and then nothing.\<close>

fun asks :: "('i \<Rightarrow> (real \<times> 'i) option) \<Rightarrow> ('i \<Rightarrow> (int \<times> 'i) option) \<Rightarrow> range_info list \<Rightarrow> 'i \<Rightarrow> bool" where
  "asks scan_lf scan_ld [] inp \<longleftrightarrow> scan_lf inp = None"
| "asks scan_lf scan_ld (r # rs) inp \<longleftrightarrow>
     (\<exists>inp1 inp2 inp3. scan_lf inp = Some (r_start r, inp1) \<and> scan_lf inp1 = Some (r_stop r, inp2) \<and>
        scan_ld inp2 = Some (n_intervals_of r, inp3) \<and> asks scan_lf scan_ld rs inp3)"

definition valid_range :: "range_info \<Rightarrow> bool" where
  "valid_range r \<longleftrightarrow> 0 < n_intervals_of r \<and> r_start r < r_stop r"

lemma scan_request_asks:
  assumes "asks scan_lf scan_ld (r # rs) inp" "valid_range r"
  shows "\<exists>inp'. scan_request scan_lf scan_ld inp = Ask r inp' \<and> asks scan_lf scan_ld rs inp'"
  using assms by (auto simp: scan_request_def valid_range_def)

lemma caller_round:
  assumes "asks scan_lf scan_ld (r # rs) inp" "valid_range r" "ask_ok env i" "answer_ok env i" "reply_ok env i"
  shows "\<exists>inp'. asks scan_lf scan_ld rs inp' \<and>
    caller_loop rnd scan_lf scan_ld env i (Suc n) inp fresh_service =
      (let (printed, ending, s) = caller_loop rnd scan_lf scan_ld env (Suc i) n inp' fresh_service
       in (integrate rnd r # printed, ending, s))"
  using scan_request_asks [OF assms(1,2)] assms(3-5)
  by (auto simp: fresh_service_def calculator_turn_def)

lemma answered_prefix:
  assumes "asks scan_lf scan_ld (rs @ rs') inp" "\<forall>r\<in>set rs. valid_range r"
    and "\<forall>j<length rs. ask_ok env (i + j) \<and> answer_ok env (i + j) \<and> reply_ok env (i + j)"
  shows "\<exists>inp'. asks scan_lf scan_ld rs' inp' \<and>
    caller_loop rnd scan_lf scan_ld env i (length rs + n) inp fresh_service =
      (let (printed, ending, s) = caller_loop rnd scan_lf scan_ld env (i + length rs) n inp' fresh_service
       in (map (integrate rnd) rs @ printed, ending, s))"
  using assms
proof (induction rs arbitrary: i inp)
  case Nil
  then show ?case by (auto simp: split_beta)
next
  case (Cons r rs)
  have ok: "ask_ok env i" "answer_ok env i" "reply_ok env i" using Cons.prems(3) by force+
  obtain inp1 where inp1: "asks scan_lf scan_ld (rs @ rs') inp1"
    "caller_loop rnd scan_lf scan_ld env i (Suc (length rs + n)) inp fresh_service =
      (let (printed, ending, s) = caller_loop rnd scan_lf scan_ld env (Suc i) (length rs + n) inp1 fresh_service
       in (integrate rnd r # printed, ending, s))"
    using caller_round [of scan_lf scan_ld r "rs @ rs'" inp env i rnd "length rs + n"] Cons.prems ok by auto
  have "\<forall>j<length rs. ask_ok env (Suc i + j) \<and> answer_ok env (Suc i + j) \<and> reply_ok env (Suc i + j)"
    using Cons.prems(3) by force
  from Cons.IH [OF inp1(1) _ this] Cons.prems(2) inp1(2) show ?case
    by (auto simp: split_beta Let_def simp del: caller_loop.simps)
qed

text \<open>
  A calculator that starts without trouble leaves the two pipes behind for good: it only
  removes those of an earlier run when it starts, and one whose second \<open>mkfifo\<close> fails leaves
  the first, on which the next caller waits.
\<close>

lemma pipes_outlive_calculator:
  assumes "mkfifo_in_ok env"
  shows "(if mkfifo_out_ok env \<and> open_in_ok env \<and> open_out_ok env
     then calculator_start env fs = (None, fs \<union> {INPUT_PIPE_NAME, OUTPUT_PIPE_NAME}) \<and>
       caller_start True True (snd (calculator_start env fs)) = None
     else fst (calculator_start env fs) = Some EXIT_FAILURE \<and>
       (INPUT_PIPE_NAME \<in> snd (calculator_start env fs) \<longleftrightarrow> \<not> mkfifo_out_ok env)) \<and>
    caller_start True True (remove_pipes fs) = Some EXIT_FAILURE"
  using assms
  by (auto simp: calculator_start_def caller_start_def remove_pipes_def Let_def INPUT_PIPE_NAME_def OUTPUT_PIPE_NAME_def)

section \<open>Properties\<close>

text \<open>
  C27: a session in which every call succeeds prints exactly the integrals of the ranges the user
  enters, in order and one for one, and ends, caller and calculator both with exit code 0,
  when the input does.
\<close>

theorem service_answers_in_order:
  assumes "asks scan_lf scan_ld rs inp" "\<forall>r\<in>set rs. valid_range r" "length rs < n"
    and "\<forall>i. ask_ok env i \<and> answer_ok env i \<and> reply_ok env i"
  shows "caller_loop rnd scan_lf scan_ld env 0 n inp fresh_service = (map (integrate rnd) rs, Ended, fresh_service) \<and>
    caller_exit Ended = Some EXIT_SUCCESS \<and> fst (calculator_hangup fresh_service) = Some EXIT_SUCCESS"
proof -
  obtain k where n: "n = length rs + Suc k" using assms(3) less_iff_Suc_add [of "length rs" n] by auto
  obtain inp' where "asks scan_lf scan_ld [] inp'"
    "caller_loop rnd scan_lf scan_ld env 0 n inp fresh_service =
      (let (printed, ending, s) = caller_loop rnd scan_lf scan_ld env (length rs) (Suc k) inp' fresh_service
       in (map (integrate rnd) rs @ printed, ending, s))"
    using answered_prefix [of scan_lf scan_ld rs "[]" inp env 0 rnd "Suc k"] assms by (auto simp: n)
  then show ?thesis
    by (simp add: scan_request_def caller_exit_def calculator_hangup_def fresh_service_def)
qed

text \<open>Numbers already split into tokens.\<close>

definition next_lf :: "real list \<Rightarrow> (real \<times> real list) option" where
  "next_lf xs = (case xs of [] \<Rightarrow> None | x # xs' \<Rightarrow> Some (x, xs'))"

definition next_ld :: "real list \<Rightarrow> (int \<times> real list) option" where
  "next_ld xs = (case xs of [] \<Rightarrow> None | x # xs' \<Rightarrow> Some (\<lfloor>x\<rfloor>, xs'))"

theorem service_answers_in_order_witness:
  "fst (caller_loop id next_lf next_ld \<lparr>ask_ok = \<lambda>_. True, answer_ok = \<lambda>_. True, reply_ok = \<lambda>_. True\<rparr> 0 3
     [0, 1, 8, 1, 2, 4] fresh_service) =
   [integrate id \<lparr>r_start = 0, r_stop = 1, n_intervals_of = 8\<rparr>,
    integrate id \<lparr>r_start = 1, r_stop = 2, n_intervals_of = 4\<rparr>]"
proof -
  let ?rs = "[\<lparr>r_start = 0, r_stop = 1, n_intervals_of = 8\<rparr>, \<lparr>r_start = 1, r_stop = 2, n_intervals_of = 4\<rparr>]"
  have "asks next_lf next_ld ?rs [0, 1, 8, 1, 2, 4]" by (simp add: next_lf_def next_ld_def)
  moreover have "\<forall>r\<in>set ?rs. valid_range r" by (simp add: valid_range_def)
  ultimately show ?thesis
    using service_answers_in_order [of next_lf next_ld ?rs _ 3] by simp
qed

text \<open>
  A calculator that dies between a question and its answer is not noticed: the caller prints
  0 as the integral and goes on; if the user enters another valid range, its \<open>write\<close> kills the
  caller, otherwise the caller ends with exit code 0.
\<close>

theorem dead_calculator_answers_zero:
  assumes "asks scan_lf scan_ld (rs @ r # rs') inp" "\<forall>q\<in>set (rs @ r # rs'). valid_range q"
    and "\<forall>i. ask_ok env i \<and> answer_ok env i" "\<forall>i. reply_ok env i \<longleftrightarrow> i < length rs" "length rs + 2 \<le> n"
  shows "\<exists>s. caller_loop rnd scan_lf scan_ld env 0 n inp fresh_service =
    (map (integrate rnd) rs @ [0], if rs' = [] then Ended else Killed_By_SIGPIPE, s)"
proof -
  define k where "k = n - length rs - 2"
  have n: "n = length rs + Suc (Suc k)" using assms(5) by (simp add: k_def)
  obtain inp1 where inp1: "asks scan_lf scan_ld (r # rs') inp1"
    "caller_loop rnd scan_lf scan_ld env 0 n inp fresh_service =
      (let (printed, ending, s) = caller_loop rnd scan_lf scan_ld env (length rs) (Suc (Suc k)) inp1 fresh_service
       in (map (integrate rnd) rs @ printed, ending, s))"
    using answered_prefix [of scan_lf scan_ld rs "r # rs'" inp env 0 rnd "Suc (Suc k)"] assms by (auto simp: n)
  obtain inp2 where inp2: "scan_request scan_lf scan_ld inp1 = Ask r inp2" "asks scan_lf scan_ld rs' inp2"
    using scan_request_asks [OF inp1(1)] assms(2) by auto
  have "scan_request scan_lf scan_ld inp2 = Stop" if "rs' = []"
    using inp2(2) that by (simp add: scan_request_def)
  moreover have "\<exists>q inp3. scan_request scan_lf scan_ld inp2 = Ask q inp3" if "rs' \<noteq> []"
    using scan_request_asks [of scan_lf scan_ld "hd rs'" "tl rs'" inp2] inp2(2) that assms(2) by (cases rs') auto
  ultimately show ?thesis
    using inp1(2) inp2(1) assms(3,4)
    by (cases "rs' = []") (auto simp: fresh_service_def calculator_turn_def)
qed

theorem dead_calculator_answers_zero_witness:
  "\<exists>s. caller_loop id next_lf next_ld \<lparr>ask_ok = \<lambda>_. True, answer_ok = \<lambda>_. True, reply_ok = \<lambda>i. i < 0\<rparr> 0 2
     [0, 1, 8, 1, 2, 4] fresh_service = ([0], Killed_By_SIGPIPE, s)"
proof -
  let ?r = "\<lparr>r_start = 0, r_stop = 1, n_intervals_of = 8\<rparr>" let ?q = "\<lparr>r_start = 1, r_stop = 2, n_intervals_of = 4\<rparr>"
  have "asks next_lf next_ld ([] @ ?r # [?q]) [0, 1, 8, 1, 2, 4]" by (simp add: next_lf_def next_ld_def)
  moreover have "\<forall>q\<in>set ([] @ ?r # [?q]). valid_range q" by (simp add: valid_range_def)
  ultimately show ?thesis
    using dead_calculator_answers_zero [of next_lf next_ld "[]" ?r "[?q]"] by simp
qed

end
