(* ===== verification/Processes.thy ===== *)
theory Processes
  imports C_Base
begin

text \<open>
  The small programs on directories, processes and signal dispositions: the directory size of
  \<^verbatim>\<open>cw03/zad2\<close>, the forks of \<^verbatim>\<open>cw04\<close>, and the reactions to a signal of \<^verbatim>\<open>cw05/zad1\<close>. What the
  kernel answers (entries of a directory, results of \<open>stat\<close>, \<open>fork\<close>, \<open>execl\<close>) is an argument.
\<close>

section \<open>\<^verbatim>\<open>cw03/zad2/main.c\<close>\<close>

text \<open>An entry of a directory, with what \<open>stat\<close> says of it: nothing if it fails.\<close>

datatype file_info = Directory | File int

record entry =
  d_name :: string
  fileinfo :: "file_info option"

datatype dir_line = File_Line string int | Total_Line int

text \<open>The loop of \<open>traverse_directory\<close>: what it prints and its result.\<close>

fun traverse_loop :: "entry list \<Rightarrow> int \<Rightarrow> (dir_line list \<times> int) cres" where
  "traverse_loop [] all_files_size = Inr ([Total_Line all_files_size], 0)"
| "traverse_loop (e # es) all_files_size =
     (case fileinfo e of
        None \<Rightarrow> Inr ([], -1)
      | Some Directory \<Rightarrow> traverse_loop es all_files_size
      | Some (File st_size) \<Rightarrow>
          cbind (c_long (all_files_size + st_size)) (\<lambda>total.
          cbind (traverse_loop es total) (\<lambda>(ls, r). Inr (File_Line (d_name e) st_size # ls, r))))"

definition traverse_directory :: "bool \<Rightarrow> entry list \<Rightarrow> (dir_line list \<times> int) cres" where
  "traverse_directory chdir_ok entries =
     (if \<not> chdir_ok then Inr ([], -1) else traverse_loop entries 0)"

text \<open>
  \<open>main\<close>, with the kernel's answers for a path: \<open>None\<close> if \<open>opendir\<close> fails, otherwise whether
  \<open>chdir\<close> succeeds and the entries.
\<close>

definition dir_main :: "(string \<Rightarrow> (bool \<times> entry list) option) \<Rightarrow> string list \<Rightarrow> (exit_code \<times> dir_line list) cres" where
  "dir_main dirs argv =
     (let argc = length argv
      in if argc \<noteq> 1 \<and> argc \<noteq> 2 then Inr (EXIT_FAILURE, [])
         else
           let dirpath = (if argc = 1 then ''.'' else argv ! 1)
           in case dirs dirpath of
                None \<Rightarrow> Inr (EXIT_FAILURE, [])
              | Some (chdir_ok, entries) \<Rightarrow>
                  cbind (traverse_directory chdir_ok entries) (\<lambda>(ls, r). Inr (EXIT_SUCCESS, ls)))"

definition file_sizes :: "entry list \<Rightarrow> int list" where
  "file_sizes es = List.map_filter (\<lambda>e. case fileinfo e of Some (File n) \<Rightarrow> Some n | _ \<Rightarrow> None) es"

section \<open>\<^verbatim>\<open>cw04/zad1/main.c\<close>\<close>

text \<open>How the parent ended: its exit status, the children it forked and waited for, and its last line.\<close>

record fork_result =
  exit_status :: exit_code
  forked :: int
  waited :: int
  printed :: "int option"

text \<open>
  The two loops: the first over \<open>fork\<close>, with \<open>i\<close> children so far, then the waits; also after
  a failure, for the children there are.
\<close>

function wait_loop :: "int \<Rightarrow> int \<Rightarrow> int \<Rightarrow> int" where
  "wait_loop bound j waits = (if j < bound then wait_loop bound (j + 1) (waits + 1) else waits)"
  by auto
termination by (relation "measure (\<lambda>(bound, j, waits). nat (bound - j))") auto

declare wait_loop.simps [simp del]

function fork_loop :: "(int \<Rightarrow> bool) \<Rightarrow> int \<Rightarrow> int \<Rightarrow> fork_result" where
  "fork_loop fork_ok n_procs i =
     (if i < n_procs then
        if \<not> fork_ok i then \<lparr>exit_status = EXIT_FAILURE, forked = i, waited = wait_loop i 0 0, printed = None\<rparr>
        else fork_loop fork_ok n_procs (i + 1)
      else \<lparr>exit_status = EXIT_SUCCESS, forked = i, waited = wait_loop n_procs 0 0, printed = Some n_procs\<rparr>)"
  by auto
termination by (relation "measure (\<lambda>(fork_ok, n, i). nat (n - i))") auto

declare fork_loop.simps [simp del]

definition fork_main :: "(int \<Rightarrow> bool) \<Rightarrow> string list \<Rightarrow> fork_result" where
  "fork_main fork_ok argv =
     (let failure = \<lparr>exit_status = EXIT_FAILURE, forked = 0, waited = 0, printed = None\<rparr>
      in if length argv \<noteq> 2 then failure
         else case strtol10 (argv ! 1) of (n_procs, erange, end) \<Rightarrow>
           if erange \<or> end \<noteq> [] then failure else fork_loop fork_ok n_procs 0)"

section \<open>\<^verbatim>\<open>cw04/zad2/main.c\<close>\<close>

text \<open>\<open>strrchr(s, c) + 1\<close> as a string to print: \<open>strrchr\<close> is NULL when \<open>c\<close> does not occur.\<close>

definition after_last_slash :: "string \<Rightarrow> string cres" where
  "after_last_slash s =
     (if CHR ''/'' \<notin> set s then Inl Null_Deref else Inr (rev (takeWhile (\<lambda>c. c \<noteq> CHR ''/'') (rev s))))"

text \<open>A status as \<open>wait\<close> reports it: the exit code in bits 8 to 15, a signal in the low bits.\<close>

definition WEXITSTATUS :: "32 word \<Rightarrow> 32 word" where
  "WEXITSTATUS status = take_bit 8 (drop_bit 8 status)"

datatype child_end = Exited "8 word" | Signalled nat

definition wait_status :: "child_end \<Rightarrow> 32 word" where
  "wait_status e = (case e of Exited c \<Rightarrow> push_bit 8 (ucast c) | Signalled s \<Rightarrow> take_bit 7 (of_nat s))"

datatype ls_line =
    Program_Name string | Child_Process | Child_Values int int | Parent_Process | Child_Exit_Code "32 word"
  | Parent_Values int int

text \<open>
  The outputs of child and parent, and the parent's exit status. \<open>fork\<close> copies \<open>local\<close> and
  \<open>global\<close>; \<open>ls\<close> is how \<open>/bin/ls\<close> ends, \<open>None\<close> if \<open>execl\<close> fails.
\<close>

definition ls_main ::
    "bool \<Rightarrow> child_end option \<Rightarrow> string list \<Rightarrow> (32 word \<times> ls_line list \<times> ls_line list) cres" where
  "ls_main fork_ok ls argv =
     (if length argv \<noteq> 2 then Inr (1, [], [])
      else cbind (after_last_slash (argv ! 0)) (\<lambda>progname.
        let local = 0; global = 0
        in if \<not> fork_ok then Inr (1, [], [Program_Name progname])
           else
             let child_global = global + 1; child_local = local + 1;
                 child_out = [Child_Process, Child_Values child_local child_global];
                 status = wait_status (case ls of None \<Rightarrow> Exited 1 | Some e \<Rightarrow> e);
                 child_exit_status = WEXITSTATUS status
             in Inr (child_exit_status, child_out,
                     [Program_Name progname, Parent_Process, Child_Exit_Code child_exit_status,
                      Parent_Values local global])))"

section \<open>\<^verbatim>\<open>cw05/zad1/main.c\<close>\<close>

datatype signal = SIGUSR1 | Other_Signal nat

datatype disposition = SIG_DFL | SIG_IGN | Handler

record process =
  disp :: disposition
  mask :: "signal \<Rightarrow> bool"
  pending :: "signal \<Rightarrow> bool"

datatype sig_line = Received | Is_Pending bool

datatype ending = Ended exit_code | Killed signal

text \<open>\<open>raise(SIGUSR1)\<close>: the process after it and what its handler prints; \<open>None\<close> if it dies.\<close>

definition raise_usr1 :: "process \<Rightarrow> (process \<times> sig_line list) option" where
  "raise_usr1 p =
     (if disp p = SIG_IGN then Some (p, [])
      else if mask p SIGUSR1 then Some (p\<lparr>pending := (pending p)(SIGUSR1 := True)\<rparr>, [])
      else if disp p = SIG_DFL then None
      else Some (p, [Received]))"

text \<open>\<open>junk\<close> is what the signal set \<open>mask\<close> holds before \<open>sigaddset\<close>: it is never emptied.\<close>

definition signals_main :: "(signal \<Rightarrow> bool) \<Rightarrow> string list \<Rightarrow> ending \<times> sig_line list" where
  "signals_main junk argv =
     (if length argv \<noteq> 2 then (Ended EXIT_FAILURE, [])
      else
        let react_t = argv ! 1; p = \<lparr>disp = SIG_DFL, mask = \<lambda>_. False, pending = \<lambda>_. False\<rparr>;
            finish = (\<lambda>p. case raise_usr1 p of
                None \<Rightarrow> (Killed SIGUSR1, [])
              | Some (p', out) \<Rightarrow>
                  (Ended EXIT_SUCCESS, if react_t = ''mask'' then out @ [Is_Pending (pending p' SIGUSR1)] else out))
        in if react_t = ''none'' then finish (p\<lparr>disp := SIG_DFL\<rparr>)
           else if react_t = ''ignore'' then finish (p\<lparr>disp := SIG_IGN\<rparr>)
           else if react_t = ''handler'' then finish (p\<lparr>disp := Handler\<rparr>)
           else if react_t = ''mask'' then finish (p\<lparr>mask := junk(SIGUSR1 := True)\<rparr>)
           else (Ended EXIT_FAILURE, []))"

section \<open>Lemmas\<close>

lemma file_sizes_simps [simp]:
  "file_sizes [] = []"
  "file_sizes (e # es) = (case fileinfo e of Some (File n) \<Rightarrow> n # file_sizes es | _ \<Rightarrow> file_sizes es)"
  by (simp_all add: file_sizes_def List.map_filter_simps split: option.splits file_info.splits)

lemma traverse_loop_total:
  assumes "\<forall>e\<in>set es. fileinfo e \<noteq> None" "\<forall>n\<in>set (file_sizes es). 0 \<le> n"
    and "0 \<le> t" "t + sum_list (file_sizes es) \<le> long_max"
  shows "\<exists>ls. traverse_loop es t = Inr (ls @ [Total_Line (t + sum_list (file_sizes es))], 0) \<and>
    length ls = length (file_sizes es)"
  using assms
proof (induction es arbitrary: t)
  case (Cons e es)
  then obtain i where i: "fileinfo e = Some i" by auto
  show ?case
  proof (cases i)
    case Directory
    with Cons i show ?thesis by simp
  next
    case (File n)
    have "0 \<le> sum_list (file_sizes es)" using Cons.prems(2) i File by (intro sum_list_nonneg) simp
    with Cons.prems i File have "in_long (t + n)" by (simp add: int_range_defs)
    moreover obtain ls where "traverse_loop es (t + n) = Inr (ls @ [Total_Line (t + n + sum_list (file_sizes es))], 0)"
      "length ls = length (file_sizes es)"
      using Cons.IH [of "t + n"] Cons.prems i File by auto
    ultimately show ?thesis using i File by (intro exI [of _ "File_Line (d_name e) n # ls"]) (simp add: add.assoc)
  qed
qed simp

lemma traverse_loop_fails:
  "\<exists>e\<in>set es. fileinfo e = None \<Longrightarrow> traverse_loop es t = Inr (ls, r) \<Longrightarrow> r = -1 \<and> (\<forall>n. Total_Line n \<notin> set ls)"
proof (induction es t arbitrary: ls r rule: traverse_loop.induct)
  case (2 e es t)
  then show ?case
    by (fastforce simp: cbind_eq_Inr split: option.splits file_info.splits)
qed simp

lemma wait_loop_count: "wait_loop bound j waits = waits + max 0 (bound - j)"
  by (induction bound j waits rule: wait_loop.induct) (subst wait_loop.simps, simp)

lemma fork_loop_joined:
  assumes "0 \<le> i"
  shows "waited (fork_loop fork_ok n i) = (if i \<le> n then forked (fork_loop fork_ok n i) else max 0 n) \<and>
    (exit_status (fork_loop fork_ok n i) = EXIT_SUCCESS \<longleftrightarrow> (\<forall>k. i \<le> k \<and> k < n \<longrightarrow> fork_ok k)) \<and>
    (printed (fork_loop fork_ok n i) = (if exit_status (fork_loop fork_ok n i) = EXIT_SUCCESS then Some n else None)) \<and>
    (exit_status (fork_loop fork_ok n i) = EXIT_SUCCESS \<longrightarrow> forked (fork_loop fork_ok n i) = max i n)"
  using assms
proof (induction fork_ok n i rule: fork_loop.induct)
  case (1 fork_ok n i)
  show ?case
  proof (cases "i < n \<and> fork_ok i")
    case True
    then have eq: "fork_loop fork_ok n i = fork_loop fork_ok n (i + 1)" by (simp add: fork_loop.simps [of fork_ok n i])
    have "(\<forall>k. i \<le> k \<and> k < n \<longrightarrow> fork_ok k) \<longleftrightarrow> (\<forall>k. i + 1 \<le> k \<and> k < n \<longrightarrow> fork_ok k)"
      using True by (metis add1_zle_eq less_le order_le_less)
    with 1 True show ?thesis unfolding eq by auto
  next
    case False
    then show ?thesis using 1(2) by (auto simp: fork_loop.simps [of fork_ok n i] wait_loop_count)
  qed
qed

lemma WEXITSTATUS_exit: "WEXITSTATUS (wait_status (Exited c)) = ucast c"
  by (rule bit_word_eqI) (auto simp: WEXITSTATUS_def wait_status_def bit_simps dest: bit_imp_le_length)

lemma WEXITSTATUS_signal: "WEXITSTATUS (wait_status (Signalled s)) = 0"
  by (rule bit_word_eqI) (auto simp: WEXITSTATUS_def wait_status_def bit_simps)

section \<open>Properties\<close>

text \<open>
  When every \<open>stat\<close> succeeds and the sum fits, the directory program prints one line per
  file that is no directory and their total size; when some \<open>stat\<close> fails it prints no total,
  and yet \<open>main\<close> returns success.
\<close>

theorem directory_total:
  assumes "dirs ''.'' = Some (True, es)" "\<forall>n\<in>set (file_sizes es). 0 \<le> n" "sum_list (file_sizes es) \<le> long_max"
  shows "((\<forall>e\<in>set es. fileinfo e \<noteq> None) \<longrightarrow>
      (\<exists>ls. dir_main dirs [prog] = Inr (EXIT_SUCCESS, ls @ [Total_Line (sum_list (file_sizes es))]) \<and>
        length ls = length (file_sizes es))) \<and>
    ((\<exists>e\<in>set es. fileinfo e = None) \<longrightarrow>
      (\<forall>code out. dir_main dirs [prog] = Inr (code, out) \<longrightarrow> code = EXIT_SUCCESS \<and> (\<forall>n. Total_Line n \<notin> set out)))"
proof (intro conjI impI allI)
  assume "\<forall>e\<in>set es. fileinfo e \<noteq> None"
  with traverse_loop_total [of es 0] assms
  show "\<exists>ls. dir_main dirs [prog] = Inr (EXIT_SUCCESS, ls @ [Total_Line (sum_list (file_sizes es))]) \<and>
      length ls = length (file_sizes es)"
    by (auto simp: dir_main_def traverse_directory_def)
next
  fix code out
  assume some: "\<exists>e\<in>set es. fileinfo e = None" and run: "dir_main dirs [prog] = Inr (code, out)"
  from run assms(1) obtain r where r: "traverse_loop es 0 = Inr (out, r)" "code = EXIT_SUCCESS"
    by (auto simp: dir_main_def traverse_directory_def cbind_eq_Inr)
  from traverse_loop_fails [OF some r(1)] r(2)
  show "code = EXIT_SUCCESS" "Total_Line n \<notin> set out" for n by auto
qed

theorem directory_total_witness:
  "\<exists>ls. dir_main (\<lambda>_. Some (True, [\<lparr>d_name = ''.'', fileinfo = Some Directory\<rparr>,
       \<lparr>d_name = ''a'', fileinfo = Some (File 10)\<rparr>, \<lparr>d_name = ''b'', fileinfo = Some (File 32)\<rparr>])) [''size''] =
     Inr (EXIT_SUCCESS, ls @ [Total_Line 42]) \<and> length ls = 2"
  using directory_total [of "\<lambda>_. Some (True, [\<lparr>d_name = ''.'', fileinfo = Some Directory\<rparr>,
       \<lparr>d_name = ''a'', fileinfo = Some (File 10)\<rparr>, \<lparr>d_name = ''b'', fileinfo = Some (File 32)\<rparr>])" _ "''size''"]
  by (simp add: long_max_def numeral_2_eq_2)

text \<open>
  The parent of \<^verbatim>\<open>cw04/zad1\<close> waits for exactly the children it forked, on every path; it
  reports success and prints the number given exactly when every \<open>fork\<close> succeeds. A number
  that is not positive is accepted: nothing is forked and it is printed as it is.
\<close>

theorem every_child_is_waited_for:
  assumes "strtol10 (argv ! 1) = (n, False, [])" "length argv = 2"
  shows "let r = fork_main fork_ok argv in
    waited r = forked r \<and>
    (exit_status r = EXIT_SUCCESS \<longleftrightarrow> (\<forall>k. 0 \<le> k \<and> k < n \<longrightarrow> fork_ok k)) \<and>
    (exit_status r = EXIT_SUCCESS \<longrightarrow> printed r = Some n \<and> forked r = max 0 n)"
proof (cases "0 \<le> n")
  case True
  with fork_loop_joined [of 0 fork_ok n] assms show ?thesis
    by (auto simp: fork_main_def Let_def)
next
  case False
  with assms show ?thesis by (auto simp: fork_main_def fork_loop.simps wait_loop_count)
qed

theorem every_child_is_waited_for_witness:
  "let r = fork_main (\<lambda>_. True) [''p'', '' +12''] in waited r = 12 \<and> forked r = 12 \<and> printed r = Some 12"
proof -
  have "strtol10 ([''p'', '' +12''] ! 1) = (12, False, [])" by code_simp
  from every_child_is_waited_for [OF this, of "\<lambda>_. True"] show ?thesis by (simp add: Let_def)
qed

text \<open>
  The \<open>ls\<close> program passes on the exit code of \<open>/bin/ls\<close>, 1 if it cannot be run; the
  counters of parent and child are separate. A child that was killed by a signal looks like
  one that exited with 0, and a program name without a slash is a null pointer.
\<close>

theorem ls_main_result:
  assumes "length argv = 2"
  shows "(CHR ''/'' \<notin> set (argv ! 0) \<longrightarrow> ls_main fork_ok ls argv = Inl Null_Deref) \<and>
    (CHR ''/'' \<in> set (argv ! 0) \<longrightarrow>
      (\<exists>name. argv ! 0 = take (length (argv ! 0) - length name) (argv ! 0) @ name \<and> CHR ''/'' \<notin> set name \<and>
        (let code = (case ls of None \<Rightarrow> 1 | Some (Exited c) \<Rightarrow> ucast c | Some (Signalled s) \<Rightarrow> 0)
         in ls_main True ls argv = Inr (code, [Child_Process, Child_Values 1 1],
              [Program_Name name, Parent_Process, Child_Exit_Code code, Parent_Values 0 0]))))"
proof (intro conjI impI)
  assume "CHR ''/'' \<notin> set (argv ! 0)"
  with assms show "ls_main fork_ok ls argv = Inl Null_Deref" by (simp add: ls_main_def after_last_slash_def)
next
  assume slash: "CHR ''/'' \<in> set (argv ! 0)"
  let ?s = "argv ! 0"
  let ?name = "rev (takeWhile (\<lambda>c. c \<noteq> CHR ''/'') (rev ?s))"
  have "?s = rev (dropWhile (\<lambda>c. c \<noteq> CHR ''/'') (rev ?s)) @ ?name"
    by (simp only: rev_append [symmetric] takeWhile_dropWhile_id rev_rev_ident)
  then have "?s = take (length ?s - length ?name) ?s @ ?name"
    by (metis add_diff_cancel_right' append_eq_conv_conj length_append)
  moreover have "CHR ''/'' \<notin> set ?name" by (auto dest: set_takeWhileD)
  moreover have "WEXITSTATUS (wait_status (case ls of None \<Rightarrow> Exited 1 | Some e \<Rightarrow> e)) =
      (case ls of None \<Rightarrow> 1 | Some (Exited c) \<Rightarrow> ucast c | Some (Signalled s) \<Rightarrow> 0)"
    by (simp add: WEXITSTATUS_exit WEXITSTATUS_signal split: option.splits child_end.splits)
  ultimately show "\<exists>name. ?s = take (length ?s - length name) ?s @ name \<and> CHR ''/'' \<notin> set name \<and>
      (let code = (case ls of None \<Rightarrow> 1 | Some (Exited c) \<Rightarrow> ucast c | Some (Signalled s) \<Rightarrow> 0)
       in ls_main True ls argv = Inr (code, [Child_Process, Child_Values 1 1],
            [Program_Name name, Parent_Process, Child_Exit_Code code, Parent_Values 0 0]))"
    using assms slash by (intro exI [of _ ?name]) (simp add: ls_main_def after_last_slash_def Let_def)
qed

text \<open>
  The four reactions to \<open>SIGUSR1\<close>: it kills the process, is ignored, runs the handler once,
  or stays pending, whatever the uninitialised signal set held; any other argument fails.
\<close>

theorem signal_reactions:
  "signals_main junk [prog, react] =
     (if react = ''none'' then (Killed SIGUSR1, [])
      else if react = ''ignore'' then (Ended EXIT_SUCCESS, [])
      else if react = ''handler'' then (Ended EXIT_SUCCESS, [Received])
      else if react = ''mask'' then (Ended EXIT_SUCCESS, [Is_Pending True])
      else (Ended EXIT_FAILURE, []))"
  by (simp add: signals_main_def raise_usr1_def)

end
