(* ===== verification/Confirmation.thy ===== *)
theory Confirmation
  imports Transition
begin

text \<open>
  The catcher and the sender of \<^verbatim>\<open>cw05/zad2\<close>: the sender queues \<open>SIGUSR1\<close> with a kind of work,
  then waits in \<open>sigsuspend\<close> for the confirmation. The two processes and the delivery of
  their signals interleave; \<open>SIGUSR1\<close> is not blocked before \<open>sigsuspend\<close>.
\<close>

section \<open>\<^verbatim>\<open>catcher.c\<close>\<close>

definition WORK_NUMBERS :: int where "WORK_NUMBERS = 1"
definition WORK_PRINT_N_CHANGES :: int where "WORK_PRINT_N_CHANGES = 2"
definition WORK_FINISH :: int where "WORK_FINISH = 3"

datatype catcher_line = Received_From_Sender | Number int | Work_Type_Changes int | Exiting

text \<open>\<open>work_type_updates\<close> counts the signals handled; \<open>exited\<close> is the catcher's exit status.\<close>

record catcher =
  work_type_updates :: int
  stdout :: "catcher_line list"
  exited :: "exit_code option"

definition work_dispatch :: "int \<Rightarrow> catcher \<Rightarrow> catcher_line list" where
  "work_dispatch work_type c =
     (if work_type = WORK_NUMBERS then map Number [1..100]
      else if work_type = WORK_PRINT_N_CHANGES then [Work_Type_Changes (work_type_updates c)]
      else [])"

text \<open>\<open>sig_handler\<close>; \<open>sender_exists\<close> decides whether \<open>kill\<close> finds the sender.\<close>

definition catcher_handler :: "bool \<Rightarrow> int \<Rightarrow> catcher \<Rightarrow> catcher" where
  "catcher_handler sender_exists work_type c =
     (let c1 = c\<lparr>stdout := stdout c @ Received_From_Sender # work_dispatch work_type c,
                 work_type_updates := work_type_updates c + 1\<rparr>
      in if \<not> sender_exists then c1\<lparr>exited := Some EXIT_FAILURE\<rparr>
         else if work_type = WORK_FINISH
         then c1\<lparr>stdout := stdout c1 @ [Exiting], exited := Some EXIT_SUCCESS\<rparr>
         else c1)"

section \<open>\<^verbatim>\<open>sender.c\<close>\<close>

text \<open>The checks of \<open>main\<close>: the catcher's pid, as a \<open>pid_t\<close>, and the kind of work.\<close>

definition sender_args :: "string list \<Rightarrow> (int \<times> int) option" where
  "sender_args argv =
     (if length argv \<noteq> 3 then None
      else case strtol10 (argv ! 1) of (catcher_pid, erange, end) \<Rightarrow>
        if erange \<or> end \<noteq> [] then None
        else
          let work_type = atoi (argv ! 2)
          in if \<not> (1 \<le> work_type \<and> work_type \<le> 3) then None else Some (long_to_int catcher_pid, work_type))"

datatype sender_pc = Before_Sigqueue | Before_Sigsuspend | In_Sigsuspend | Sender_Exited exit_code

record exchange =
  sender :: sender_pc
  confirmations :: nat
  usr1_to_sender :: bool
  usr1_to_catcher :: "int option"
  catcher_of :: catcher

definition idle_catcher :: "int \<Rightarrow> catcher" where
  "idle_catcher n = \<lparr>work_type_updates = n, stdout = [], exited = None\<rparr>"

definition start_exchange :: "int \<Rightarrow> exchange" where
  "start_exchange n = \<lparr>sender = Before_Sigqueue, confirmations = 0, usr1_to_sender = False,
     usr1_to_catcher = None, catcher_of = idle_catcher n\<rparr>"

text \<open>
  The steps: \<open>sigqueue\<close>, which may fail; the catcher's handler, up to its \<open>kill\<close>; the entry into
  \<open>sigsuspend\<close>; the sender's handler before \<open>sigsuspend\<close>, and within it, when it ends the
  sender.
\<close>

inductive exchange_step :: "int \<Rightarrow> exchange \<Rightarrow> exchange \<Rightarrow> bool" for work_type :: int where
  queues: "sender e = Before_Sigqueue \<Longrightarrow>
     exchange_step work_type e (e\<lparr>sender := Before_Sigsuspend, usr1_to_catcher := Some work_type\<rparr>)"
| queue_fails: "sender e = Before_Sigqueue \<Longrightarrow>
     exchange_step work_type e (e\<lparr>sender := Sender_Exited EXIT_FAILURE\<rparr>)"
| catches: "usr1_to_catcher e = Some w \<Longrightarrow> exited (catcher_of e) = None \<Longrightarrow>
     exchange_step work_type e
       (e\<lparr>usr1_to_catcher := None,
          catcher_of := catcher_handler (\<forall>c. sender e \<noteq> Sender_Exited c) w (catcher_of e),
          usr1_to_sender := True\<rparr>)"
| suspends: "sender e = Before_Sigsuspend \<Longrightarrow> exchange_step work_type e (e\<lparr>sender := In_Sigsuspend\<rparr>)"
| confirmed_early: "usr1_to_sender e \<Longrightarrow> sender e = Before_Sigsuspend \<Longrightarrow>
     exchange_step work_type e (e\<lparr>usr1_to_sender := False, confirmations := confirmations e + 1\<rparr>)"
| confirmed: "usr1_to_sender e \<Longrightarrow> sender e = In_Sigsuspend \<Longrightarrow>
     exchange_step work_type e
       (e\<lparr>usr1_to_sender := False, confirmations := confirmations e + 1, sender := Sender_Exited EXIT_SUCCESS\<rparr>)"

section \<open>The phases of an exchange\<close>

text \<open>
  Nothing sent; nothing sent and given up; sent and not handled; handled and not confirmed; confirmed. The catcher has
  done the work once from the fourth phase on.
\<close>

definition worked :: "int \<Rightarrow> int \<Rightarrow> catcher" where
  "worked n w = catcher_handler True w (idle_catcher n)"

definition exchange_inv :: "int \<Rightarrow> int \<Rightarrow> exchange \<Rightarrow> bool" where
  "exchange_inv n w e \<longleftrightarrow>
     (sender e = Before_Sigqueue \<and> e = start_exchange n) \<or>
     e = (start_exchange n)\<lparr>sender := Sender_Exited EXIT_FAILURE\<rparr> \<or>
     (sender e \<in> {Before_Sigsuspend, In_Sigsuspend} \<and> confirmations e = 0 \<and> \<not> usr1_to_sender e \<and>
        usr1_to_catcher e = Some w \<and> catcher_of e = idle_catcher n) \<or>
     (sender e \<in> {Before_Sigsuspend, In_Sigsuspend} \<and> confirmations e = 0 \<and> usr1_to_sender e \<and>
        usr1_to_catcher e = None \<and> catcher_of e = worked n w) \<or>
     (sender e \<in> {Before_Sigsuspend, In_Sigsuspend, Sender_Exited EXIT_SUCCESS} \<and> confirmations e = 1 \<and>
        \<not> usr1_to_sender e \<and> usr1_to_catcher e = None \<and> catcher_of e = worked n w)"

lemma exchange_inv_step:
  assumes "exchange_inv n w e" "exchange_step w e f"
  shows "exchange_inv n w f"
  using assms(2,1)
proof (induction rule: exchange_step.induct)
  case (queues e)
  then show ?case by (auto simp: exchange_inv_def start_exchange_def)
next
  case (queue_fails e)
  then show ?case by (auto simp: exchange_inv_def start_exchange_def)
next
  case (catches e w')
  then show ?case by (auto simp: exchange_inv_def worked_def start_exchange_def)
next
  case (suspends e)
  then show ?case by (auto simp: exchange_inv_def)
next
  case (confirmed_early e)
  then show ?case by (auto simp: exchange_inv_def start_exchange_def)
next
  case (confirmed e)
  then show ?case by (auto simp: exchange_inv_def start_exchange_def)
qed

interpretation exchange: inductive_invariant "\<lambda>e. e = start_exchange n" "exchange_step w" "exchange_inv n w" for n w
proof unfold_locales
  show "exchange_inv n w e" if "e = start_exchange n" for e
    using that by (simp add: exchange_inv_def start_exchange_def)
  show "exchange_inv n w f" if "exchange_inv n w e" "exchange_step w e f" for e f
    using that by (rule exchange_inv_step)
qed

section \<open>Properties\<close>

abbreviation exchange_reach :: "int \<Rightarrow> int \<Rightarrow> exchange \<Rightarrow> bool" where
  "exchange_reach n w \<equiv> reach (\<lambda>e. e = start_exchange n) (exchange_step w)"

text \<open>
  C35: when no step is left, either \<open>sigqueue\<close> has failed and nothing else has happened, or the
  catcher has done the work it was sent exactly once, and the sender has either exited with
  success or hangs in \<open>sigsuspend\<close>, having received the confirmation before it got there; and for every kind of work some schedule ends in that
  hang.
\<close>

theorem confirmation_can_be_lost:
  assumes "sender_args argv = Some (pid, w)"
  shows "(\<forall>e. exchange_reach n w e \<and> (\<nexists>f. exchange_step w e f) \<longrightarrow>
      e = (start_exchange n)\<lparr>sender := Sender_Exited EXIT_FAILURE\<rparr> \<or>
      catcher_of e = catcher_handler True w (idle_catcher n) \<and> confirmations e = 1 \<and>
      sender e \<in> {Sender_Exited EXIT_SUCCESS, In_Sigsuspend}) \<and>
    (\<exists>e. exchange_reach n w e \<and> sender e = In_Sigsuspend \<and> (\<nexists>f. exchange_step w e f)) \<and>
    (\<exists>e. exchange_reach n w e \<and> sender e = Sender_Exited EXIT_SUCCESS)"
proof (intro conjI)
  show "\<forall>e. exchange_reach n w e \<and> (\<nexists>f. exchange_step w e f) \<longrightarrow>
      e = (start_exchange n)\<lparr>sender := Sender_Exited EXIT_FAILURE\<rparr> \<or>
      catcher_of e = catcher_handler True w (idle_catcher n) \<and> confirmations e = 1 \<and>
      sender e \<in> {Sender_Exited EXIT_SUCCESS, In_Sigsuspend}"
  proof (intro allI impI)
    fix e assume e: "exchange_reach n w e \<and> (\<nexists>f. exchange_step w e f)"
    then have inv: "exchange_inv n w e" using exchange.reachable_inv by blast
    have "sender e \<noteq> Before_Sigqueue" "sender e \<noteq> Before_Sigsuspend"
      using e queues [of e w] suspends [of e w] by blast+
    moreover have "\<not> (usr1_to_catcher e = Some w \<and> exited (catcher_of e) = None)"
      using e catches [of e w w] by blast
    moreover have "\<not> (usr1_to_sender e \<and> sender e = In_Sigsuspend)"
      using e confirmed [of e w] by blast
    ultimately show "e = (start_exchange n)\<lparr>sender := Sender_Exited EXIT_FAILURE\<rparr> \<or>
      catcher_of e = catcher_handler True w (idle_catcher n) \<and> confirmations e = 1 \<and>
      sender e \<in> {Sender_Exited EXIT_SUCCESS, In_Sigsuspend}"
      using inv by (auto simp: exchange_inv_def worked_def idle_catcher_def)
  qed
next
  let ?a = "start_exchange n"
  let ?b = "?a\<lparr>sender := Before_Sigsuspend, usr1_to_catcher := Some w\<rparr>"
  let ?c = "?b\<lparr>usr1_to_catcher := None, catcher_of := worked n w, usr1_to_sender := True\<rparr>"
  have a: "exchange_reach n w ?a" by (simp add: reach_init)
  have b: "exchange_reach n w ?b"
    using a queues [of ?a w] by (auto simp: start_exchange_def intro: reach_step)
  have "exchange_step w ?b ?c"
    using catches [of ?b w w] by (simp add: start_exchange_def idle_catcher_def worked_def)
  with b have c: "exchange_reach n w ?c" by (rule reach_step)
  let ?d = "?c\<lparr>usr1_to_sender := False, confirmations := 1\<rparr>"
  have "exchange_step w ?c ?d"
    using confirmed_early [of ?c w] by (simp add: start_exchange_def)
  with c have "exchange_reach n w ?d" by (rule reach_step)
  moreover have "exchange_step w ?d (?d\<lparr>sender := In_Sigsuspend\<rparr>)" by (rule suspends) simp
  ultimately have hang: "exchange_reach n w (?d\<lparr>sender := In_Sigsuspend\<rparr>)" by (rule reach_step)
  moreover have "\<nexists>f. exchange_step w (?d\<lparr>sender := In_Sigsuspend\<rparr>) f"
    by (auto elim: exchange_step.cases)
  ultimately show "\<exists>e. exchange_reach n w e \<and> sender e = In_Sigsuspend \<and> (\<nexists>f. exchange_step w e f)"
    by (intro exI [of _ "?d\<lparr>sender := In_Sigsuspend\<rparr>"]) simp
  let ?s = "?c\<lparr>sender := In_Sigsuspend\<rparr>"
  have "exchange_step w ?c ?s" by (rule suspends) simp
  with c have "exchange_reach n w ?s" by (rule reach_step)
  moreover have "exchange_step w ?s (?s\<lparr>usr1_to_sender := False, confirmations := confirmations ?s + 1,
      sender := Sender_Exited EXIT_SUCCESS\<rparr>)"
    by (rule confirmed) simp_all
  ultimately have "exchange_reach n w (?s\<lparr>usr1_to_sender := False, confirmations := confirmations ?s + 1,
      sender := Sender_Exited EXIT_SUCCESS\<rparr>)" by (rule reach_step)
  then show "\<exists>e. exchange_reach n w e \<and> sender e = Sender_Exited EXIT_SUCCESS"
    by (rule exI [of _ "?s\<lparr>usr1_to_sender := False, confirmations := confirmations ?s + 1,
      sender := Sender_Exited EXIT_SUCCESS\<rparr>", OF conjI]) simp
qed

theorem confirmation_can_be_lost_witness:
  "\<exists>e. exchange_reach 0 3 e \<and> sender e = In_Sigsuspend \<and> (\<nexists>f. exchange_step 3 e f)"
proof -
  have "sender_args [''sender'', ''4711'', ''3''] = Some (4711, 3)" by code_simp
  from confirmation_can_be_lost [OF this] show ?thesis by blast
qed

text \<open>What the catcher prints for each kind of work.\<close>

lemma catcher_handler_cases:
  "catcher_handler True 1 (idle_catcher n) =
     \<lparr>work_type_updates = n + 1, stdout = Received_From_Sender # map Number [1..100], exited = None\<rparr>"
  "catcher_handler True 2 (idle_catcher n) =
     \<lparr>work_type_updates = n + 1, stdout = [Received_From_Sender, Work_Type_Changes n], exited = None\<rparr>"
  "catcher_handler True 3 (idle_catcher n) =
     \<lparr>work_type_updates = n + 1, stdout = [Received_From_Sender, Exiting], exited = Some EXIT_SUCCESS\<rparr>"
  by (simp_all add: catcher_handler_def idle_catcher_def work_dispatch_def WORK_NUMBERS_def
      WORK_PRINT_N_CHANGES_def WORK_FINISH_def Let_def)

end
