(* ===== verification/Spec2Isabelle.thy ===== *)
theory Spec2Isabelle
  imports Chat_System Print_Conc Print_Family Life_Rounds Reverse Collatz North_Pole
    MQ_System Integral_Service Processes Confirmation
begin

text \<open>
  The exercise programs of an operating-systems course, in C (directories \<^verbatim>\<open>cw01\<close> to \<^verbatim>\<open>cw11\<close>
  under \<^verbatim>\<open>src\<close>), modelled program by program. The programs are independent of each other; what
  they share is the C library and the kernel, and the theories share the model of those.

  \<^bigskip> Prelude.

  \<^item> \<^verbatim>\<open>C_Base\<close>: the C vocabulary. A computation that can run into undefined behaviour is a value
    of \<open>fault + 'a\<close> (\<open>Oob_Read\<close>, \<open>Oob_Write\<close>, \<open>Null_Deref\<close>, \<open>Signed_Overflow\<close>, ...), sequenced
    by \<open>cbind\<close>. Signed integers are \<open>int\<close> with their range checked where the code can leave it,
    unsigned ones and bytes are words, arrays are lists with every access checked, strings are
    lists of characters up to the first NUL; \<open>fgets\<close>, \<open>strtol\<close>, \<open>atoi\<close> and
    what \<open>%d\<close> prints are functions.
  \<^item> \<^verbatim>\<open>Transition\<close>: the locales \<open>inductive_invariant\<close> and \<open>live_system\<close> for step relations;
    interpreted by the print shop, the processes a stopped printer turns into, the threads of
    the game of life, Santa and the reindeer, and the catcher and sender; lemmas that count
    processes.
  \<^item> \<^verbatim>\<open>Partition\<close>: the locale \<open>partition\<close> of a range into consecutive parts; interpreted by the
    split of the integration range and by the split of the grid.

  \<^bigskip> Programs, in the order of their size.

  \<^item> \<^verbatim>\<open>cw11\<close>, chat over sockets. \<^verbatim>\<open>Wire\<close> (\<^verbatim>\<open>socket_utils.c\<close>, \<^verbatim>\<open>socket_utils.h\<close>): the record of
    1024 bytes, \<open>init_message_t\<close>, \<open>serialize_message_t\<close>, \<open>deserialize_message_t\<close>,
    \<open>send_message\<close>, \<open>receive_message\<close>, for both byte orders, with short sends and short reads; the
    locale \<open>framed_codec\<close> lifts a round trip to streams of records, and a record that arrives in
    two parts breaks the framing. \<^verbatim>\<open>Chat_Table\<close>: the array \<open>clients\<close>, its searches and updates; the
    locale \<open>name_registry\<close> is the interface between table and handlers, interpreted on the
    table through the map of names to sockets. \<^verbatim>\<open>Chat_Server\<close> (\<^verbatim>\<open>server.c\<close>): all handlers, the
    dispatch on the message type, the epoll loop, both halves of the heartbeat thread, and the
    clean-up, over the table and the mutex; a handler that would block on the mutex, which no thread will release,
    is the fault \<open>Self_Deadlock\<close>. \<^verbatim>\<open>Chat_Props\<close>: the results of the handlers, the invariant of the table,
    and what the server does to a client. \<^verbatim>\<open>Chat_Net\<close>: \<open>init_ipv4_address\<close>, \<open>htons\<close> and the
    set-up of the sockets on both sides. \<^verbatim>\<open>Chat_Main\<close>: the \<open>main\<close> of the server with its early
    returns, the epoll loop and the heartbeat thread as the inputs they make of what they meet, under
    a schedule that may stop anywhere, and what holds of every run of the whole program. \<^verbatim>\<open>Chat_Client\<close> (\<^verbatim>\<open>client.c\<close>):
    registration, the command loop with \<open>strtok\<close>, the reactions to messages, \<open>clean_exit\<close>,
    \<open>main\<close>. \<^verbatim>\<open>Chat_System\<close>: client and server together, the record one side sends being the
    record the other receives: registration, lines from keyboard to screen, the heartbeat,
    departure.
  \<^item> \<^verbatim>\<open>cw08\<close>, printers and users on shared memory. \<^verbatim>\<open>Print_Queue\<close>: the ring buffer of
    \<^verbatim>\<open>shared_memory_spec.h\<close>, its set-up and the statements that change it, with the locale
    \<open>bounded_fifo\<close> interpreted on it. \<^verbatim>\<open>Print_Conc\<close>: \<open>printer_process\<close> and \<open>user_process\<close> as
    one step relation, statement by statement, for any number of both; its invariant, the
    refinement of a FIFO queue, mutual exclusion, freedom from deadlock, and what signals break.
    \<^verbatim>\<open>Print_Main\<close>: both \<open>main\<close> functions, with their error paths, and the fork loop of the parent.
    \<^verbatim>\<open>Print_Family\<close>: the processes that a printer turns into when a signal ends it, each with its
    copy of \<open>pids\<close>, interleaved, with failing forks and killing each other; a measure bounds
    every run.
  \<^item> \<^verbatim>\<open>cw09\<close>, the game of life. \<^verbatim>\<open>Life_Grid\<close> (\<^verbatim>\<open>grid.c\<close>): the grid, \<open>is_alive\<close>,
    \<open>update_grid\<close>, \<open>update_subgrid\<close>, and their equality with the rule of the game.
    \<^verbatim>\<open>Life_Threads\<close> (\<^verbatim>\<open>life.c\<close>): the split among threads and a round of the workers, cell by cell
    in any order. \<^verbatim>\<open>Life_Signals\<close>: the whole process as a step relation, with the creation of
    the threads, their signal masks (setting one may fail) and pending signals, drawing cell by
    cell, and rounds that may overlap; \<open>draw_grid\<close>. \<^verbatim>\<open>Life_Rounds\<close>: the steps of that process from
    one drawing to the next simulate a round of \<^verbatim>\<open>Life_Threads\<close>, and the frames of calm runs, those
    in which every thread is through whenever \<open>main\<close> comes to draw.
  \<^item> \<^verbatim>\<open>cw10\<close>, Santa and the reindeer. \<^verbatim>\<open>North_Pole\<close> (\<^verbatim>\<open>main.c\<close>): the ten threads, the mutex and
    the condition variables as a step relation; a measure that every step decreases gives the
    bound of 5146 steps on a run.
  \<^item> \<^verbatim>\<open>cw07\<close>, chat over message queues. \<^verbatim>\<open>MQ_Kernel\<close> (\<^verbatim>\<open>queue_spec.h\<close>): POSIX queues, with
    names, descriptors, priorities and bounds. \<^verbatim>\<open>MQ_Chat\<close> (\<^verbatim>\<open>server.c\<close>, \<^verbatim>\<open>client.c\<close>): the
    handlers, the loop and the signal handler of the server, the input loop and the listener of
    the client. \<^verbatim>\<open>MQ_System\<close>: both \<open>main\<close> functions call by call, and a client and the server
    together: registration, a line, departure, a queue left behind.
  \<^item> \<^verbatim>\<open>cw06\<close>, numerical integration. \<^verbatim>\<open>Integral\<close>: the processes, pipes and the report of
    \<^verbatim>\<open>zad1/main.c\<close>, and \<open>integrate\<close>. \<^verbatim>\<open>Integral_Service\<close>: the named pipes, the calculator and
    the caller of \<^verbatim>\<open>zad2\<close> and a session of both. Floating-point operations are real operations followed by a
    rounding function \<open>rnd\<close>, an argument of every definition; the error bounds are those of
    exact arithmetic, \<open>rnd = id\<close>.
  \<^item> \<^verbatim>\<open>cw03\<close> to \<^verbatim>\<open>cw05\<close>. \<^verbatim>\<open>Reverse\<close> (\<^verbatim>\<open>cw03/zad1/reverse.c\<close>): both versions of \<open>reverse_file\<close>
    over a model of \<open>stdio\<close>; the locale \<open>reverser\<close> is what \<open>main\<close> asks of them, interpreted on
    both. \<^verbatim>\<open>Processes\<close>: the directory listing (\<^verbatim>\<open>cw03/zad2\<close>), the forks (\<^verbatim>\<open>cw04\<close>), the reactions
    to \<open>SIGUSR1\<close> (\<^verbatim>\<open>cw05/zad1\<close>). \<^verbatim>\<open>Confirmation\<close> (\<^verbatim>\<open>cw05/zad2\<close>): catcher and sender with the
    delivery of their signals.
  \<^item> \<^verbatim>\<open>cw02\<close> and \<^verbatim>\<open>cw01\<close>. \<^verbatim>\<open>Collatz\<close>: the library with the overflow of \<open>int\<close>, its test program,
    linked or with the library loaded at run time, and the countdown.

  \<^bigskip> What comes from outside. Results of system calls (\<open>fork\<close>, \<open>pipe\<close>, \<open>stat\<close>, \<open>send\<close>,
  \<open>shm_open\<close>, ...), of \<open>rand\<close>, \<open>strtod\<close>, \<open>scanf\<close>, \<open>inet_pton\<close>, \<open>mvprintw\<close> and of the clock, and
  the contents of uninitialised memory are arguments of the definitions, so the theorems hold for all of them
  unless a hypothesis says which are assumed to succeed.

  \<^bigskip> Steps, fuel and loops. Loops that end are total functions. The loops of \<open>main\<close> that have
  no exit are run for a given number of iterations, or over a given list of events, and the
  theorems hold for every such number or list. The input loops (\<open>handle_text_input\<close>,
  \<open>handle_user_input\<close>) take fuel and say in their result whether they have returned; the
  number of iterations that is enough is part of the statement where the code returns. The
  loop of the block version of \<open>reverse_file\<close>, which may not end on a failing medium, is a
  partial function.

  \<^bigskip> Idealisations. In \<^verbatim>\<open>MQ_Kernel\<close> the descriptors of all processes are numbered apart. In the step relations a
  statement that touches shared memory once is one step, and the memory is sequentially
  consistent. In \<^verbatim>\<open>Print_Conc\<close> a signal makes \<open>sem_wait\<close> return without the semaphore, which is
  what POSIX allows for handlers installed by \<open>signal\<close> under \<open>_XOPEN_SOURCE\<close>; the handler is then
  reset, and a second signal ends the process where it is. \<^verbatim>\<open>Print_Family\<close> follows one printer that
  was signalled and its descendants, whose numbers are not used twice. In \<^verbatim>\<open>MQ_Chat\<close> the text the
  server prints has its NUL, as every text the clients send has, and a server that blocks in
  \<open>mq_send\<close> keeps the messages it has already sent. What the game of life draws, and that its rounds
  compute generations, holds of the runs named in those properties; \<^verbatim>\<open>Life_Signals\<close> has runs in
  which a late thread breaks it.

  \<^bigskip> Not modelled: the set-up of ncurses, sleeping, the texts of error messages and what the chat
  server prints on its terminal, the freeing of
  memory before a process ends, and partial writes to the report file; the test script of \<^verbatim>\<open>cw03/zad1\<close> appears as the
  round trip of the reversal.
\<close>

end
